(* ===== verification/PFS_Prelude.thy ===== *)
theory PFS_Prelude
  imports Main "HOL-Library.Word" "HOL-Library.AList"
begin

text \<open>
  Shared vocabulary of the development: machine integers and byte strings, the
  little-endian codecs behind \<^verbatim>\<open>to_le_bytes\<close> / \<^verbatim>\<open>from_le_bytes\<close>, slices, hash maps as
  association lists with distinct keys, and the validity predicate of UTF-8 strings.
\<close>

unbundle bit_operations_syntax

named_theorems codec_simps \<open>rewrite rules that evaluate an encoder against its decoder\<close>
named_theorems inv_intros \<open>preservation lemmas of the component invariants\<close>

section \<open>Machine integers and byte strings\<close>

type_synonym byte = "8 word"
type_synonym bytes = "byte list"
text \<open>A \<^verbatim>\<open>String\<close> is its UTF-8 bytes.\<close>
type_synonym str = bytes
type_synonym u16 = "16 word"
type_synonym u32 = "32 word"
type_synonym u64 = "64 word"
text \<open>\<^verbatim>\<open>i64\<close> values keep their two's complement bits; comparisons go through \<^const>\<open>word_sle\<close>.\<close>
type_synonym i64 = "64 word"

lemma unat_of_nat_small: "n < 2 ^ LENGTH('a) \<Longrightarrow> unat (of_nat n :: 'a::len word) = n"
  by (simp add: unat_of_nat take_bit_nat_eq_self)

lemma unat_of_nat_u16 [simp]: "n < 65536 \<Longrightarrow> unat (of_nat n :: u16) = n"
  by (rule unat_of_nat_small) simp

lemma unat_of_nat_u32 [simp]: "n < 4294967296 \<Longrightarrow> unat (of_nat n :: u32) = n"
  by (rule unat_of_nat_small) simp

lemma unat_of_nat_u64 [simp]: "n < 18446744073709551616 \<Longrightarrow> unat (of_nat n :: u64) = n"
  by (rule unat_of_nat_small) simp

lemma unat_u32_bound: "unat (w :: u32) < 2 ^ 32"
  using unsigned_less [of w] by simp

lemma unat_u64_bound: "unat (w :: u64) < 2 ^ 64"
  using unsigned_less [of w] by simp

lemma unat_of_nat_diff_u64:
  "b \<le> a \<Longrightarrow> a < 2 ^ 64 \<Longrightarrow> unat (of_nat a - of_nat b :: u64) = a - b"
proof -
  assume "b \<le> a" and "a < 2 ^ 64"
  then have "of_nat a - of_nat b = (of_nat (a - b) :: u64)" by (simp only: of_nat_diff)
  moreover have "unat (of_nat (a - b) :: u64) = a - b"
    using \<open>a < 2 ^ 64\<close> by (intro unat_of_nat_u64) simp
  ultimately show ?thesis by (simp only:)
qed

fun le_bytes :: "nat \<Rightarrow> 'a::len word \<Rightarrow> bytes" where
  "le_bytes 0 w = []"
| "le_bytes (Suc n) w = ucast w # le_bytes n (drop_bit 8 w)"

fun of_le :: "bytes \<Rightarrow> 'a::len word" where
  "of_le [] = 0"
| "of_le (b # bs) = ucast b OR push_bit 8 (of_le bs)"

abbreviation u16_le :: "u16 \<Rightarrow> bytes" where "u16_le \<equiv> le_bytes 2"
abbreviation u32_le :: "u32 \<Rightarrow> bytes" where "u32_le \<equiv> le_bytes 4"
abbreviation u64_le :: "u64 \<Rightarrow> bytes" where "u64_le \<equiv> le_bytes 8"

lemma length_le_bytes [simp]: "length (le_bytes n w) = n"
  by (induction n arbitrary: w) auto

lemma of_le_le_bytes: "of_le (le_bytes n w) = take_bit (8 * n) w"
proof (induction n arbitrary: w)
  case 0
  then show ?case by simp
next
  case (Suc n)
  show ?case
    by (rule bit_word_eqI) (auto simp: Suc bit_simps)
qed

lemma of_le_le_bytes_id [codec_simps]:
  fixes w :: "'a::len word"
  assumes "LENGTH('a) \<le> 8 * n"
  shows "of_le (le_bytes n w) = w"
  using assms by (simp add: of_le_le_bytes take_bit_word_eq_self)

lemma bit_of_le_bound: "bit (of_le bs :: 'a::len word) k \<Longrightarrow> k < 8 * length bs"
proof (induction bs arbitrary: k)
  case Nil
  then show ?case by simp
next
  case (Cons b bs)
  from Cons.prems consider "bit b k" | "8 \<le> k" "bit (of_le bs :: 'a word) (k - 8)"
    by (auto simp: bit_simps)
  then show ?case
  proof cases
    case 1
    then have "k < 8" using bit_imp_le_length [of b k] by simp
    then show ?thesis by simp
  next
    case 2
    then show ?thesis using Cons.IH [of "k - 8"] by simp
  qed
qed

lemma le_bytes_of_le [codec_simps]:
  assumes "8 * length bs \<le> LENGTH('a)" and "n = length bs"
  shows "le_bytes n (of_le bs :: 'a::len word) = bs"
  using assms
proof (induction bs arbitrary: n)
  case Nil
  then show ?case by simp
next
  case (Cons b bs)
  have low: "ucast (ucast b OR push_bit 8 (of_le bs) :: 'a word) = b"
    using Cons.prems by (intro bit_word_eqI) (auto simp: bit_simps)
  have high: "drop_bit 8 (ucast b OR push_bit 8 (of_le bs) :: 'a word) = of_le bs"
    using Cons.prems
    by (intro bit_word_eqI) (auto simp: bit_simps dest: bit_of_le_bound bit_imp_le_length)
  from Cons low high show ?case by simp
qed

section \<open>Slices\<close>

text \<open>\<open>subslice a b buf\<close> is \<^verbatim>\<open>buf[a..b]\<close>; out of range it panics in Rust, so the model only
  calls it under the length checks of the source.\<close>

definition subslice :: "nat \<Rightarrow> nat \<Rightarrow> 'a list \<Rightarrow> 'a list" where
  "subslice a b xs = take (b - a) (drop a xs)"

lemma length_subslice [simp]: "length (subslice a b xs) = min (b - a) (length xs - a)"
  by (simp add: subslice_def min.commute)

lemma subslice_append_left [codec_simps]:
  "b \<le> length xs \<Longrightarrow> subslice a b (xs @ ys) = subslice a b xs"
  by (cases "a \<le> length xs") (auto simp: subslice_def)

lemma subslice_append_right [codec_simps]:
  "length xs \<le> a \<Longrightarrow> subslice a b (xs @ ys) = subslice (a - length xs) (b - length xs) ys"
  by (simp add: subslice_def)

lemma subslice_Cons [codec_simps]: "0 < a \<Longrightarrow> subslice a b (x # xs) = subslice (a - 1) (b - 1) xs"
  by (cases a; cases b) (simp_all add: subslice_def)

lemma subslice_all [codec_simps]: "subslice 0 (length xs) xs = xs"
  by (simp add: subslice_def)

lemma subslice_full [codec_simps]: "length xs = n \<Longrightarrow> subslice 0 n xs = xs"
  by (simp add: subslice_def)

lemma subslice_empty [simp]: "b \<le> a \<Longrightarrow> subslice a b xs = []"
  by (simp add: subslice_def)

lemma subslice_take: "b \<le> n \<Longrightarrow> subslice a b (take n xs) = subslice a b xs"
  by (simp add: subslice_def drop_take min_def)

lemma subslice_join: "a \<le> b \<Longrightarrow> b \<le> c \<Longrightarrow> subslice a b xs @ subslice b c xs = subslice a c xs"
  using take_add [of "b - a" "c - b" "drop a xs"] by (simp add: subslice_def add.commute)

lemma subslice_nth: "i < length xs \<Longrightarrow> [xs ! i] = subslice i (Suc i) xs"
  by (simp add: subslice_def take_Suc_conv_app_nth)

lemma subslice_zero: "subslice 0 n xs = take n xs"
  by (simp add: subslice_def)

text \<open>Writing \<open>data\<close> at position \<open>pos\<close> of a file, extending it (with zeros over a hole) when needed.\<close>

definition write_at :: "bytes \<Rightarrow> nat \<Rightarrow> bytes \<Rightarrow> bytes" where
  "write_at file pos data =
     take pos (file @ replicate (pos - length file) 0) @ data @ drop (pos + length data) file"

lemma write_at_end [simp]: "length file = pos \<Longrightarrow> write_at file pos data = file @ data"
  by (simp add: write_at_def)

lemma length_write_at: "length (write_at file pos data) = max (length file) (pos + length data)"
  by (simp add: write_at_def)

lemma take_write_at: "pos \<le> length file \<Longrightarrow> take pos (write_at file pos data) = take pos file"
  by (simp add: write_at_def)

lemma drop_write_at:
  "pos \<le> length file \<Longrightarrow> take (length data) (drop pos (write_at file pos data)) = data"
  by (simp add: write_at_def)

lemma write_at_start: "length data = n \<Longrightarrow> drop n (write_at file 0 data) = drop n file"
  by (simp add: write_at_def)

section \<open>Hash maps\<close>

text \<open>
  A \<^verbatim>\<open>HashMap<K, V>\<close> is an association list with distinct keys; its order stands for the
  iteration order, which the language leaves open. Lookup, insertion and removal are those of
  the library's association lists.
\<close>

type_synonym ('k, 'v) hmap = "('k \<times> 'v) list"

abbreviation hm_get :: "('k, 'v) hmap \<Rightarrow> 'k \<Rightarrow> 'v option" where "hm_get \<equiv> map_of"
abbreviation hm_insert :: "'k \<Rightarrow> 'v \<Rightarrow> ('k, 'v) hmap \<Rightarrow> ('k, 'v) hmap" where "hm_insert \<equiv> AList.update"
abbreviation hm_remove :: "'k \<Rightarrow> ('k, 'v) hmap \<Rightarrow> ('k, 'v) hmap" where "hm_remove \<equiv> AList.delete"
abbreviation hm_values :: "('k, 'v) hmap \<Rightarrow> 'v list" where "hm_values m \<equiv> map snd m"

definition hm_wf :: "('k, 'v) hmap \<Rightarrow> bool" where
  "hm_wf m \<longleftrightarrow> distinct (map fst m)"

definition hm_sum :: "('v \<Rightarrow> nat) \<Rightarrow> ('k, 'v) hmap \<Rightarrow> nat" where
  "hm_sum f m = sum_list (map f (hm_values m))"

lemma hm_wf_Nil [simp]: "hm_wf []"
  by (simp add: hm_wf_def)

lemma hm_wf_insert [simp, intro]: "hm_wf m \<Longrightarrow> hm_wf (hm_insert k v m)"
  by (simp add: hm_wf_def distinct_update)

lemma hm_wf_remove [simp, intro]: "hm_wf m \<Longrightarrow> hm_wf (hm_remove k m)"
  by (simp add: hm_wf_def distinct_delete)

lemma hm_get_insert [simp]: "hm_get (hm_insert k v m) = (hm_get m)(k \<mapsto> v)"
  by (simp add: update_conv')

lemma hm_get_remove [simp]: "hm_get (hm_remove k m) = (hm_get m)(k := None)"
  by (simp add: delete_conv')

lemma hm_values_mem: "hm_wf m \<Longrightarrow> v \<in> set (hm_values m) \<longleftrightarrow> (\<exists>k. hm_get m k = Some v)"
  by (force simp: hm_wf_def)

lemma hm_sum_Nil [simp]: "hm_sum f [] = 0"
  by (simp add: hm_sum_def)

lemma hm_sum_one [simp]: "hm_sum (\<lambda>_. Suc 0) m = length m"
  by (induction m) (auto simp: hm_sum_def)

lemma hm_sum_insert_new:
  "hm_get m k = None \<Longrightarrow> hm_sum f (hm_insert k v m) = hm_sum f m + f v"
  by (induction m) (auto simp: hm_sum_def split: if_splits)

lemma hm_sum_insert_old:
  "hm_get m k = Some w \<Longrightarrow> hm_sum f (hm_insert k v m) + f w = hm_sum f m + f v"
  by (induction m) (auto simp: hm_sum_def split: if_splits)

lemma hm_sum_remove:
  "hm_wf m \<Longrightarrow> hm_get m k = Some w \<Longrightarrow> hm_sum f (hm_remove k m) + f w = hm_sum f m"
proof (induction m)
  case Nil
  then show ?case by simp
next
  case (Cons p m)
  show ?case
  proof (cases "fst p = k")
    case True
    with Cons.prems have "hm_remove k m = m"
      by (auto simp: hm_wf_def delete_id)
    with True Cons.prems show ?thesis by (cases p) (auto simp: hm_sum_def)
  next
    case False
    with Cons show ?thesis by (cases p) (auto simp: hm_sum_def hm_wf_def)
  qed
qed

lemma hm_sum_get_le: "hm_get m k = Some w \<Longrightarrow> f w \<le> hm_sum f m"
  by (induction m) (auto simp: hm_sum_def split: if_splits)

lemma length_insert_new: "hm_get m k = None \<Longrightarrow> length (hm_insert k v m) = Suc (length m)"
  by (induction m) (auto split: if_splits)

lemma length_insert_old: "hm_get m k = Some w \<Longrightarrow> length (hm_insert k v m) = length m"
  by (induction m) (auto split: if_splits)

lemma length_remove:
  "hm_wf m \<Longrightarrow> hm_get m k = Some w \<Longrightarrow> Suc (length (hm_remove k m)) = length m"
  using hm_sum_remove [of m k w "\<lambda>_. 1"] by (simp add: hm_sum_one)

lemma hm_insert_fresh: "k \<notin> fst ` set m \<Longrightarrow> hm_insert k v m = m @ [(k, v)]"
  by (induction m) auto

section \<open>UTF-8\<close>

text \<open>
  \<^verbatim>\<open>String::from_utf8\<close> accepts exactly the well-formed UTF-8 byte strings and
  \<^verbatim>\<open>String::from_utf8_lossy\<close> replaces every maximal ill-formed subsequence by U+FFFD. Both
  walk the string one character at a time; \<open>utf8_head\<close> is that step: whether the string starts
  with a complete character, and how many bytes the step consumes.
\<close>

definition safe_get :: "bytes \<Rightarrow> nat \<Rightarrow> byte" where
  "safe_get bs i = (if i < length bs then bs ! i else 0)"

definition utf8_cont :: "byte \<Rightarrow> bool" where
  "utf8_cont b \<longleftrightarrow> 0x80 \<le> b \<and> b \<le> 0xBF"

definition utf8_char_width :: "byte \<Rightarrow> nat" where
  "utf8_char_width b =
     (if b < 0x80 then 1
      else if 0xC2 \<le> b \<and> b \<le> 0xDF then 2
      else if 0xE0 \<le> b \<and> b \<le> 0xEF then 3
      else if 0xF0 \<le> b \<and> b \<le> 0xF4 then 4 else 0)"

definition utf8_second :: "byte \<Rightarrow> byte \<Rightarrow> bool" where
  "utf8_second b c \<longleftrightarrow>
     (if b = 0xE0 then 0xA0 \<le> c \<and> c \<le> 0xBF
      else if b = 0xED then 0x80 \<le> c \<and> c \<le> 0x9F
      else if b = 0xF0 then 0x90 \<le> c \<and> c \<le> 0xBF
      else if b = 0xF4 then 0x80 \<le> c \<and> c \<le> 0x8F
      else utf8_cont c)"

definition utf8_head :: "bytes \<Rightarrow> bool \<times> nat" where
  "utf8_head bs =
     (let b = safe_get bs 0; w = utf8_char_width b in
      if w = 1 then (True, 1)
      else if w = 0 then (False, 1)
      else if \<not> utf8_second b (safe_get bs 1) then (False, 1)
      else if w = 2 then (True, 2)
      else if \<not> utf8_cont (safe_get bs 2) then (False, 2)
      else if w = 3 then (True, 3)
      else if \<not> utf8_cont (safe_get bs 3) then (False, 3)
      else (True, 4))"

lemma utf8_head_pos: "0 < snd (utf8_head bs)"
  by (simp add: utf8_head_def Let_def)

function utf8_valid :: "bytes \<Rightarrow> bool" where
  "utf8_valid bs =
     (if bs = [] then True
      else fst (utf8_head bs) \<and> utf8_valid (drop (snd (utf8_head bs)) bs))"
  by pat_completeness auto
termination
  by (relation "measure length") (auto simp: utf8_head_pos)

function utf8_lossy :: "bytes \<Rightarrow> bytes" where
  "utf8_lossy bs =
     (if bs = [] then []
      else let n = snd (utf8_head bs) in
        (if fst (utf8_head bs) then take n bs else [0xEF, 0xBF, 0xBD]) @ utf8_lossy (drop n bs))"
  by pat_completeness auto
termination
  by (relation "measure length") (auto simp: utf8_head_pos)

declare utf8_valid.simps [simp del] utf8_lossy.simps [simp del]

lemma utf8_lossy_valid [codec_simps]: "utf8_valid bs \<Longrightarrow> utf8_lossy bs = bs"
proof (induction bs rule: utf8_valid.induct)
  case (1 bs)
  show ?case
  proof (cases "bs = []")
    case True
    then show ?thesis by (simp add: utf8_lossy.simps)
  next
    case False
    with "1.prems" have "fst (utf8_head bs)" "utf8_valid (drop (snd (utf8_head bs)) bs)"
      by (auto simp: utf8_valid.simps [of bs])
    with False "1.IH" show ?thesis
      by (simp add: utf8_lossy.simps [of bs] Let_def)
  qed
qed

lemma utf8_valid_Nil [simp]: "utf8_valid []"
  by (simp add: utf8_valid.simps)

lemma utf8_valid_ascii: "\<forall>b\<in>set bs. b < 0x80 \<Longrightarrow> utf8_valid bs"
proof (induction bs)
  case Nil
  then show ?case by simp
next
  case (Cons b bs)
  then have "utf8_head (b # bs) = (True, 1)"
    by (simp add: utf8_head_def safe_get_def utf8_char_width_def Let_def)
  with Cons show ?case by (simp add: utf8_valid.simps [of "b # bs"])
qed

text \<open>A concrete checksum, for instances of theorems that hold for every \<^verbatim>\<open>crc32c\<close>.\<close>

definition sum_crc :: "bytes \<Rightarrow> u32" where
  "sum_crc bs = (\<Sum>b\<leftarrow>bs. ucast b)"

section \<open>Results\<close>

text \<open>The question-mark operator: stop at the first error.\<close>

definition rbind :: "'e + 'a \<Rightarrow> ('a \<Rightarrow> 'e + 'b) \<Rightarrow> 'e + 'b" where
  "rbind m f = (case m of Inl e \<Rightarrow> Inl e | Inr x \<Rightarrow> f x)"

lemma rbind_simps [simp]: "rbind (Inl e) f = Inl e" "rbind (Inr x) f = f x"
  by (simp_all add: rbind_def)

lemma rbind_Inr: "rbind m f = Inr y \<longleftrightarrow> (\<exists>x. m = Inr x \<and> f x = Inr y)"
  by (cases m) simp_all

definition map_err :: "('e \<Rightarrow> 'f) \<Rightarrow> 'e + 'a \<Rightarrow> 'f + 'a" where
  "map_err g m = (case m of Inl e \<Rightarrow> Inl (g e) | Inr x \<Rightarrow> Inr x)"

lemma map_err_simps [simp]: "map_err g (Inl e) = Inl (g e)" "map_err g (Inr x) = Inr x"
  by (simp_all add: map_err_def)

section \<open>Saturating arithmetic and stamps\<close>

definition saturating_sub :: "u64 \<Rightarrow> u64 \<Rightarrow> u64" where
  "saturating_sub a b = (if b \<le> a then a - b else 0)"

definition saturating_add :: "u64 \<Rightarrow> u64 \<Rightarrow> u64" where
  "saturating_add a b = (if a + b < a then - 1 else a + b)"

lemma unat_saturating_sub:
  "unat b \<le> unat a \<Longrightarrow> unat (saturating_sub a b) = unat a - unat b"
  by (simp add: saturating_sub_def word_le_nat_alt unat_sub)

lemma unat_add_u64: "unat (a :: u64) + unat b < 2 ^ 64 \<Longrightarrow> unat (a + b) = unat a + unat b"
  using unat_add_lem [of a b] by simp

lemma unat_sub_u64: "unat b \<le> unat (a :: u64) \<Longrightarrow> unat (a - b) = unat a - unat b"
  by (simp add: word_le_nat_alt unat_sub)

lemma less_max_u64: "(x :: u64) < - 1 \<longleftrightarrow> unat x + 1 < 2 ^ 64"
proof -
  have "unat (- 1 :: u64) = 2 ^ 64 - 1" by transfer (simp add: mask_eq_exp_minus_1)
  then show ?thesis by (auto simp: word_less_nat_alt)
qed

lemma less_plus_one_u64: "(x :: u64) < - 1 \<Longrightarrow> x < x + 1"
  using unat_add_u64 [of x 1] unfolding less_max_u64 by (simp add: word_less_nat_alt)

lemma saturating_sub_less: "x \<noteq> 0 \<Longrightarrow> saturating_sub x 1 < x"
  using unat_gt_0 [of x] unat_saturating_sub [where a = x and b = 1] by (simp add: word_less_nat_alt)

lemma unat_saturating_add:
  "unat a + unat b < 2 ^ 64 \<Longrightarrow> unat (saturating_add a b) = unat a + unat b"
  using unat_add_u64 [of a b] by (simp add: saturating_add_def word_less_nat_alt)

lemma unat_ucast_u32 [simp]: "unat (ucast (w :: u32) :: u64) = unat w"
proof -
  have "unat w < 2 ^ 64" using unat_u32_bound [of w] by simp
  then show ?thesis by (simp add: unsigned_ucast_eq take_bit_nat_eq_self)
qed

end
