(* ===== verification/Wal_Frame.thy ===== *)
theory Wal_Frame
  imports PFS_Prelude
begin

text \<open>
  Record frames of the volume write-ahead log (\<^verbatim>\<open>powerfs-core/src/wal/frame.rs\<close>): the 26-byte
  frame header, the CRC that covers type, flags, LSN and payload, the hash chain that links each
  frame to the CRC of the frame before it, the one-frame scanner, and the payload codecs of the
  record types. \<^verbatim>\<open>crc32c\<close> comes from a third-party crate and is an argument of every definition
  that calls it; no property of it is assumed anywhere.
\<close>

section \<open>Record types and headers\<close>

abbreviation FRAME_HEADER_SIZE :: nat where "FRAME_HEADER_SIZE \<equiv> 26"
abbreviation FLAG_SYNC_BARRIER :: byte where "FLAG_SYNC_BARRIER \<equiv> 0x01"

abbreviation RT_DATA :: byte where "RT_DATA \<equiv> 0x01"
abbreviation RT_DELETE :: byte where "RT_DELETE \<equiv> 0x02"
abbreviation RT_ATTR :: byte where "RT_ATTR \<equiv> 0x03"
abbreviation RT_SNAP_TAKE :: byte where "RT_SNAP_TAKE \<equiv> 0x04"
abbreviation RT_SNAP_DROP :: byte where "RT_SNAP_DROP \<equiv> 0x05"
abbreviation RT_CKPT_ANCHOR :: byte where "RT_CKPT_ANCHOR \<equiv> 0x06"
abbreviation RT_VOLUME_META :: byte where "RT_VOLUME_META \<equiv> 0x07"
abbreviation RT_GC_MIGRATE :: byte where "RT_GC_MIGRATE \<equiv> 0x08"
abbreviation RT_TOMB_PURGE :: byte where "RT_TOMB_PURGE \<equiv> 0x09"
abbreviation RT_PAD :: byte where "RT_PAD \<equiv> 0x7F"

text \<open>The reasons of \<^verbatim>\<open>InvalidPayload\<close> keep the numbers the source formats into its message.\<close>

datatype payload_reason =
    NeedAtLeast nat nat
  | NeedExactly nat nat
  | DataLenMismatch nat nat
  | NameLenExceeds nat nat
  | NameNotUtf8
  | PayloadTooShort nat nat

datatype FrameError =
    TooSmall nat nat
  | CrcMismatch u64 u32 u32
  | ChainMismatch u64 u64 u64
  | UnknownType byte u64
  | InvalidPayload byte payload_reason

datatype RecordType =
  Data | Delete | Attr | SnapTake | SnapDrop | CkptAnchor | VolumeMeta | GcMigrate | TombPurge | Pad

fun to_u8 :: "RecordType \<Rightarrow> byte" where
  "to_u8 Data = RT_DATA"
| "to_u8 Delete = RT_DELETE"
| "to_u8 Attr = RT_ATTR"
| "to_u8 SnapTake = RT_SNAP_TAKE"
| "to_u8 SnapDrop = RT_SNAP_DROP"
| "to_u8 CkptAnchor = RT_CKPT_ANCHOR"
| "to_u8 VolumeMeta = RT_VOLUME_META"
| "to_u8 GcMigrate = RT_GC_MIGRATE"
| "to_u8 TombPurge = RT_TOMB_PURGE"
| "to_u8 Pad = RT_PAD"

definition from_u8 :: "byte \<Rightarrow> RecordType option" where
  "from_u8 v =
     (if v = RT_DATA then Some Data
      else if v = RT_DELETE then Some Delete
      else if v = RT_ATTR then Some Attr
      else if v = RT_SNAP_TAKE then Some SnapTake
      else if v = RT_SNAP_DROP then Some SnapDrop
      else if v = RT_CKPT_ANCHOR then Some CkptAnchor
      else if v = RT_VOLUME_META then Some VolumeMeta
      else if v = RT_GC_MIGRATE then Some GcMigrate
      else if v = RT_TOMB_PURGE then Some TombPurge
      else if v = RT_PAD then Some Pad
      else None)"

lemma from_u8_to_u8 [simp]: "from_u8 (to_u8 t) = Some t"
  by (cases t) (simp_all add: from_u8_def)

lemma from_u8_Some: "from_u8 v = Some t \<longleftrightarrow> v = to_u8 t"
  by (cases t) (auto simp: from_u8_def)

record FrameHeader =
  fh_prev_crc :: u64
  fh_crc :: u32
  fh_len :: u32
  fh_rtype :: RecordType
  fh_flags :: byte
  fh_lsn :: u64

definition total_size :: "FrameHeader \<Rightarrow> nat" where
  "total_size h = FRAME_HEADER_SIZE + unat (fh_len h)"

definition is_sync_barrier :: "FrameHeader \<Rightarrow> bool" where
  "is_sync_barrier h \<longleftrightarrow> fh_flags h AND FLAG_SYNC_BARRIER \<noteq> 0"

definition compute_frame_crc :: "(bytes \<Rightarrow> u32) \<Rightarrow> byte \<Rightarrow> byte \<Rightarrow> u64 \<Rightarrow> bytes \<Rightarrow> u32" where
  "compute_frame_crc crc32c rtype flags lsn payload =
     crc32c ([rtype] @ [flags] @ u64_le lsn @ payload)"

text \<open>\<^verbatim>\<open>encode_header_into\<close> overwrites the whole 26-byte buffer; \<^const>\<open>None\<close> is the panic of its
  \<^verbatim>\<open>assert_eq!\<close>.\<close>

definition encode_header_into :: "bytes \<Rightarrow> FrameHeader \<Rightarrow> bytes option" where
  "encode_header_into buf h =
     (if length buf \<noteq> FRAME_HEADER_SIZE then None
      else Some (u64_le (fh_prev_crc h) @ u32_le (fh_crc h) @ u32_le (fh_len h) @
                 [to_u8 (fh_rtype h)] @ [fh_flags h] @ u64_le (fh_lsn h)))"

definition encode_frame ::
  "(bytes \<Rightarrow> u32) \<Rightarrow> u64 \<Rightarrow> RecordType \<Rightarrow> byte \<Rightarrow> u64 \<Rightarrow> bytes \<Rightarrow> bytes \<times> u32" where
  "encode_frame crc32c prev_crc rtype flags lsn payload =
     (let rt = to_u8 rtype;
          crc = compute_frame_crc crc32c rt flags lsn payload;
          header = \<lparr>fh_prev_crc = prev_crc, fh_crc = crc, fh_len = of_nat (length payload),
                    fh_rtype = rtype, fh_flags = flags, fh_lsn = lsn\<rparr>;
          hb = the (encode_header_into (replicate FRAME_HEADER_SIZE 0) header)
      in (hb @ payload, crc))"

text \<open>\<^const>\<open>None\<close>: the \<^verbatim>\<open>assert!\<close> on \<^verbatim>\<open>total_len\<close> panics.\<close>

definition encode_pad_frame :: "(bytes \<Rightarrow> u32) \<Rightarrow> u64 \<Rightarrow> u64 \<Rightarrow> nat \<Rightarrow> (bytes \<times> u32) option" where
  "encode_pad_frame crc32c prev_crc lsn total_len =
     (if total_len < FRAME_HEADER_SIZE then None
      else Some (encode_frame crc32c prev_crc Pad 0 lsn (replicate (total_len - FRAME_HEADER_SIZE) 0)))"

definition decode_header :: "bytes \<Rightarrow> u64 \<Rightarrow> FrameError + FrameHeader" where
  "decode_header buf offset =
     (if length buf < FRAME_HEADER_SIZE then Inl (TooSmall FRAME_HEADER_SIZE (length buf))
      else
        (let prev_crc = of_le (subslice 0 8 buf);
             crc = of_le (subslice 8 12 buf);
             len = of_le (subslice 12 16 buf);
             rt_u8 = buf ! 16;
             flags = buf ! 17;
             lsn = of_le (subslice 18 26 buf)
         in case from_u8 rt_u8 of
              None \<Rightarrow> Inl (UnknownType rt_u8 offset)
            | Some rtype \<Rightarrow> Inr \<lparr>fh_prev_crc = prev_crc, fh_crc = crc, fh_len = len,
                                fh_rtype = rtype, fh_flags = flags, fh_lsn = lsn\<rparr>))"

datatype ScanOne =
    Frame FrameHeader bytes nat
  | EndOfData
  | Torn nat nat
  | Corrupt FrameError

definition scan_one :: "(bytes \<Rightarrow> u32) \<Rightarrow> bytes \<Rightarrow> u64 \<Rightarrow> ScanOne" where
  "scan_one crc32c buf expected_prev_crc =
     (if length buf < FRAME_HEADER_SIZE then
        (if \<forall>b\<in>set buf. b = 0 then EndOfData else Torn FRAME_HEADER_SIZE (length buf))
      else
        (case decode_header buf 0 of
           Inl (UnknownType t off) \<Rightarrow>
             (if \<forall>b\<in>set (subslice 0 FRAME_HEADER_SIZE buf). b = 0 then EndOfData
              else Corrupt (UnknownType t off))
         | Inl e \<Rightarrow> Corrupt e
         | Inr header \<Rightarrow>
             (let total = total_size header in
              if total > length buf then Torn total (length buf)
              else
                (let payload = subslice FRAME_HEADER_SIZE total buf;
                     got_crc = compute_frame_crc crc32c (to_u8 (fh_rtype header)) (fh_flags header)
                                 (fh_lsn header) payload
                 in if got_crc \<noteq> fh_crc header
                    then Corrupt (CrcMismatch (fh_lsn header) (fh_crc header) got_crc)
                    else if fh_prev_crc header \<noteq> expected_prev_crc
                    then Corrupt (ChainMismatch (fh_lsn header) expected_prev_crc (fh_prev_crc header))
                    else Frame header payload total))))"

section \<open>Scanning inverts encoding\<close>

text \<open>The header that \<^const>\<open>encode_frame\<close> writes.\<close>

definition frame_header_of ::
  "(bytes \<Rightarrow> u32) \<Rightarrow> u64 \<Rightarrow> RecordType \<Rightarrow> byte \<Rightarrow> u64 \<Rightarrow> bytes \<Rightarrow> FrameHeader" where
  "frame_header_of crc32c prev_crc rtype flags lsn payload =
     \<lparr>fh_prev_crc = prev_crc,
      fh_crc = compute_frame_crc crc32c (to_u8 rtype) flags lsn payload,
      fh_len = of_nat (length payload), fh_rtype = rtype, fh_flags = flags, fh_lsn = lsn\<rparr>"

lemma frame_header_of_sel [simp]:
  "fh_prev_crc (frame_header_of c p t f l pl) = p"
  "fh_crc (frame_header_of c p t f l pl) = compute_frame_crc c (to_u8 t) f l pl"
  "fh_len (frame_header_of c p t f l pl) = of_nat (length pl)"
  "fh_rtype (frame_header_of c p t f l pl) = t"
  "fh_flags (frame_header_of c p t f l pl) = f"
  "fh_lsn (frame_header_of c p t f l pl) = l"
  by (simp_all add: frame_header_of_def)

definition header_bytes :: "FrameHeader \<Rightarrow> bytes" where
  "header_bytes h = the (encode_header_into (replicate FRAME_HEADER_SIZE 0) h)"

lemma header_bytes_eq:
  "header_bytes h = u64_le (fh_prev_crc h) @ u32_le (fh_crc h) @ u32_le (fh_len h) @
     [to_u8 (fh_rtype h)] @ [fh_flags h] @ u64_le (fh_lsn h)"
  by (simp add: header_bytes_def encode_header_into_def)

lemma length_header_bytes [simp]: "length (header_bytes h) = FRAME_HEADER_SIZE"
  by (simp add: header_bytes_eq)

lemma encode_frame_eq:
  "encode_frame crc32c p t f l pl =
     (header_bytes (frame_header_of crc32c p t f l pl) @ pl,
      compute_frame_crc crc32c (to_u8 t) f l pl)"
  by (simp add: encode_frame_def header_bytes_def frame_header_of_def Let_def)

lemma length_encode_frame [simp]:
  "length (fst (encode_frame crc32c p t f l pl)) = FRAME_HEADER_SIZE + length pl"
  by (simp add: encode_frame_eq)

lemma decode_header_bytes [codec_simps]: "decode_header (header_bytes h @ rest) off = Inr h"
proof -
  have nths: "(header_bytes h @ rest) ! 16 = to_u8 (fh_rtype h)"
    "(header_bytes h @ rest) ! 17 = fh_flags h"
    by (simp_all add: header_bytes_eq nth_append)
  show ?thesis
    unfolding decode_header_def Let_def nths
    by (cases h) (simp add: header_bytes_eq codec_simps)
qed


lemma decode_header_Inr:
  assumes "decode_header buf off = Inr h"
  shows "FRAME_HEADER_SIZE \<le> length buf" and "take FRAME_HEADER_SIZE buf = header_bytes h"
proof -
  from assms show len: "FRAME_HEADER_SIZE \<le> length buf"
    by (auto simp: decode_header_def split: if_splits)
  from assms len have h:
    "fh_prev_crc h = of_le (subslice 0 8 buf)" "fh_crc h = of_le (subslice 8 12 buf)"
    "fh_len h = of_le (subslice 12 16 buf)" "to_u8 (fh_rtype h) = buf ! 16"
    "fh_flags h = buf ! 17" "fh_lsn h = of_le (subslice 18 26 buf)"
    by (auto simp: decode_header_def Let_def from_u8_Some split: if_splits option.splits)
  have "header_bytes h = subslice 0 8 buf @ subslice 8 12 buf @ subslice 12 16 buf @
      subslice 16 17 buf @ subslice 17 18 buf @ subslice 18 26 buf"
    using len by (simp add: header_bytes_eq h codec_simps subslice_nth)
  also have "\<dots> = subslice 0 26 buf"
    by (simp add: subslice_join)
  finally show "take FRAME_HEADER_SIZE buf = header_bytes h"
    by (simp add: subslice_zero)
qed

lemma scan_one_encode [codec_simps]:
  assumes "length pl < 2 ^ 32"
  shows "scan_one c (fst (encode_frame c p t f l pl) @ rest) p =
           Frame (frame_header_of c p t f l pl) pl (FRAME_HEADER_SIZE + length pl)"
proof -
  have "unat (of_nat (length pl) :: u32) = length pl"
    using assms by simp
  then show ?thesis
    by (simp add: scan_one_def encode_frame_eq codec_simps total_size_def Let_def)
qed

text \<open>A frame cut short is never accepted: fewer than 26 bytes are slack or a torn header, and a
  complete header with a short payload is reported torn with the size it declares.\<close>

lemma scan_one_cut:
  assumes "length pl < 2 ^ 32" and "n < FRAME_HEADER_SIZE + length pl"
  shows "scan_one c (take n (fst (encode_frame c p t f l pl))) q =
    (if n < FRAME_HEADER_SIZE
     then if \<forall>b\<in>set (take n (fst (encode_frame c p t f l pl))). b = 0
          then EndOfData else Torn FRAME_HEADER_SIZE n
     else Torn (FRAME_HEADER_SIZE + length pl) n)"
proof (cases "n < FRAME_HEADER_SIZE")
  case True
  then show ?thesis by (simp add: scan_one_def)
next
  case False
  have len: "unat (of_nat (length pl) :: u32) = length pl"
    using assms(1) by simp
  have "take n (fst (encode_frame c p t f l pl)) =
      header_bytes (frame_header_of c p t f l pl) @ take (n - FRAME_HEADER_SIZE) pl"
    using False by (simp add: encode_frame_eq)
  with False assms(2) len show ?thesis
    by (simp add: scan_one_def codec_simps total_size_def Let_def)
qed

text \<open>Conversely, whatever the scanner accepts is byte for byte a frame the encoder produces with
  the expected chain value.\<close>

lemma scan_one_Frame:
  assumes "scan_one c buf p = Frame h pl n"
  shows "n = FRAME_HEADER_SIZE + length pl" and "length pl < 2 ^ 32"
    and "buf = fst (encode_frame c p (fh_rtype h) (fh_flags h) (fh_lsn h) pl) @ drop n buf"
    and "h = frame_header_of c p (fh_rtype h) (fh_flags h) (fh_lsn h) pl"
proof -
  from assms have dec: "decode_header buf 0 = Inr h"
    and tot: "total_size h \<le> length buf" and n: "n = total_size h"
    and pl: "pl = subslice FRAME_HEADER_SIZE (total_size h) buf"
    and crc: "fh_crc h = compute_frame_crc c (to_u8 (fh_rtype h)) (fh_flags h) (fh_lsn h) pl"
    and prev: "fh_prev_crc h = p"
    by (auto simp: scan_one_def Let_def split: if_splits sum.splits FrameError.splits)
  have lpl: "length pl = unat (fh_len h)"
    using tot by (simp add: pl total_size_def)
  show n': "n = FRAME_HEADER_SIZE + length pl" by (simp add: n lpl total_size_def)
  show "length pl < 2 ^ 32" using unat_u32_bound [of "fh_len h"] by (simp add: lpl)
  have "fh_len h = of_nat (length pl)" by (simp add: lpl)
  with crc prev show hdr: "h = frame_header_of c p (fh_rtype h) (fh_flags h) (fh_lsn h) pl"
    by (cases h) (simp add: frame_header_of_def)
  have "take n buf = take FRAME_HEADER_SIZE buf @ pl"
    using tot by (simp add: n pl subslice_zero [symmetric] subslice_join total_size_def)
  also have "\<dots> = fst (encode_frame c p (fh_rtype h) (fh_flags h) (fh_lsn h) pl)"
    using decode_header_Inr(2) [OF dec] hdr by (simp add: encode_frame_eq)
  finally show "buf = fst (encode_frame c p (fh_rtype h) (fh_flags h) (fh_lsn h) pl) @ drop n buf"
    by (metis append_take_drop_id)
qed

lemma scan_one_Frame_drop:
  "scan_one c buf p = Frame h pl n \<Longrightarrow> FRAME_HEADER_SIZE \<le> n \<and> n \<le> length buf"
  by (auto simp: scan_one_def Let_def total_size_def
      split: if_splits sum.splits FrameError.splits)


section \<open>Payload codecs\<close>

text \<open>\<^verbatim>\<open>buf.get(pos..pos + n)\<close> fails past the end; the error carries what is left.\<close>

definition too_short :: "nat \<Rightarrow> nat \<Rightarrow> FrameError" where
  "too_short need got = InvalidPayload 0 (PayloadTooShort need got)"

definition read_u64 :: "bytes \<Rightarrow> nat \<Rightarrow> FrameError + u64" where
  "read_u64 buf pos =
     (if pos + 8 \<le> length buf then Inr (of_le (subslice pos (pos + 8) buf))
      else Inl (too_short 8 (length buf - pos)))"

definition read_u32 :: "bytes \<Rightarrow> nat \<Rightarrow> FrameError + u32" where
  "read_u32 buf pos =
     (if pos + 4 \<le> length buf then Inr (of_le (subslice pos (pos + 4) buf))
      else Inl (too_short 4 (length buf - pos)))"

definition read_u16 :: "bytes \<Rightarrow> nat \<Rightarrow> FrameError + u16" where
  "read_u16 buf pos =
     (if pos + 2 \<le> length buf then Inr (of_le (subslice pos (pos + 2) buf))
      else Inl (too_short 2 (length buf - pos)))"

definition read_i64 :: "bytes \<Rightarrow> nat \<Rightarrow> FrameError + i64" where
  "read_i64 buf pos = read_u64 buf pos"

lemma read_simps [simp]:
  "pos + 8 \<le> length buf \<Longrightarrow> read_u64 buf pos = Inr (of_le (subslice pos (pos + 8) buf))"
  "pos + 8 \<le> length buf \<Longrightarrow> read_i64 buf pos = Inr (of_le (subslice pos (pos + 8) buf))"
  "pos + 4 \<le> length buf \<Longrightarrow> read_u32 buf pos = Inr (of_le (subslice pos (pos + 4) buf))"
  "pos + 2 \<le> length buf \<Longrightarrow> read_u16 buf pos = Inr (of_le (subslice pos (pos + 2) buf))"
  by (simp_all add: read_u64_def read_u32_def read_u16_def read_i64_def)

record DataPayload =
  dp_needle_id :: u64
  dp_data :: bytes

definition DataPayload_encode :: "DataPayload \<Rightarrow> bytes" where
  "DataPayload_encode p =
     u64_le (dp_needle_id p) @ u32_le (of_nat (length (dp_data p))) @ dp_data p"

definition DataPayload_decode :: "bytes \<Rightarrow> FrameError + DataPayload" where
  "DataPayload_decode buf =
     (if length buf < 12 then Inl (InvalidPayload RT_DATA (NeedAtLeast 12 (length buf)))
      else case read_u64 buf 0 of Inl e \<Rightarrow> Inl e | Inr needle_id \<Rightarrow>
        (case read_u32 buf 8 of Inl e \<Rightarrow> Inl e | Inr dl \<Rightarrow>
          (let data_len = unat dl in
           if length buf \<noteq> 12 + data_len
           then Inl (InvalidPayload RT_DATA (DataLenMismatch data_len (length buf - 12)))
           else Inr \<lparr>dp_needle_id = needle_id, dp_data = drop 12 buf\<rparr>)))"

record DeletePayload =
  del_needle_id :: u64
  del_deleted_at :: i64
  del_retention_until :: i64

definition DeletePayload_encode :: "DeletePayload \<Rightarrow> bytes" where
  "DeletePayload_encode p =
     u64_le (del_needle_id p) @ u64_le (del_deleted_at p) @ u64_le (del_retention_until p)"

definition DeletePayload_decode :: "bytes \<Rightarrow> FrameError + DeletePayload" where
  "DeletePayload_decode buf =
     (if length buf \<noteq> 24 then Inl (InvalidPayload RT_DELETE (NeedExactly 24 (length buf)))
      else case read_u64 buf 0 of Inl e \<Rightarrow> Inl e | Inr needle_id \<Rightarrow>
        (case read_i64 buf 8 of Inl e \<Rightarrow> Inl e | Inr deleted_at \<Rightarrow>
          (case read_i64 buf 16 of Inl e \<Rightarrow> Inl e | Inr retention_until \<Rightarrow>
             Inr \<lparr>del_needle_id = needle_id, del_deleted_at = deleted_at,
                  del_retention_until = retention_until\<rparr>)))"

record AttrPayload =
  at_needle_id :: u64
  at_attr_mask :: u32
  at_values :: bytes

definition AttrPayload_encode :: "AttrPayload \<Rightarrow> bytes" where
  "AttrPayload_encode p = u64_le (at_needle_id p) @ u32_le (at_attr_mask p) @ at_values p"

definition AttrPayload_decode :: "bytes \<Rightarrow> FrameError + AttrPayload" where
  "AttrPayload_decode buf =
     (if length buf < 12 then Inl (InvalidPayload RT_ATTR (NeedAtLeast 12 (length buf)))
      else case read_u64 buf 0 of Inl e \<Rightarrow> Inl e | Inr needle_id \<Rightarrow>
        (case read_u32 buf 8 of Inl e \<Rightarrow> Inl e | Inr attr_mask \<Rightarrow>
           Inr \<lparr>at_needle_id = needle_id, at_attr_mask = attr_mask, at_values = drop 12 buf\<rparr>))"

text \<open>Rust strings are their UTF-8 bytes; \<^const>\<open>utf8_valid\<close> is the invariant of the type.\<close>

record SnapTakePayload =
  st_snapshot_id :: u64
  st_group_id :: u64
  st_name :: bytes
  st_ts :: i64

definition SnapTakePayload_encode :: "SnapTakePayload \<Rightarrow> bytes" where
  "SnapTakePayload_encode p =
     u64_le (st_snapshot_id p) @ u64_le (st_group_id p) @ u16_le (of_nat (length (st_name p))) @
     st_name p @ u64_le (st_ts p)"

definition SnapTakePayload_decode :: "bytes \<Rightarrow> FrameError + SnapTakePayload" where
  "SnapTakePayload_decode buf =
     (if length buf < 26 then Inl (InvalidPayload RT_SNAP_TAKE (NeedAtLeast 26 (length buf)))
      else case read_u64 buf 0 of Inl e \<Rightarrow> Inl e | Inr snapshot_id \<Rightarrow>
        (case read_u64 buf 8 of Inl e \<Rightarrow> Inl e | Inr group_id \<Rightarrow>
          (case read_u16 buf 16 of Inl e \<Rightarrow> Inl e | Inr nl \<Rightarrow>
            (let name_len = unat nl in
             if length buf < 18 + name_len + 8
             then Inl (InvalidPayload RT_SNAP_TAKE (NameLenExceeds name_len (length buf)))
             else
               (let name = subslice 18 (18 + name_len) buf in
                if \<not> utf8_valid name then Inl (InvalidPayload RT_SNAP_TAKE NameNotUtf8)
                else case read_i64 buf (18 + name_len) of Inl e \<Rightarrow> Inl e | Inr ts \<Rightarrow>
                  Inr \<lparr>st_snapshot_id = snapshot_id, st_group_id = group_id, st_name = name,
                       st_ts = ts\<rparr>)))))"

record SnapDropPayload =
  sd_snapshot_id :: u64

definition SnapDropPayload_encode :: "SnapDropPayload \<Rightarrow> bytes" where
  "SnapDropPayload_encode p = u64_le (sd_snapshot_id p)"

definition SnapDropPayload_decode :: "bytes \<Rightarrow> FrameError + SnapDropPayload" where
  "SnapDropPayload_decode buf =
     (if length buf \<noteq> 8 then Inl (InvalidPayload RT_SNAP_DROP (NeedExactly 8 (length buf)))
      else case read_u64 buf 0 of Inl e \<Rightarrow> Inl e | Inr snapshot_id \<Rightarrow>
        Inr \<lparr>sd_snapshot_id = snapshot_id\<rparr>)"

record CkptAnchorPayload =
  ca_ckpt_seq :: u64
  ca_applied_lsn :: u64

definition CkptAnchorPayload_encode :: "CkptAnchorPayload \<Rightarrow> bytes" where
  "CkptAnchorPayload_encode p = u64_le (ca_ckpt_seq p) @ u64_le (ca_applied_lsn p)"

definition CkptAnchorPayload_decode :: "bytes \<Rightarrow> FrameError + CkptAnchorPayload" where
  "CkptAnchorPayload_decode buf =
     (if length buf \<noteq> 16 then Inl (InvalidPayload RT_CKPT_ANCHOR (NeedExactly 16 (length buf)))
      else case read_u64 buf 0 of Inl e \<Rightarrow> Inl e | Inr ckpt_seq \<Rightarrow>
        (case read_u64 buf 8 of Inl e \<Rightarrow> Inl e | Inr applied_lsn \<Rightarrow>
           Inr \<lparr>ca_ckpt_seq = ckpt_seq, ca_applied_lsn = applied_lsn\<rparr>))"

abbreviation VOLUME_META_FIELD_VOLUME_SIZE :: u32 where "VOLUME_META_FIELD_VOLUME_SIZE \<equiv> 0x01"

record VolumeMetaPayload =
  vm_field_mask :: u32
  vm_values :: bytes

definition VolumeMetaPayload_encode :: "VolumeMetaPayload \<Rightarrow> bytes" where
  "VolumeMetaPayload_encode p = u32_le (vm_field_mask p) @ vm_values p"

definition VolumeMetaPayload_volume_size :: "u64 \<Rightarrow> bytes" where
  "VolumeMetaPayload_volume_size new_size =
     VolumeMetaPayload_encode
       \<lparr>vm_field_mask = VOLUME_META_FIELD_VOLUME_SIZE, vm_values = u64_le new_size\<rparr>"

definition VolumeMetaPayload_decode :: "bytes \<Rightarrow> FrameError + VolumeMetaPayload" where
  "VolumeMetaPayload_decode buf =
     (if length buf < 4 then Inl (InvalidPayload RT_VOLUME_META (NeedAtLeast 4 (length buf)))
      else case read_u32 buf 0 of Inl e \<Rightarrow> Inl e | Inr field_mask \<Rightarrow>
        Inr \<lparr>vm_field_mask = field_mask, vm_values = drop 4 buf\<rparr>)"

definition take_volume_size :: "VolumeMetaPayload \<Rightarrow> u64 option" where
  "take_volume_size p =
     (if vm_field_mask p AND VOLUME_META_FIELD_VOLUME_SIZE \<noteq> 0 \<and> 8 \<le> length (vm_values p)
      then Some (of_le (subslice 0 8 (vm_values p))) else None)"

record GcMigratePayload =
  gm_needle_id :: u64
  gm_expect_version :: u64
  gm_data :: bytes

definition GcMigratePayload_encode :: "GcMigratePayload \<Rightarrow> bytes" where
  "GcMigratePayload_encode p =
     u64_le (gm_needle_id p) @ u64_le (gm_expect_version p) @
     u32_le (of_nat (length (gm_data p))) @ gm_data p"

definition GcMigratePayload_decode :: "bytes \<Rightarrow> FrameError + GcMigratePayload" where
  "GcMigratePayload_decode buf =
     (if length buf < 20 then Inl (InvalidPayload RT_GC_MIGRATE (NeedAtLeast 20 (length buf)))
      else case read_u64 buf 0 of Inl e \<Rightarrow> Inl e | Inr needle_id \<Rightarrow>
        (case read_u64 buf 8 of Inl e \<Rightarrow> Inl e | Inr expect_version \<Rightarrow>
          (case read_u32 buf 16 of Inl e \<Rightarrow> Inl e | Inr dl \<Rightarrow>
            (let data_len = unat dl in
             if length buf \<noteq> 20 + data_len
             then Inl (InvalidPayload RT_GC_MIGRATE (DataLenMismatch data_len (length buf - 20)))
             else Inr \<lparr>gm_needle_id = needle_id, gm_expect_version = expect_version,
                       gm_data = drop 20 buf\<rparr>))))"


section \<open>The codec interface\<close>

text \<open>
  What the writer and the replayer rely on of a payload codec: a representable value survives
  encoding and decoding. A strict codec also accepts nothing but encodings. \<open>fits\<close> is the range
  in which the length fields do not truncate.
\<close>

locale payload_codec =
  fixes enc :: "'a \<Rightarrow> bytes"
    and dec :: "bytes \<Rightarrow> FrameError + 'a"
    and fits :: "'a \<Rightarrow> bool"
  assumes dec_enc: "fits x \<Longrightarrow> dec (enc x) = Inr x"
begin

lemma enc_inject: "fits x \<Longrightarrow> fits y \<Longrightarrow> enc x = enc y \<Longrightarrow> x = y"
  by (metis dec_enc sum.inject(2))

lemma framed: "fits x \<Longrightarrow> length (enc x) < 2 ^ 32 \<Longrightarrow>
  \<exists>h n. scan_one c (fst (encode_frame c p t f l (enc x)) @ rest) p = Frame h (enc x) n \<and>
        fh_rtype h = t \<and> fh_lsn h = l \<and> n = FRAME_HEADER_SIZE + length (enc x) \<and>
        dec (enc x) = Inr x"
  by (simp add: scan_one_encode dec_enc)

end

locale strict_codec = payload_codec +
  assumes enc_dec: "dec buf = Inr x \<Longrightarrow> fits x \<and> enc x = buf"
begin

lemma dec_iff: "dec buf = Inr x \<longleftrightarrow> fits x \<and> buf = enc x"
  using dec_enc enc_dec by blast

lemma dec_inject: "dec buf = Inr x \<Longrightarrow> dec buf' = Inr x \<Longrightarrow> buf = buf'"
  by (simp add: dec_iff)

end

definition data_fits :: "DataPayload \<Rightarrow> bool" where
  "data_fits p \<longleftrightarrow> length (dp_data p) < 2 ^ 32"

definition migrate_fits :: "GcMigratePayload \<Rightarrow> bool" where
  "migrate_fits p \<longleftrightarrow> length (gm_data p) < 2 ^ 32"

definition snap_fits :: "SnapTakePayload \<Rightarrow> bool" where
  "snap_fits p \<longleftrightarrow> length (st_name p) < 2 ^ 16 \<and> utf8_valid (st_name p)"

lemma take_eq_subslice: "n \<le> length buf \<Longrightarrow> subslice 0 n buf @ drop n buf = buf"
  by (simp add: subslice_zero)

lemma subslice_drop: "subslice a (length buf) buf = drop a buf"
  by (simp add: subslice_def)

interpretation data_codec: strict_codec DataPayload_encode DataPayload_decode data_fits
proof unfold_locales
  fix x assume "data_fits x"
  then show "DataPayload_decode (DataPayload_encode x) = Inr x"
    by (cases x) (simp add: data_fits_def DataPayload_decode_def DataPayload_encode_def codec_simps)
next
  fix buf x assume dec: "DataPayload_decode buf = Inr x"
  then have len: "length buf = 12 + unat (of_le (subslice 8 12 buf) :: u32)"
    and x: "x = \<lparr>dp_needle_id = of_le (subslice 0 8 buf), dp_data = drop 12 buf\<rparr>"
    by (auto simp: DataPayload_decode_def Let_def split: if_splits)
  then have "12 \<le> length buf" and "of_nat (length (dp_data x)) = (of_le (subslice 8 12 buf) :: u32)"
    by simp_all
  then show "data_fits x \<and> DataPayload_encode x = buf"
    using len x unat_u32_bound [of "of_le (subslice 8 12 buf)"]
    by (simp add: data_fits_def DataPayload_encode_def codec_simps subslice_join
        flip: subslice_drop append_assoc)
qed


interpretation migrate_codec: strict_codec GcMigratePayload_encode GcMigratePayload_decode migrate_fits
proof unfold_locales
  fix x assume "migrate_fits x"
  then show "GcMigratePayload_decode (GcMigratePayload_encode x) = Inr x"
    by (cases x) (simp add: migrate_fits_def GcMigratePayload_decode_def
        GcMigratePayload_encode_def codec_simps)
next
  fix buf x assume dec: "GcMigratePayload_decode buf = Inr x"
  then have len: "length buf = 20 + unat (of_le (subslice 16 20 buf) :: u32)"
    and x: "x = \<lparr>gm_needle_id = of_le (subslice 0 8 buf),
                gm_expect_version = of_le (subslice 8 16 buf), gm_data = drop 20 buf\<rparr>"
    by (auto simp: GcMigratePayload_decode_def Let_def split: if_splits)
  then have "20 \<le> length buf" and "of_nat (length (gm_data x)) = (of_le (subslice 16 20 buf) :: u32)"
    by simp_all
  then show "migrate_fits x \<and> GcMigratePayload_encode x = buf"
    using len x unat_u32_bound [of "of_le (subslice 16 20 buf)"]
    by (simp add: migrate_fits_def GcMigratePayload_encode_def codec_simps subslice_join
        flip: subslice_drop append_assoc)
qed

interpretation delete_codec: strict_codec DeletePayload_encode DeletePayload_decode "\<lambda>_. True"
proof unfold_locales
  fix x :: DeletePayload
  show "DeletePayload_decode (DeletePayload_encode x) = Inr x"
    by (cases x) (simp add: DeletePayload_decode_def DeletePayload_encode_def codec_simps)
next
  fix buf x assume dec: "DeletePayload_decode buf = Inr x"
  then have "length buf = 24"
    and "x = \<lparr>del_needle_id = of_le (subslice 0 8 buf), del_deleted_at = of_le (subslice 8 16 buf),
              del_retention_until = of_le (subslice 16 24 buf)\<rparr>"
    by (auto simp: DeletePayload_decode_def split: if_splits)
  then show "True \<and> DeletePayload_encode x = buf"
    by (simp add: DeletePayload_encode_def codec_simps subslice_join flip: append_assoc)
qed

interpretation attr_codec: strict_codec AttrPayload_encode AttrPayload_decode "\<lambda>_. True"
proof unfold_locales
  fix x :: AttrPayload
  show "AttrPayload_decode (AttrPayload_encode x) = Inr x"
    by (cases x) (simp add: AttrPayload_decode_def AttrPayload_encode_def codec_simps)
next
  fix buf x assume dec: "AttrPayload_decode buf = Inr x"
  then have "12 \<le> length buf"
    and "x = \<lparr>at_needle_id = of_le (subslice 0 8 buf), at_attr_mask = of_le (subslice 8 12 buf),
              at_values = drop 12 buf\<rparr>"
    by (auto simp: AttrPayload_decode_def split: if_splits)
  then show "True \<and> AttrPayload_encode x = buf"
    by (simp add: AttrPayload_encode_def codec_simps subslice_join flip: subslice_drop append_assoc)
qed

interpretation snap_drop_codec: strict_codec SnapDropPayload_encode SnapDropPayload_decode "\<lambda>_. True"
proof unfold_locales
  fix x :: SnapDropPayload
  show "SnapDropPayload_decode (SnapDropPayload_encode x) = Inr x"
    by (cases x) (simp add: SnapDropPayload_decode_def SnapDropPayload_encode_def codec_simps)
next
  fix buf x assume dec: "SnapDropPayload_decode buf = Inr x"
  then have "length buf = 8" and "x = \<lparr>sd_snapshot_id = of_le (subslice 0 8 buf)\<rparr>"
    by (auto simp: SnapDropPayload_decode_def split: if_splits)
  then show "True \<and> SnapDropPayload_encode x = buf"
    by (simp add: SnapDropPayload_encode_def codec_simps)
qed

interpretation anchor_codec: strict_codec CkptAnchorPayload_encode CkptAnchorPayload_decode "\<lambda>_. True"
proof unfold_locales
  fix x :: CkptAnchorPayload
  show "CkptAnchorPayload_decode (CkptAnchorPayload_encode x) = Inr x"
    by (cases x) (simp add: CkptAnchorPayload_decode_def CkptAnchorPayload_encode_def codec_simps)
next
  fix buf x assume dec: "CkptAnchorPayload_decode buf = Inr x"
  then have "length buf = 16"
    and "x = \<lparr>ca_ckpt_seq = of_le (subslice 0 8 buf), ca_applied_lsn = of_le (subslice 8 16 buf)\<rparr>"
    by (auto simp: CkptAnchorPayload_decode_def split: if_splits)
  then show "True \<and> CkptAnchorPayload_encode x = buf"
    by (simp add: CkptAnchorPayload_encode_def codec_simps subslice_join flip: append_assoc)
qed

interpretation volume_meta_codec: strict_codec VolumeMetaPayload_encode VolumeMetaPayload_decode "\<lambda>_. True"
proof unfold_locales
  fix x :: VolumeMetaPayload
  show "VolumeMetaPayload_decode (VolumeMetaPayload_encode x) = Inr x"
    by (cases x) (simp add: VolumeMetaPayload_decode_def VolumeMetaPayload_encode_def codec_simps)
next
  fix buf x assume dec: "VolumeMetaPayload_decode buf = Inr x"
  then have "4 \<le> length buf"
    and "x = \<lparr>vm_field_mask = of_le (subslice 0 4 buf), vm_values = drop 4 buf\<rparr>"
    by (auto simp: VolumeMetaPayload_decode_def split: if_splits)
  then show "True \<and> VolumeMetaPayload_encode x = buf"
    by (simp add: VolumeMetaPayload_encode_def codec_simps subslice_join flip: subslice_drop)
qed

interpretation snap_take_codec: payload_codec SnapTakePayload_encode SnapTakePayload_decode snap_fits
proof unfold_locales
  fix x assume "snap_fits x"
  then show "SnapTakePayload_decode (SnapTakePayload_encode x) = Inr x"
    by (cases x) (simp add: snap_fits_def SnapTakePayload_decode_def SnapTakePayload_encode_def
        codec_simps Let_def)
qed

lemma take_volume_size_volume_size [simp]:
  "VolumeMetaPayload_decode (VolumeMetaPayload_volume_size n) =
     Inr \<lparr>vm_field_mask = VOLUME_META_FIELD_VOLUME_SIZE, vm_values = u64_le n\<rparr>"
  "take_volume_size \<lparr>vm_field_mask = VOLUME_META_FIELD_VOLUME_SIZE, vm_values = u64_le n\<rparr> = Some n"
  unfolding VolumeMetaPayload_volume_size_def
  by (simp_all add: volume_meta_codec.dec_enc take_volume_size_def codec_simps)

section \<open>Properties\<close>

text \<open>C14: Scanning a frame that was written with the expected chain value, whatever follows it,
  returns its header and payload and consumes exactly the frame; and whatever the scanner accepts
  is the prefix of the buffer that the encoder would write for the header and payload it reports.\<close>

theorem scan_one_iff_encoded:
  "scan_one c buf p = Frame h pl n \<longleftrightarrow>
     length pl < 2 ^ 32 \<and> n = FRAME_HEADER_SIZE + length pl \<and>
     h = frame_header_of c p (fh_rtype h) (fh_flags h) (fh_lsn h) pl \<and>
     (\<exists>rest. buf = fst (encode_frame c p (fh_rtype h) (fh_flags h) (fh_lsn h) pl) @ rest)"
  (is "?L \<longleftrightarrow> ?R")
proof
  assume ?L
  then show ?R using scan_one_Frame [of c buf p h pl n] by blast
next
  assume ?R
  then obtain rest where "buf = fst (encode_frame c p (fh_rtype h) (fh_flags h) (fh_lsn h) pl) @ rest"
    by blast
  with \<open>?R\<close> show ?L
    using scan_one_encode [of pl c p "fh_rtype h" "fh_flags h" "fh_lsn h" rest] by simp
qed

text \<open>C25: Every record the log stores survives its codec: a payload written by the encoder of its
  record type is read back unchanged by the decoder, for all eight payload layouts, whenever its
  data fits the 32-bit length field (its name the 16-bit one); and the seven strict decoders accept
  nothing but such encodings.\<close>

theorem payload_codecs_roundtrip:
  "(length (dp_data d) < 2 ^ 32 \<longrightarrow> DataPayload_decode (DataPayload_encode d) = Inr d) \<and>
   (length (gm_data g) < 2 ^ 32 \<longrightarrow> GcMigratePayload_decode (GcMigratePayload_encode g) = Inr g) \<and>
   (length (st_name s) < 2 ^ 16 \<and> utf8_valid (st_name s) \<longrightarrow>
      SnapTakePayload_decode (SnapTakePayload_encode s) = Inr s) \<and>
   (DataPayload_decode buf = Inr d \<longrightarrow> buf = DataPayload_encode d) \<and>
   (GcMigratePayload_decode buf = Inr g \<longrightarrow> buf = GcMigratePayload_encode g) \<and>
   (DeletePayload_decode buf = Inr x \<longleftrightarrow> buf = DeletePayload_encode x) \<and>
   (AttrPayload_decode buf = Inr a \<longleftrightarrow> buf = AttrPayload_encode a) \<and>
   (SnapDropPayload_decode buf = Inr r \<longleftrightarrow> buf = SnapDropPayload_encode r) \<and>
   (CkptAnchorPayload_decode buf = Inr k \<longleftrightarrow> buf = CkptAnchorPayload_encode k) \<and>
   (VolumeMetaPayload_decode buf = Inr v \<longleftrightarrow> buf = VolumeMetaPayload_encode v)"
  using data_codec.dec_enc [of d] migrate_codec.dec_enc [of g] snap_take_codec.dec_enc [of s]
    data_codec.dec_iff migrate_codec.dec_iff delete_codec.dec_iff attr_codec.dec_iff
    snap_drop_codec.dec_iff anchor_codec.dec_iff volume_meta_codec.dec_iff
  by (auto simp: data_fits_def migrate_fits_def snap_fits_def)

theorem payload_codecs_roundtrip_witness:
  "DataPayload_decode (DataPayload_encode \<lparr>dp_needle_id = 7, dp_data = [1, 2]\<rparr>) =
     Inr \<lparr>dp_needle_id = 7, dp_data = [1, 2]\<rparr> \<and>
   GcMigratePayload_decode (GcMigratePayload_encode \<lparr>gm_needle_id = 7, gm_expect_version = 3, gm_data = [9]\<rparr>) =
     Inr \<lparr>gm_needle_id = 7, gm_expect_version = 3, gm_data = [9]\<rparr> \<and>
   SnapTakePayload_decode (SnapTakePayload_encode
       \<lparr>st_snapshot_id = 1, st_group_id = 3, st_name = [0x61, 0x62], st_ts = 5\<rparr>) =
     Inr \<lparr>st_snapshot_id = 1, st_group_id = 3, st_name = [0x61, 0x62], st_ts = 5\<rparr>"
  using payload_codecs_roundtrip [of "\<lparr>dp_needle_id = 7, dp_data = [1, 2]\<rparr>"
      "\<lparr>gm_needle_id = 7, gm_expect_version = 3, gm_data = [9]\<rparr>"
      "\<lparr>st_snapshot_id = 1, st_group_id = 3, st_name = [0x61, 0x62], st_ts = 5\<rparr>"]
  by (simp add: utf8_valid_ascii)

end
