(* ===== verification/Wal_Segment.thy ===== *)
theory Wal_Segment
  imports Wal_Frame
begin

text \<open>
  Segment files of the write-ahead log (\<^verbatim>\<open>powerfs-core/src/wal/segment.rs\<close>): the 68-byte segment
  header, the file names and the streaming reader \<^verbatim>\<open>SegReader\<close> with its refill buffer (the
  appender is in \<^verbatim>\<open>Wal_Writer\<close>). A file is its list of bytes. File positions (\<^verbatim>\<open>u64\<close> in the source) are
  natural numbers, bounded by the length of the file; \<open>remaining\<close> writes out the wrap-around of its
  subtraction. Failures of the operating system's file calls are not modelled.
\<close>

section \<open>Segment headers\<close>

abbreviation SEG_HEADER_FIELD_SIZE :: nat where "SEG_HEADER_FIELD_SIZE \<equiv> 64"
abbreviation SEG_HEADER_SIZE :: nat where "SEG_HEADER_SIZE \<equiv> 68"
abbreviation SEG_FLAG_SEALED :: u32 where "SEG_FLAG_SEALED \<equiv> 0x01"
abbreviation READ_CHUNK :: nat where "READ_CHUNK \<equiv> 262144"

definition SEG_MAGIC :: bytes where
  "SEG_MAGIC = [0x50, 0x46, 0x57, 0x4C, 0x53, 0x45, 0x47, 0x00]"

datatype ScanError =
    TornTail nat nat nat
  | ScanCorrupt FrameError

datatype SegmentError =
    BadMagic u64
  | HeaderCrcMismatch u32 u32
  | FormatVersion u16
  | SegmentFull nat nat
  | HeaderTooSmall nat
  | Scan ScanError
  | BadFileName
  | Sealed
  | UnexpectedEof
  | AlreadyExists
  | NotFound

record SegmentHeader =
  sh_seg_id :: u64
  sh_volume_id :: u64
  sh_base_lsn :: u64
  sh_created_ts :: i64
  sh_flags :: u32

definition is_sealed :: "SegmentHeader \<Rightarrow> bool" where
  "is_sealed h \<longleftrightarrow> sh_flags h AND SEG_FLAG_SEALED \<noteq> 0"

definition SegmentHeader_encode :: "(bytes \<Rightarrow> u32) \<Rightarrow> SegmentHeader \<Rightarrow> bytes" where
  "SegmentHeader_encode crc32c h =
     (let fields = SEG_MAGIC @ u16_le 1 @ u16_le (of_nat SEG_HEADER_FIELD_SIZE) @
                   u64_le (sh_seg_id h) @ u64_le (sh_volume_id h) @ u64_le (sh_base_lsn h) @
                   u64_le (sh_created_ts h) @ u32_le (sh_flags h) @ replicate 16 0
      in fields @ u32_le (crc32c fields))"

definition SegmentHeader_decode :: "(bytes \<Rightarrow> u32) \<Rightarrow> bytes \<Rightarrow> SegmentError + SegmentHeader" where
  "SegmentHeader_decode crc32c buf =
     (if length buf < SEG_HEADER_SIZE then Inl (HeaderTooSmall (length buf))
      else if subslice 0 8 buf \<noteq> SEG_MAGIC then Inl (BadMagic (of_le (subslice 0 8 buf)))
      else
        (let ver = of_le (subslice 8 10 buf) :: u16 in
         if ver \<noteq> 1 then Inl (FormatVersion ver)
         else
           (let stored_crc = of_le (subslice SEG_HEADER_FIELD_SIZE SEG_HEADER_SIZE buf);
                got_crc = crc32c (subslice 0 SEG_HEADER_FIELD_SIZE buf)
            in if stored_crc \<noteq> got_crc then Inl (HeaderCrcMismatch stored_crc got_crc)
               else Inr \<lparr>sh_seg_id = of_le (subslice 12 20 buf),
                         sh_volume_id = of_le (subslice 20 28 buf),
                         sh_base_lsn = of_le (subslice 28 36 buf),
                         sh_created_ts = of_le (subslice 36 44 buf),
                         sh_flags = of_le (subslice 44 48 buf)\<rparr>)))"

text \<open>The seed of a segment's hash chain covers the immutable prefix of the header only.\<close>

definition chain_seed :: "(bytes \<Rightarrow> u32) \<Rightarrow> SegmentHeader \<Rightarrow> u64" where
  "chain_seed crc32c h = ucast (crc32c (subslice 0 44 (SegmentHeader_encode crc32c h)))"

lemma length_SegmentHeader_encode [simp]:
  "length (SegmentHeader_encode c h) = SEG_HEADER_SIZE"
  by (simp add: SegmentHeader_encode_def SEG_MAGIC_def Let_def)

lemma length_SEG_MAGIC [simp]: "length SEG_MAGIC = 8"
  by (simp add: SEG_MAGIC_def)

lemma SegmentHeader_decode_encode [codec_simps]:
  "SegmentHeader_decode c (SegmentHeader_encode c h @ rest) = Inr h"
proof -
  define fields where "fields = SEG_MAGIC @ u16_le 1 @ u16_le 64 @
    u64_le (sh_seg_id h) @ u64_le (sh_volume_id h) @ u64_le (sh_base_lsn h) @
    u64_le (sh_created_ts h) @ u32_le (sh_flags h) @ replicate 16 0"
  have len: "length fields = 64" by (simp add: fields_def)
  have enc: "SegmentHeader_encode c h = fields @ u32_le (c fields)"
    by (simp add: SegmentHeader_encode_def fields_def Let_def)
  have parts: "subslice 0 8 fields = SEG_MAGIC" "subslice 8 10 fields = u16_le 1"
    "subslice 12 20 fields = u64_le (sh_seg_id h)" "subslice 20 28 fields = u64_le (sh_volume_id h)"
    "subslice 28 36 fields = u64_le (sh_base_lsn h)" "subslice 36 44 fields = u64_le (sh_created_ts h)"
    "subslice 44 48 fields = u32_le (sh_flags h)"
    by (simp_all add: fields_def codec_simps)
  show ?thesis
    unfolding enc SegmentHeader_decode_def Let_def
    by (cases h) (simp add: len parts codec_simps)
qed

lemma chain_seed_flags [simp]: "chain_seed c (h\<lparr>sh_flags := f\<rparr>) = chain_seed c h"
  by (simp add: chain_seed_def SegmentHeader_encode_def Let_def subslice_zero)

section \<open>File names\<close>

definition hex_char :: "nat \<Rightarrow> char" where
  "hex_char d = ''0123456789abcdef'' ! d"

definition hex_value :: "char \<Rightarrow> nat option" where
  "hex_value ch =
     (let n = of_char ch :: nat in
      if 48 \<le> n \<and> n \<le> 57 then Some (n - 48)
      else if 97 \<le> n \<and> n \<le> 102 then Some (n - 87)
      else if 65 \<le> n \<and> n \<le> 70 then Some (n - 55)
      else None)"

definition hex16 :: "u64 \<Rightarrow> string" where
  "hex16 w = map (\<lambda>i. hex_char (unat w div 16 ^ i mod 16)) (rev [0..<16])"

definition seg_file_name :: "u64 \<Rightarrow> string" where
  "seg_file_name seg_id = ''seg_'' @ hex16 seg_id @ ''.log''"

definition strip_prefix :: "string \<Rightarrow> string \<Rightarrow> string option" where
  "strip_prefix p s = (if take (length p) s = p then Some (drop (length p) s) else None)"

definition strip_suffix :: "string \<Rightarrow> string \<Rightarrow> string option" where
  "strip_suffix q s =
     (if length q \<le> length s \<and> drop (length s - length q) s = q
      then Some (take (length s - length q) s) else None)"

definition from_str_radix16 :: "string \<Rightarrow> u64" where
  "from_str_radix16 s = of_nat (foldl (\<lambda>a ch. a * 16 + the (hex_value ch)) 0 s)"

definition parse_seg_id :: "string \<Rightarrow> u64 option" where
  "parse_seg_id file_name =
     (case strip_prefix ''seg_'' file_name of None \<Rightarrow> None | Some rest \<Rightarrow>
       (case strip_suffix ''.log'' rest of None \<Rightarrow> None | Some rest' \<Rightarrow>
          if length rest' \<noteq> 16 \<or> \<not> (\<forall>ch\<in>set rest'. hex_value ch \<noteq> None) then None
          else Some (from_str_radix16 rest')))"

lemma hex_value_hex_char: "d < 16 \<Longrightarrow> hex_value (hex_char d) = Some d"
proof -
  assume "d < 16"
  then have "d \<in> set [0..<16]" by simp
  moreover have "\<forall>d\<in>set [0..<16]. hex_value (hex_char d) = Some d"
    by code_simp
  ultimately show ?thesis by blast
qed

lemma hex_fold:
  "foldl (\<lambda>a d. a * 16 + d) acc (map (\<lambda>i. x div 16 ^ i mod 16) (rev [0..<n])) =
     acc * 16 ^ n + x mod (16 ^ n :: nat)"
proof (induction n arbitrary: acc)
  case 0
  then show ?case by simp
next
  case (Suc n)
  have "x mod 16 ^ Suc n = 16 ^ n * (x div 16 ^ n mod 16) + x mod 16 ^ n"
    using mod_mult2_eq [of x "16 ^ n" 16] by (simp add: mult.commute)
  with Suc show ?case by (simp add: algebra_simps)
qed

lemma foldl_hex16: "foldl (\<lambda>a ch. a * 16 + the (hex_value ch)) 0 (hex16 w) = unat w"
proof -
  have "foldl (\<lambda>a ch. a * 16 + the (hex_value ch)) 0 (hex16 w) =
      foldl (\<lambda>a d. a * 16 + d) 0 (map (\<lambda>i. unat w div 16 ^ i mod 16) (rev [0..<16]))"
    by (simp add: hex16_def foldl_map hex_value_hex_char)
  also have "\<dots> = unat w mod 16 ^ 16"
    by (simp only: hex_fold mult_0 add_0)
  also have "\<dots> = unat w"
    using unat_u64_bound [of w] by simp
  finally show ?thesis .
qed

lemma from_str_radix16_hex16: "from_str_radix16 (hex16 w) = w"
  by (simp add: from_str_radix16_def foldl_hex16)

lemma hex16_digits: "ch \<in> set (hex16 w) \<Longrightarrow> hex_value ch \<noteq> None"
  by (auto simp: hex16_def hex_value_hex_char)

lemma length_hex16 [simp]: "length (hex16 w) = 16"
  by (simp add: hex16_def)

lemma parse_seg_id_seg_file_name [simp]: "parse_seg_id (seg_file_name w) = Some w"
  by (auto simp: parse_seg_id_def seg_file_name_def strip_prefix_def strip_suffix_def
      from_str_radix16_hex16 dest: hex16_digits)

lemma seg_file_name_inject [simp]: "seg_file_name a = seg_file_name b \<longleftrightarrow> a = b"
  by (metis parse_seg_id_seg_file_name option.inject)

section \<open>The streaming reader\<close>

record FrameMeta =
  fm_lsn :: u64
  fm_rtype :: RecordType
  fm_flags :: byte
  fm_offset :: nat
  fm_payload_len :: u32
  fm_crc :: u32

definition FrameMeta_total_size :: "FrameMeta \<Rightarrow> nat" where
  "FrameMeta_total_size m = FRAME_HEADER_SIZE + unat (fm_payload_len m)"

definition FrameMeta_is_sync_barrier :: "FrameMeta \<Rightarrow> bool" where
  "FrameMeta_is_sync_barrier m \<longleftrightarrow> fm_flags m AND FLAG_SYNC_BARRIER \<noteq> 0"

record ScannedFrame =
  sf_meta :: FrameMeta
  sf_payload :: bytes

record ScanSummary =
  ss_frame_count :: nat
  ss_valid_end :: nat
  ss_last_lsn :: "u64 option"
  ss_last_crc :: "u32 option"
  ss_torn_tail :: bool

record SegReader =
  rd_file :: bytes
  rd_header :: SegmentHeader
  rd_buf_start :: nat
  rd_buf :: bytes
  rd_prev_crc :: u64
  rd_eof :: bool
  rd_frame_count :: nat
  rd_valid_end :: nat
  rd_last_meta :: "FrameMeta option"

text \<open>\<^verbatim>\<open>read_exact\<close> fails with \<^verbatim>\<open>UnexpectedEof\<close> on a file shorter than a header.\<close>

definition SegReader_open :: "(bytes \<Rightarrow> u32) \<Rightarrow> bytes \<Rightarrow> SegmentError + SegReader" where
  "SegReader_open crc32c file =
     (if length file < SEG_HEADER_SIZE then Inl UnexpectedEof
      else
        (case SegmentHeader_decode crc32c (take SEG_HEADER_SIZE file) of
           Inl e \<Rightarrow> Inl e
         | Inr header \<Rightarrow>
             Inr \<lparr>rd_file = file, rd_header = header, rd_buf_start = SEG_HEADER_SIZE, rd_buf = [],
                  rd_prev_crc = chain_seed crc32c header, rd_eof = False, rd_frame_count = 0,
                  rd_valid_end = SEG_HEADER_SIZE, rd_last_meta = None\<rparr>))"

text \<open>A read at \<^verbatim>\<open>file_pos\<close> yields the next bytes of the file, at most one chunk, and none at the end.\<close>

definition read_up_to :: "bytes \<Rightarrow> nat \<Rightarrow> nat \<Rightarrow> bytes" where
  "read_up_to file pos n = take n (drop pos file)"

definition refill :: "SegReader \<Rightarrow> SegReader" where
  "refill r =
     (let file_pos = rd_buf_start r + length (rd_buf r);
          chunk = read_up_to (rd_file r) file_pos READ_CHUNK
      in r\<lparr>rd_buf := rd_buf r @ chunk, rd_eof := (if chunk = [] then True else rd_eof r)\<rparr>)"

definition take_frame :: "FrameHeader \<Rightarrow> nat \<Rightarrow> SegReader \<Rightarrow> SegReader \<times> FrameMeta" where
  "take_frame header consumed r =
     (let meta = \<lparr>fm_lsn = fh_lsn header, fm_rtype = fh_rtype header, fm_flags = fh_flags header,
                  fm_offset = rd_buf_start r, fm_payload_len = fh_len header,
                  fm_crc = fh_crc header\<rparr>;
          start = rd_buf_start r + consumed
      in (r\<lparr>rd_buf_start := start, rd_buf := drop consumed (rd_buf r),
            rd_prev_crc := ucast (fh_crc header), rd_frame_count := rd_frame_count r + 1,
            rd_valid_end := start, rd_last_meta := Some meta\<rparr>, meta))"

text \<open>The loop of \<^verbatim>\<open>next_frame\<close>: each turn scans the buffer or reads one more chunk.\<close>

function next_frame ::
  "(bytes \<Rightarrow> u32) \<Rightarrow> SegReader \<Rightarrow> SegReader \<times> (ScanError + ScannedFrame option)" where
  "next_frame crc32c r =
     (if rd_buf r \<noteq> [] then
        (case scan_one crc32c (rd_buf r) (rd_prev_crc r) of
           Frame header payload consumed \<Rightarrow>
             (let (r', meta) = take_frame header consumed r
              in (r', Inr (Some \<lparr>sf_meta = meta, sf_payload = payload\<rparr>)))
         | EndOfData \<Rightarrow> if rd_eof r then (r, Inr None) else next_frame crc32c (refill r)
         | Torn need got \<Rightarrow>
             if rd_eof r then (r, Inl (TornTail (rd_buf_start r) need got))
             else next_frame crc32c (refill r)
         | Corrupt e \<Rightarrow> (r, Inl (ScanCorrupt e)))
      else if rd_eof r then (r, Inr None)
      else next_frame crc32c (refill r))"
  by pat_completeness auto

definition unread :: "SegReader \<Rightarrow> nat" where
  "unread r = length (rd_file r) - (rd_buf_start r + length (rd_buf r))"

lemma refill_progress:
  "\<not> rd_eof r \<Longrightarrow> rd_eof (refill r) \<or> unread (refill r) < unread r"
  by (auto simp: refill_def unread_def read_up_to_def Let_def)

lemma refill_measure:
  "\<not> rd_eof r \<Longrightarrow>
   (if rd_eof (refill r) then 0 else Suc (unread (refill r))) <
   (if rd_eof r then 0 else Suc (unread r))"
  using refill_progress [of r] by auto

termination next_frame
  by (relation "measure (\<lambda>(c, r). if rd_eof r then 0 else Suc (unread r))")
    (use refill_measure in auto)

declare next_frame.simps [simp del]

text \<open>What is left to deliver: the buffered bytes and the unread ones.\<close>

definition rd_left :: "SegReader \<Rightarrow> nat" where
  "rd_left r = length (rd_buf r) + unread r"

lemma rd_left_refill [simp]: "rd_left (refill r) = rd_left r"
  by (auto simp: refill_def unread_def rd_left_def read_up_to_def Let_def)

lemma rd_left_take_frame:
  "scan_one c (rd_buf r) p = Frame h pl n \<Longrightarrow> rd_left (fst (take_frame h n r)) < rd_left r"
  by (drule scan_one_Frame_drop) (auto simp: rd_left_def take_frame_def unread_def Let_def)

lemma next_frame_progress:
  "next_frame c r = (r', Inr (Some f)) \<Longrightarrow> rd_left r' < rd_left r"
proof (induction c r rule: next_frame.induct)
  case (1 c r)
  from "1.prems" show ?case
    by (subst (asm) next_frame.simps)
      (auto split: if_splits ScanOne.splits prod.splits dest: "1.IH"(1, 2) "1.IH"(3) [simplified]
        dest!: rd_left_take_frame)
qed

function scan_summary ::
  "(bytes \<Rightarrow> u32) \<Rightarrow> SegReader \<Rightarrow> SegReader \<times> (ScanError + ScanSummary)" where
  "scan_summary crc32c r =
     (case next_frame crc32c r of
        (r', Inr (Some f)) \<Rightarrow> scan_summary crc32c r'
      | (r', Inr None) \<Rightarrow>
          (r', Inr \<lparr>ss_frame_count = rd_frame_count r', ss_valid_end = rd_valid_end r',
                    ss_last_lsn = map_option fm_lsn (rd_last_meta r'),
                    ss_last_crc = map_option fm_crc (rd_last_meta r'), ss_torn_tail = False\<rparr>)
      | (r', Inl (TornTail at need got)) \<Rightarrow>
          (r', Inr \<lparr>ss_frame_count = rd_frame_count r', ss_valid_end = rd_valid_end r',
                    ss_last_lsn = map_option fm_lsn (rd_last_meta r'),
                    ss_last_crc = map_option fm_crc (rd_last_meta r'), ss_torn_tail = True\<rparr>)
      | (r', Inl (ScanCorrupt e)) \<Rightarrow> (r', Inl (ScanCorrupt e)))"
  by pat_completeness auto

termination scan_summary
  by (relation "measure (\<lambda>(c, r). rd_left r)") (auto dest: next_frame_progress [OF sym])

declare scan_summary.simps [simp del]

text \<open>Reference: scanning the bytes that follow the header in one go.\<close>

definition scanned :: "FrameHeader \<Rightarrow> bytes \<Rightarrow> nat \<Rightarrow> ScannedFrame" where
  "scanned h pl pos =
     \<lparr>sf_meta = \<lparr>fm_lsn = fh_lsn h, fm_rtype = fh_rtype h, fm_flags = fh_flags h, fm_offset = pos,
                  fm_payload_len = fh_len h, fm_crc = fh_crc h\<rparr>, sf_payload = pl\<rparr>"

function scan_all ::
  "(bytes \<Rightarrow> u32) \<Rightarrow> bytes \<Rightarrow> nat \<Rightarrow> u64 \<Rightarrow> ScannedFrame list \<times> ScanError option" where
  "scan_all crc32c buf pos prev_crc =
     (case scan_one crc32c buf prev_crc of
        Frame h pl n \<Rightarrow>
          (let (fs, e) = scan_all crc32c (drop n buf) (pos + n) (ucast (fh_crc h))
           in (scanned h pl pos # fs, e))
      | EndOfData \<Rightarrow> ([], None)
      | Torn need got \<Rightarrow> ([], Some (TornTail pos need got))
      | Corrupt e \<Rightarrow> ([], Some (ScanCorrupt e)))"
  by pat_completeness auto

termination scan_all
  by (relation "measure (\<lambda>(c, buf, pos, p). length buf)")
    (auto dest!: scan_one_Frame_drop [OF sym] scan_one_Frame_drop)

declare scan_all.simps [simp del]

definition frames_end :: "nat \<Rightarrow> ScannedFrame list \<Rightarrow> nat" where
  "frames_end pos fs = pos + (\<Sum>f\<leftarrow>fs. FrameMeta_total_size (sf_meta f))"

definition summary_of :: "SegReader \<Rightarrow> ScannedFrame list \<Rightarrow> ScanError option \<Rightarrow> ScanSummary" where
  "summary_of r fs e =
     (let m = (if fs = [] then rd_last_meta r else Some (sf_meta (last fs)))
      in \<lparr>ss_frame_count = rd_frame_count r + length fs,
          ss_valid_end = frames_end (rd_buf_start r) fs,
          ss_last_lsn = map_option fm_lsn m, ss_last_crc = map_option fm_crc m,
          ss_torn_tail = (e \<noteq> None)\<rparr>)"

text \<open>The reader's invariant: its buffer is a window of the file, and end-of-file is only recorded
  once the window reaches the end.\<close>

definition reader_inv :: "SegReader \<Rightarrow> bool" where
  "reader_inv r \<longleftrightarrow>
     rd_buf_start r + length (rd_buf r) \<le> length (rd_file r) \<and>
     rd_buf r = take (length (rd_buf r)) (drop (rd_buf_start r) (rd_file r)) \<and>
     (rd_eof r \<longrightarrow> rd_buf_start r + length (rd_buf r) = length (rd_file r)) \<and>
     rd_valid_end r = rd_buf_start r"

definition pending :: "SegReader \<Rightarrow> bytes" where
  "pending r = drop (rd_buf_start r) (rd_file r)"

definition rebuffered :: "SegReader \<Rightarrow> SegReader \<Rightarrow> bool" where
  "rebuffered r r0 \<longleftrightarrow> reader_inv r0 \<and> (\<exists>b e. r0 = r\<lparr>rd_buf := b, rd_eof := e\<rparr>)"

lemma decode_header_append:
  "FRAME_HEADER_SIZE \<le> length buf \<Longrightarrow> decode_header (buf @ rest) off = decode_header buf off"
  by (simp add: decode_header_def Let_def subslice_append_left nth_append)

lemma scan_one_append_Frame:
  assumes "scan_one c buf p = Frame h pl n"
  shows "scan_one c (buf @ rest) p = Frame h pl n"
proof -
  note F = scan_one_Frame [OF assms]
  have "buf @ rest = fst (encode_frame c p (fh_rtype h) (fh_flags h) (fh_lsn h) pl) @ (drop n buf @ rest)"
    using F(3) by (metis append.assoc)
  then show ?thesis
    using scan_one_encode [OF F(2), of c p "fh_rtype h" "fh_flags h" "fh_lsn h" "drop n buf @ rest"]
      F(1,4) by metis
qed

lemma scan_one_append_Corrupt:
  assumes "scan_one c buf p = Corrupt e"
  shows "scan_one c (buf @ rest) p = Corrupt e"
proof -
  from assms have len: "FRAME_HEADER_SIZE \<le> length buf"
    by (auto simp: scan_one_def split: if_splits)
  with assms show ?thesis
    by (auto simp: scan_one_def decode_header_append subslice_append_left Let_def
        split: if_splits sum.splits FrameError.splits)
qed

lemma reader_inv_pending:
  "reader_inv r \<Longrightarrow> pending r = rd_buf r @ drop (rd_buf_start r + length (rd_buf r)) (rd_file r)"
  unfolding reader_inv_def pending_def
  by (metis append_take_drop_id drop_drop add.commute)

lemma reader_inv_eof: "reader_inv r \<Longrightarrow> rd_eof r \<Longrightarrow> pending r = rd_buf r"
  by (frule reader_inv_pending) (simp add: reader_inv_def)

lemma reader_inv_refill: "reader_inv r \<Longrightarrow> reader_inv (refill r)"
proof -
  assume inv: "reader_inv r"
  define b n where "b = rd_buf r" and "n = rd_buf_start r"
  define chunk where "chunk = take READ_CHUNK (drop (n + length b) (rd_file r))"
  have len: "length chunk \<le> length (rd_file r) - (n + length b)"
    by (simp add: chunk_def)
  have "b = take (length b) (drop n (rd_file r))"
    using inv by (simp add: reader_inv_def b_def n_def)
  moreover have "chunk = take (length chunk) (drop (length b) (drop n (rd_file r)))"
    by (auto simp: chunk_def add.commute min_def)
  ultimately have "b @ chunk = take (length b + length chunk) (drop n (rd_file r))"
    using take_add [of "length b" "length chunk" "drop n (rd_file r)"] by metis
  moreover have "n + length b = length (rd_file r)" if "chunk = []"
    using that inv by (simp add: chunk_def reader_inv_def b_def n_def)
  moreover have "chunk = []" if "rd_eof r"
    using that inv by (simp add: chunk_def reader_inv_def b_def n_def)
  moreover have "refill r = r\<lparr>rd_buf := b @ chunk, rd_eof := (if chunk = [] then True else rd_eof r)\<rparr>"
    by (simp add: refill_def read_up_to_def Let_def b_def n_def chunk_def)
  ultimately show ?thesis
    using inv len by (auto simp: reader_inv_def b_def n_def)
qed

lemma rebuffered_refl: "reader_inv r \<Longrightarrow> rebuffered r r"
  unfolding rebuffered_def by (cases r) auto

lemma rebuffered_refill:
  "reader_inv r \<Longrightarrow> rebuffered (refill r) r0 \<Longrightarrow> rebuffered r r0"
  unfolding rebuffered_def refill_def Let_def by auto

lemma rebuffered_sel:
  "rebuffered r r0 \<Longrightarrow> rd_file r0 = rd_file r \<and> rd_header r0 = rd_header r \<and>
     rd_buf_start r0 = rd_buf_start r \<and> rd_prev_crc r0 = rd_prev_crc r \<and>
     rd_frame_count r0 = rd_frame_count r \<and> rd_valid_end r0 = rd_valid_end r \<and>
     rd_last_meta r0 = rd_last_meta r \<and> pending r0 = pending r"
  unfolding rebuffered_def pending_def by auto

lemma refill_sel [simp]:
  "rd_file (refill r) = rd_file r" "rd_buf_start (refill r) = rd_buf_start r"
  "rd_prev_crc (refill r) = rd_prev_crc r" "pending (refill r) = pending r"
  by (simp_all add: refill_def pending_def Let_def)

lemma next_frame_unfold:
  "rd_buf r \<noteq> [] \<Longrightarrow> scan_one c (rd_buf r) (rd_prev_crc r) = Frame h pl n \<Longrightarrow>
     next_frame c r = (fst (take_frame h n r), Inr (Some \<lparr>sf_meta = snd (take_frame h n r), sf_payload = pl\<rparr>))"
  by (subst next_frame.simps) (simp split: prod.split)

lemma take_frame_meta:
  "\<lparr>sf_meta = snd (take_frame h n r), sf_payload = pl\<rparr> = scanned h pl (rd_buf_start r)"
  by (simp add: take_frame_def scanned_def Let_def)

lemma reader_inv_take_frame:
  assumes "reader_inv r" and "n \<le> length (rd_buf r)"
  shows "reader_inv (fst (take_frame h n r))"
    and "pending (fst (take_frame h n r)) = drop n (pending r)"
proof -
  let ?b = "rd_buf r" and ?s = "rd_buf_start r"
  have "drop n ?b = drop n (take (length ?b) (drop ?s (rd_file r)))"
    using assms by (simp add: reader_inv_def)
  also have "\<dots> = take (length ?b - n) (drop (?s + n) (rd_file r))"
    by (simp add: drop_take add.commute)
  finally show "reader_inv (fst (take_frame h n r))"
    using assms by (auto simp: reader_inv_def take_frame_def Let_def min_def)
qed (simp add: pending_def take_frame_def Let_def add.commute)

text \<open>What one call of \<^const>\<open>next_frame\<close> returns is what scanning everything that is left returns:
  the chunk boundaries are invisible.\<close>

definition next_frame_ok ::
  "SegReader \<Rightarrow> SegReader \<times> (ScanError + ScannedFrame option) \<Rightarrow> ScanOne \<Rightarrow> bool" where
  "next_frame_ok r res sc =
     (case sc of
        Frame h pl n \<Rightarrow>
          (\<exists>r0. rebuffered r r0 \<and> n \<le> length (rd_buf r0) \<and>
             res = (fst (take_frame h n r0), Inr (Some (scanned h pl (rd_buf_start r)))))
      | EndOfData \<Rightarrow> (\<exists>r0. rebuffered r r0 \<and> res = (r0, Inr None))
      | Torn need got \<Rightarrow>
          (\<exists>r0. rebuffered r r0 \<and> res = (r0, Inl (TornTail (rd_buf_start r) need got)))
      | Corrupt e \<Rightarrow> (\<exists>r0. rebuffered r r0 \<and> res = (r0, Inl (ScanCorrupt e))))"

lemma next_frame_ok_refill:
  "reader_inv r \<Longrightarrow> next_frame_ok (refill r) res sc \<Longrightarrow> next_frame_ok r res sc"
  by (auto simp: next_frame_ok_def split: ScanOne.splits dest: rebuffered_refill)

lemma next_frame_pending:
  "reader_inv r \<Longrightarrow> next_frame_ok r (next_frame c r) (scan_one c (pending r) (rd_prev_crc r))"
proof (induction c r rule: next_frame.induct)
  case (1 c r)
  let ?sc = "scan_one c (rd_buf r) (rd_prev_crc r)"
  note inv = "1.prems"
  note pend = reader_inv_pending [OF inv]
  note self = rebuffered_refl [OF inv]
  have again: "next_frame_ok r (next_frame c r) (scan_one c (pending r) (rd_prev_crc r))"
    if "next_frame c r = next_frame c (refill r)"
      "next_frame_ok (refill r) (next_frame c (refill r)) (scan_one c (pending r) (rd_prev_crc r))"
    using next_frame_ok_refill [OF inv] that by simp
  show ?case
  proof (cases "rd_buf r = []")
    case True
    show ?thesis
    proof (cases "rd_eof r")
      case eof: True
      have "pending r = []" using reader_inv_eof [OF inv eof] True by simp
      then have "scan_one c (pending r) (rd_prev_crc r) = EndOfData" by (simp add: scan_one_def)
      moreover have "next_frame c r = (r, Inr None)"
        using True eof by (subst next_frame.simps) simp
      ultimately show ?thesis using self by (auto simp: next_frame_ok_def)
    next
      case False
      show ?thesis
        by (rule again) (use True False "1.IH"(3) inv in \<open>auto simp: next_frame.simps [of c r] reader_inv_refill\<close>)
    qed
  next
    case buf: False
    show ?thesis
    proof (cases ?sc)
      case (Frame h pl n)
      have "scan_one c (pending r) (rd_prev_crc r) = Frame h pl n"
        using scan_one_append_Frame [OF Frame] pend by simp
      then show ?thesis
        using next_frame_unfold [OF buf Frame] scan_one_Frame_drop [OF Frame] self
        by (auto simp: next_frame_ok_def take_frame_meta)
    next
      case (Corrupt e)
      then show ?thesis
        using scan_one_append_Corrupt [OF Corrupt] pend buf self
        by (auto simp: next_frame_ok_def next_frame.simps [of c r])
    next
      case EndOfData
      show ?thesis
      proof (cases "rd_eof r")
        case True
        then show ?thesis using EndOfData buf self reader_inv_eof [OF inv True]
          by (auto simp: next_frame_ok_def next_frame.simps [of c r])
      next
        case False
        then show ?thesis
          by (intro again) (use EndOfData buf "1.IH"(1) inv in \<open>auto simp: next_frame.simps [of c r] reader_inv_refill\<close>)
      qed
    next
      case (Torn need got)
      show ?thesis
      proof (cases "rd_eof r")
        case True
        then show ?thesis using Torn buf self reader_inv_eof [OF inv True]
          by (auto simp: next_frame_ok_def next_frame.simps [of c r])
      next
        case False
        then show ?thesis
          by (intro again) (use Torn buf "1.IH"(2) inv in \<open>auto simp: next_frame.simps [of c r] reader_inv_refill\<close>)
      qed
    qed
  qed
qed

lemma take_frame_sel [simp]:
  "rd_buf_start (fst (take_frame h n r)) = rd_buf_start r + n"
  "rd_prev_crc (fst (take_frame h n r)) = ucast (fh_crc h)"
  "rd_frame_count (fst (take_frame h n r)) = rd_frame_count r + 1"
  "rd_header (fst (take_frame h n r)) = rd_header r"
  "rd_file (fst (take_frame h n r)) = rd_file r"
  by (simp_all add: take_frame_def Let_def)

lemma take_frame_last_meta:
  "rd_last_meta (fst (take_frame h n r)) = Some (sf_meta (scanned h pl (rd_buf_start r)))"
  by (simp add: take_frame_def scanned_def Let_def)

text \<open>One step of a loop over \<^const>\<open>next_frame\<close>, as its clients use it.\<close>

lemma next_frame_cases:
  assumes "reader_inv r"
  obtains (frame) h pl n r' where
      "scan_one c (pending r) (rd_prev_crc r) = Frame h pl n"
      "next_frame c r = (r', Inr (Some (scanned h pl (rd_buf_start r))))"
      "reader_inv r'" "pending r' = drop n (pending r)" "rd_buf_start r' = rd_buf_start r + n"
      "rd_prev_crc r' = ucast (fh_crc h)" "rd_frame_count r' = rd_frame_count r + 1"
      "rd_last_meta r' = Some (sf_meta (scanned h pl (rd_buf_start r)))"
  | (stop) sc r0 where
      "scan_one c (pending r) (rd_prev_crc r) = sc" "\<And>h pl n. sc \<noteq> Frame h pl n"
      "rebuffered r r0"
      "next_frame c r = (r0, case sc of Torn need got \<Rightarrow> Inl (TornTail (rd_buf_start r) need got)
                                      | Corrupt e \<Rightarrow> Inl (ScanCorrupt e) | _ \<Rightarrow> Inr None)"
proof (cases "scan_one c (pending r) (rd_prev_crc r)")
  case (Frame h pl n)
  from next_frame_pending [OF assms, of c] obtain r0 where r0: "rebuffered r r0"
    "n \<le> length (rd_buf r0)"
    "next_frame c r = (fst (take_frame h n r0), Inr (Some (scanned h pl (rd_buf_start r))))"
    by (auto simp: next_frame_ok_def Frame)
  have "reader_inv r0" using r0(1) by (simp add: rebuffered_def)
  note inv = reader_inv_take_frame [OF this r0(2)] and sel = rebuffered_sel [OF r0(1)]
  show thesis
    by (rule frame [OF Frame, of "fst (take_frame h n r0)"]) (simp_all add: inv sel r0(3) take_frame_last_meta [of h n r0 pl])
next
  case EndOfData
  with next_frame_pending [OF assms, of c] show thesis
    by (auto simp: next_frame_ok_def intro!: stop [of EndOfData])
next
  case (Torn need got)
  with next_frame_pending [OF assms, of c] show thesis
    by (auto simp: next_frame_ok_def intro!: stop [of "Torn need got"])
next
  case (Corrupt e)
  with next_frame_pending [OF assms, of c] show thesis
    by (auto simp: next_frame_ok_def intro!: stop [of "Corrupt e"])
qed

lemma scanned_total_size:
  "scan_one c buf p = Frame h pl n \<Longrightarrow> FrameMeta_total_size (sf_meta (scanned h pl pos)) = n"
proof -
  assume sc: "scan_one c buf p = Frame h pl n"
  have "fh_len h = of_nat (length pl)"
    by (subst scan_one_Frame(4) [OF sc]) simp
  then have "unat (fh_len h) = length pl"
    using scan_one_Frame(2) [OF sc] by simp
  then show ?thesis
    using scan_one_Frame(1) [OF sc] by (simp add: FrameMeta_total_size_def scanned_def)
qed

lemma frames_end_simps [simp]:
  "frames_end pos [] = pos"
  "frames_end pos (f # fs) = frames_end (pos + FrameMeta_total_size (sf_meta f)) fs"
  by (simp_all add: frames_end_def)

lemma scan_all_Frame:
  "scan_one c buf p = Frame h pl n \<Longrightarrow> scan_all c buf pos p =
     (let (fs, e) = scan_all c (drop n buf) (pos + n) (ucast (fh_crc h)) in (scanned h pl pos # fs, e))"
  by (subst scan_all.simps) simp

lemma scan_summary_scan_all:
  assumes "reader_inv r"
  shows "snd (scan_summary c r) =
    (let (fs, e) = scan_all c (pending r) (rd_buf_start r) (rd_prev_crc r)
     in case e of Some (ScanCorrupt x) \<Rightarrow> Inl (ScanCorrupt x) | _ \<Rightarrow> Inr (summary_of r fs e))"
  using assms
proof (induction "length (pending r)" arbitrary: r rule: less_induct)
  case less
  from \<open>reader_inv r\<close> show ?case
  proof (cases rule: next_frame_cases [where c = c])
    case (frame h pl n r')
    have n: "FRAME_HEADER_SIZE \<le> n" "n \<le> length (pending r)"
      using scan_one_Frame_drop [OF frame(1)] by auto
    then have "length (pending r') < length (pending r)" using frame(4) by simp
    from less.hyps [OF this frame(3)] frame n show ?thesis
      by (subst scan_summary.simps)
        (auto simp: scan_all_Frame [OF frame(1)] summary_of_def scanned_total_size [OF frame(1)] Let_def
          split: prod.splits option.splits ScanError.splits)
  next
    case (stop sc r0)
    have "rd_valid_end r = rd_buf_start r" using less.prems by (simp add: reader_inv_def)
    with stop show ?thesis
      by (subst scan_summary.simps, subst scan_all.simps)
        (auto simp: summary_of_def rebuffered_sel Let_def split: ScanOne.splits)
  qed
qed

text \<open>The loop a client of the reader runs: all frames up to the clean end or the first error.\<close>

function read_loop ::
  "(bytes \<Rightarrow> u32) \<Rightarrow> SegReader \<Rightarrow> ScannedFrame list \<times> ScanError option" where
  "read_loop crc32c r =
     (case next_frame crc32c r of
        (r', Inr (Some f)) \<Rightarrow> (let (fs, e) = read_loop crc32c r' in (f # fs, e))
      | (r', Inr None) \<Rightarrow> ([], None)
      | (r', Inl e) \<Rightarrow> ([], Some e))"
  by pat_completeness auto

termination read_loop
  by (relation "measure (\<lambda>(c, r). rd_left r)") (auto dest: next_frame_progress [OF sym])

declare read_loop.simps [simp del]

lemma read_loop_scan_all:
  "reader_inv r \<Longrightarrow> read_loop c r = scan_all c (pending r) (rd_buf_start r) (rd_prev_crc r)"
proof (induction "length (pending r)" arbitrary: r rule: less_induct)
  case less
  from \<open>reader_inv r\<close> show ?case
  proof (cases rule: next_frame_cases [where c = c])
    case (frame h pl n r')
    have "length (pending r') < length (pending r)"
      using frame(4) scan_one_Frame_drop [OF frame(1)] by auto
    from less.hyps [OF this frame(3)] frame show ?thesis
      by (subst read_loop.simps) (simp add: scan_all_Frame [OF frame(1)])
  next
    case (stop sc r0)
    then show ?thesis
      by (subst read_loop.simps, subst scan_all.simps) (auto split: ScanOne.splits)
  qed
qed

lemma SegReader_open_inv:
  assumes "SegReader_open c file = Inr r"
  shows "reader_inv r" "pending r = drop SEG_HEADER_SIZE file" "rd_buf_start r = SEG_HEADER_SIZE"
    "rd_prev_crc r = chain_seed c (rd_header r)" "rd_frame_count r = 0" "rd_last_meta r = None"
    "SegmentHeader_decode c (take SEG_HEADER_SIZE file) = Inr (rd_header r)"
    "SEG_HEADER_SIZE \<le> length file"
  using assms by (auto simp: SegReader_open_def reader_inv_def pending_def split: if_splits sum.splits)

end
