(* ===== verification/Wal_Writer.thy ===== *)
theory Wal_Writer
  imports Wal_Segment
begin

text \<open>
  The segment appender \<^verbatim>\<open>SegWriter\<close> of \<^verbatim>\<open>powerfs-core/src/wal/segment.rs\<close>: creating, reopening,
  appending, padding and sealing a segment file. Its invariant says that the file is a header, a
  chained log of the appended records and zero slack; scanning such a file returns exactly those
  records, and cutting it anywhere returns a prefix of them.
\<close>

section \<open>Logs of frames\<close>

text \<open>The bytes of a sequence of records, chained from \<open>prev_crc\<close>, and the frames a scan reports for
  them.\<close>

type_synonym log_rec = "RecordType \<times> byte \<times> u64 \<times> bytes"

fun rec_crc :: "(bytes \<Rightarrow> u32) \<Rightarrow> log_rec \<Rightarrow> u32" where
  "rec_crc c (t, f, l, pl) = compute_frame_crc c (to_u8 t) f l pl"

fun rec_size :: "log_rec \<Rightarrow> nat" where
  "rec_size (t, f, l, pl) = FRAME_HEADER_SIZE + length pl"

fun rec_ok :: "log_rec \<Rightarrow> bool" where
  "rec_ok (t, f, l, pl) \<longleftrightarrow> length pl < 2 ^ 32"

fun rec_bytes :: "(bytes \<Rightarrow> u32) \<Rightarrow> u64 \<Rightarrow> log_rec \<Rightarrow> bytes" where
  "rec_bytes c p (t, f, l, pl) = fst (encode_frame c p t f l pl)"

fun rec_frame :: "(bytes \<Rightarrow> u32) \<Rightarrow> nat \<Rightarrow> log_rec \<Rightarrow> ScannedFrame" where
  "rec_frame c pos (t, f, l, pl) =
     \<lparr>sf_meta = \<lparr>fm_lsn = l, fm_rtype = t, fm_flags = f, fm_offset = pos,
                  fm_payload_len = of_nat (length pl),
                  fm_crc = compute_frame_crc c (to_u8 t) f l pl\<rparr>, sf_payload = pl\<rparr>"

primrec encode_log :: "(bytes \<Rightarrow> u32) \<Rightarrow> u64 \<Rightarrow> log_rec list \<Rightarrow> bytes" where
  "encode_log c p [] = []"
| "encode_log c p (r # rs) = rec_bytes c p r @ encode_log c (ucast (rec_crc c r)) rs"

primrec chain_end :: "(bytes \<Rightarrow> u32) \<Rightarrow> u64 \<Rightarrow> log_rec list \<Rightarrow> u64" where
  "chain_end c p [] = p"
| "chain_end c p (r # rs) = chain_end c (ucast (rec_crc c r)) rs"

primrec frames_of :: "(bytes \<Rightarrow> u32) \<Rightarrow> nat \<Rightarrow> log_rec list \<Rightarrow> ScannedFrame list" where
  "frames_of c pos [] = []"
| "frames_of c pos (r # rs) = rec_frame c pos r # frames_of c (pos + rec_size r) rs"

primrec log_size :: "log_rec list \<Rightarrow> nat" where
  "log_size [] = 0"
| "log_size (r # rs) = rec_size r + log_size rs"

text \<open>How many whole records the first \<open>n\<close> bytes hold.\<close>

primrec whole_recs :: "nat \<Rightarrow> log_rec list \<Rightarrow> nat" where
  "whole_recs n [] = 0"
| "whole_recs n (r # rs) = (if rec_size r \<le> n then Suc (whole_recs (n - rec_size r) rs) else 0)"

lemma length_rec_bytes [simp]: "length (rec_bytes c p r) = rec_size r"
  by (cases r) simp

lemma length_encode_log [simp]: "length (encode_log c p rs) = log_size rs"
  by (induction rs arbitrary: p) auto

lemma encode_log_append:
  "encode_log c p (rs @ rs') = encode_log c p rs @ encode_log c (chain_end c p rs) rs'"
  by (induction rs arbitrary: p) auto

lemma chain_end_append [simp]: "chain_end c p (rs @ rs') = chain_end c (chain_end c p rs) rs'"
  by (induction rs arbitrary: p) auto

lemma frames_of_append:
  "frames_of c pos (rs @ rs') = frames_of c pos rs @ frames_of c (pos + log_size rs) rs'"
  by (induction rs arbitrary: pos) (auto simp: add.assoc)

lemma log_size_append [simp]: "log_size (rs @ rs') = log_size rs + log_size rs'"
  by (induction rs) auto

lemma length_frames_of [simp]: "length (frames_of c pos rs) = length rs"
  by (induction rs arbitrary: pos) auto

lemma whole_recs_le: "whole_recs n rs \<le> length rs"
  by (induction rs arbitrary: n) auto

lemma scan_one_rec:
  assumes "rec_ok r"
  obtains h pl where "scan_one c (rec_bytes c p r @ rest) p = Frame h pl (rec_size r)"
    "scanned h pl pos = rec_frame c pos r" "fh_crc h = rec_crc c r"
  using assms by (cases r) (auto simp: scan_one_encode scanned_def)

lemma scan_all_rec:
  assumes "rec_ok r"
  shows "scan_all c (rec_bytes c p r @ rest) pos p =
    (let (fs, e) = scan_all c rest (pos + rec_size r) (ucast (rec_crc c r)) in (rec_frame c pos r # fs, e))"
proof -
  obtain h pl where "scan_one c (rec_bytes c p r @ rest) p = Frame h pl (rec_size r)"
    "scanned h pl pos = rec_frame c pos r" "fh_crc h = rec_crc c r"
    by (rule scan_one_rec [OF assms])
  then show ?thesis by (subst scan_all.simps) simp
qed

lemma scan_all_log:
  "\<forall>r\<in>set rs. rec_ok r \<Longrightarrow> scan_all c (encode_log c p rs @ rest) pos p =
     (let (fs, e) = scan_all c rest (pos + log_size rs) (chain_end c p rs)
      in (frames_of c pos rs @ fs, e))"
  by (induction rs arbitrary: p pos) (auto simp: scan_all_rec add.assoc split: prod.splits)

lemma scan_one_zeros: "scan_one c (replicate k 0) p = EndOfData"
  by (auto simp: scan_one_def decode_header_def Let_def from_u8_def subslice_def)

lemma scan_all_zeros [simp]: "scan_all c (replicate k 0) pos p = ([], None)"
  by (subst scan_all.simps) (simp add: scan_one_zeros)

lemma scan_all_Nil [simp]: "scan_all c [] pos p = ([], None)"
  using scan_all_zeros [of c 0] by simp

text \<open>A log cut after any number of bytes scans to its whole records; what follows is slack or a torn
  tail, never corruption.\<close>

lemma scan_all_cut:
  "\<forall>r\<in>set rs. rec_ok r \<Longrightarrow>
   fst (scan_all c (take n (encode_log c p rs)) pos p) = frames_of c pos (take (whole_recs n rs) rs) \<and>
   (\<forall>e. snd (scan_all c (take n (encode_log c p rs)) pos p) \<noteq> Some (ScanCorrupt e))"
proof (induction rs arbitrary: n p pos)
  case Nil
  then show ?case by simp
next
  case (Cons r rs)
  show ?case
  proof (cases "rec_size r \<le> n")
    case True
    then have "take n (encode_log c p (r # rs)) =
        rec_bytes c p r @ take (n - rec_size r) (encode_log c (ucast (rec_crc c r)) rs)"
      by simp
    with True Cons show ?thesis
      by (simp add: scan_all_rec split: prod.split) (metis fst_conv snd_conv)
  next
    case False
    obtain t f l pl where r: "r = (t, f, l, pl)" by (cases r) auto
    have "take n (encode_log c p (r # rs)) = take n (fst (encode_frame c p t f l pl))"
      using False by (simp add: r)
    with False Cons.prems scan_one_cut [of pl n c p t f l p] show ?thesis
      by (subst scan_all.simps) (auto simp: r scan_all.simps [of c _ pos p])
  qed
qed

text \<open>Conversely every scan result is a log: the scanned bytes are an encoded log followed by the bytes
  the scan stopped at.\<close>

lemma scan_all_sound:
  assumes "scan_all c buf pos p = (fs, e)"
  shows "\<exists>rs rest. buf = encode_log c p rs @ rest \<and> fs = frames_of c pos rs \<and>
           (\<forall>r\<in>set rs. rec_ok r) \<and> frames_end pos fs = pos + log_size rs \<and>
           scan_all c rest (pos + log_size rs) (chain_end c p rs) = ([], e)"
  using assms
proof (induction c buf pos p arbitrary: fs rule: scan_all.induct)
  case (1 c buf pos p)
  show ?case
  proof (cases "scan_one c buf p")
    case (Frame h pl n)
    obtain fs' where fs: "fs = scanned h pl pos # fs'"
      and rec: "scan_all c (drop n buf) (pos + n) (ucast (fh_crc h)) = (fs', e)"
      using "1.prems" by (auto simp: scan_all_Frame [OF Frame] split: prod.splits)
    let ?r = "(fh_rtype h, fh_flags h, fh_lsn h, pl)"
    note F = scan_one_Frame [OF Frame]
    have crc: "fh_crc h = rec_crc c ?r"
      by (subst F(4)) simp
    have sc: "scanned h pl pos = rec_frame c pos ?r" and len: "fh_len h = of_nat (length pl)"
      by (subst F(4), simp add: scanned_def) (subst F(4), simp)
    from "1.IH" [OF Frame rec] obtain rs rest where IH:
      "drop n buf = encode_log c (ucast (fh_crc h)) rs @ rest" "fs' = frames_of c (pos + n) rs"
      "\<forall>r\<in>set rs. rec_ok r" "frames_end (pos + n) fs' = pos + n + log_size rs"
      "scan_all c rest (pos + n + log_size rs) (chain_end c (ucast (fh_crc h)) rs) = ([], e)"
      by blast
    have "buf = encode_log c p (?r # rs) @ rest"
      using F(3) IH(1) crc by simp
    moreover have "fs = frames_of c pos (?r # rs)"
      using fs sc IH(2) F(1) by simp
    moreover have "frames_end pos fs = pos + log_size (?r # rs)"
      using fs IH(4) F(1) scanned_total_size [OF Frame] by simp
    moreover have "scan_all c rest (pos + log_size (?r # rs)) (chain_end c p (?r # rs)) = ([], e)"
      using IH(5) F(1) crc by (simp add: add.assoc)
    moreover have "\<forall>r\<in>set (?r # rs). rec_ok r"
      using IH(3) F(2) by simp
    ultimately show ?thesis by blast
  qed (use "1.prems" in \<open>auto simp: scan_all.simps [of c buf pos p] intro!: exI [of _ "[] :: log_rec list"] exI [of _ buf]\<close>)
qed

section \<open>The appender\<close>

record SegWriter =
  sw_file :: bytes
  sw_header :: SegmentHeader
  sw_seg_size :: nat
  sw_write_pos :: nat
  sw_prev_crc :: u64
  sw_frame_count :: nat
  sw_last_meta :: "FrameMeta option"

text \<open>\<open>exists\<close>: the file is there already (\<^verbatim>\<open>create_new\<close> refuses it); \<open>now\<close>: the clock. A fresh
  preallocated file reads as zeros.\<close>

definition SegWriter_create ::
  "(bytes \<Rightarrow> u32) \<Rightarrow> i64 \<Rightarrow> bool \<Rightarrow> u64 \<Rightarrow> u64 \<Rightarrow> u64 \<Rightarrow> nat \<Rightarrow> bool \<Rightarrow> SegmentError + SegWriter" where
  "SegWriter_create crc32c now exists seg_id volume_id base_lsn seg_size preallocate =
     (if seg_size < SEG_HEADER_SIZE + FRAME_HEADER_SIZE
      then Inl (SegmentFull (SEG_HEADER_SIZE + FRAME_HEADER_SIZE) seg_size)
      else if exists then Inl AlreadyExists
      else
        (let file = (if preallocate then replicate seg_size 0 else []);
             header = \<lparr>sh_seg_id = seg_id, sh_volume_id = volume_id, sh_base_lsn = base_lsn,
                       sh_created_ts = now, sh_flags = 0\<rparr>
         in Inr \<lparr>sw_file = write_at file 0 (SegmentHeader_encode crc32c header), sw_header = header,
                 sw_seg_size = seg_size, sw_write_pos = SEG_HEADER_SIZE,
                 sw_prev_crc = chain_seed crc32c header, sw_frame_count = 0, sw_last_meta = None\<rparr>))"

definition read_header :: "(bytes \<Rightarrow> u32) \<Rightarrow> bytes \<Rightarrow> SegmentError + SegmentHeader" where
  "read_header crc32c file =
     (if length file < SEG_HEADER_SIZE then Inl UnexpectedEof
      else SegmentHeader_decode crc32c (take SEG_HEADER_SIZE file))"

definition SegWriter_reopen ::
  "(bytes \<Rightarrow> u32) \<Rightarrow> bytes \<Rightarrow> nat \<Rightarrow> SegmentError + SegWriter \<times> ScanSummary" where
  "SegWriter_reopen crc32c file seg_size =
     (case SegReader_open crc32c file of
        Inl e \<Rightarrow> Inl e
      | Inr reader \<Rightarrow>
          (case snd (scan_summary crc32c reader) of
             Inl e \<Rightarrow> Inl (Scan e)
           | Inr summary \<Rightarrow>
               (case read_header crc32c file of
                  Inl e \<Rightarrow> Inl e
                | Inr header \<Rightarrow>
                    (let file' = (if ss_torn_tail summary \<or> ss_valid_end summary < length file
                                  then take (ss_valid_end summary) file else file)
                     in Inr (\<lparr>sw_file = file', sw_header = header, sw_seg_size = seg_size,
                              sw_write_pos = ss_valid_end summary,
                              sw_prev_crc = (case ss_last_crc summary of Some c \<Rightarrow> ucast c
                                             | None \<Rightarrow> chain_seed crc32c header),
                              sw_frame_count = ss_frame_count summary, sw_last_meta = None\<rparr>,
                            summary)))))"

text \<open>\<^verbatim>\<open>self.seg_size - self.write_pos\<close> on \<^verbatim>\<open>u64\<close>: it wraps when the segment was reopened with a
  smaller size.\<close>

definition sw_remaining :: "SegWriter \<Rightarrow> nat" where
  "sw_remaining w = unat (of_nat (sw_seg_size w) - of_nat (sw_write_pos w) :: u64)"

definition put_frame ::
  "SegWriter \<Rightarrow> bytes \<Rightarrow> FrameMeta \<Rightarrow> nat \<Rightarrow> SegWriter" where
  "put_frame w bs meta new_pos =
     w\<lparr>sw_file := write_at (sw_file w) (sw_write_pos w) bs, sw_write_pos := new_pos,
       sw_prev_crc := ucast (fm_crc meta), sw_frame_count := sw_frame_count w + 1,
       sw_last_meta := Some meta\<rparr>"

definition pad_to_end ::
  "(bytes \<Rightarrow> u32) \<Rightarrow> SegWriter \<Rightarrow> u64 \<Rightarrow> SegWriter \<times> FrameMeta option" where
  "pad_to_end crc32c w lsn =
     (let remaining = sw_remaining w in
      if remaining < FRAME_HEADER_SIZE then (w, None)
      else
        (let (bs, crc) = the (encode_pad_frame crc32c (sw_prev_crc w) lsn remaining);
             meta = \<lparr>fm_lsn = lsn, fm_rtype = Pad, fm_flags = 0, fm_offset = sw_write_pos w,
                     fm_payload_len = of_nat (remaining - FRAME_HEADER_SIZE), fm_crc = crc\<rparr>
         in (put_frame w bs meta (sw_seg_size w), Some meta)))"

definition SegWriter_append ::
  "(bytes \<Rightarrow> u32) \<Rightarrow> SegWriter \<Rightarrow> RecordType \<Rightarrow> byte \<Rightarrow> u64 \<Rightarrow> bytes \<Rightarrow>
     SegWriter \<times> (SegmentError + FrameMeta)" where
  "SegWriter_append crc32c w rtype flags lsn payload =
     (if is_sealed (sw_header w) then (w, Inl Sealed)
      else
        (let total = FRAME_HEADER_SIZE + length payload;
             remaining = sw_remaining w
         in if total > remaining then
              (let w' = (if remaining \<ge> FRAME_HEADER_SIZE then fst (pad_to_end crc32c w lsn) else w)
               in (w', Inl (SegmentFull total remaining)))
            else
              (let (bs, crc) = encode_frame crc32c (sw_prev_crc w) rtype flags lsn payload;
                   meta = \<lparr>fm_lsn = lsn, fm_rtype = rtype, fm_flags = flags,
                           fm_offset = sw_write_pos w, fm_payload_len = of_nat (length payload),
                           fm_crc = crc\<rparr>
               in (put_frame w bs meta (sw_write_pos w + total), Inr meta))))"

definition can_fit :: "SegWriter \<Rightarrow> nat \<Rightarrow> bool" where
  "can_fit w payload_len \<longleftrightarrow> FRAME_HEADER_SIZE + payload_len \<le> sw_remaining w"

text \<open>The two fsyncs order the data before the sealed header; they do not change the contents.\<close>

definition seal :: "(bytes \<Rightarrow> u32) \<Rightarrow> SegWriter \<Rightarrow> SegWriter" where
  "seal crc32c w =
     (if is_sealed (sw_header w) then w
      else
        (let header = (sw_header w)\<lparr>sh_flags := sh_flags (sw_header w) OR SEG_FLAG_SEALED\<rparr>
         in w\<lparr>sw_header := header,
              sw_file := write_at (sw_file w) 0 (SegmentHeader_encode crc32c header)\<rparr>))"

text \<open>What a segment file holds: a header, a log chained from its seed, and zero slack.\<close>

definition segment_image :: "(bytes \<Rightarrow> u32) \<Rightarrow> SegmentHeader \<Rightarrow> log_rec list \<Rightarrow> nat \<Rightarrow> bytes" where
  "segment_image c h rs k =
     SegmentHeader_encode c h @ encode_log c (chain_seed c h) rs @ replicate k 0"

definition writer_inv :: "(bytes \<Rightarrow> u32) \<Rightarrow> SegWriter \<Rightarrow> log_rec list \<Rightarrow> bool" where
  "writer_inv c w rs \<longleftrightarrow>
     (\<exists>k. sw_file w = segment_image c (sw_header w) rs k) \<and>
     sw_write_pos w = SEG_HEADER_SIZE + log_size rs \<and>
     sw_prev_crc w = chain_end c (chain_seed c (sw_header w)) rs \<and>
     sw_frame_count w = length rs \<and> (\<forall>r\<in>set rs. rec_ok r) \<and>
     sw_write_pos w \<le> sw_seg_size w \<and> sw_seg_size w < 2 ^ 32"

primrec append_all ::
  "(bytes \<Rightarrow> u32) \<Rightarrow> SegWriter \<Rightarrow> log_rec list \<Rightarrow> (SegWriter \<times> FrameMeta list) option" where
  "append_all c w [] = Some (w, [])"
| "append_all c w (r # rs) =
     (case r of (t, f, l, pl) \<Rightarrow>
       (case SegWriter_append c w t f l pl of
          (w', Inr m) \<Rightarrow> map_option (apsnd ((#) m)) (append_all c w' rs)
        | (w', Inl e) \<Rightarrow> None))"

lemma length_segment_image [simp]:
  "length (segment_image c h rs k) = SEG_HEADER_SIZE + log_size rs + k"
  by (simp add: segment_image_def)

lemma write_at_zeros:
  "length a = n \<Longrightarrow> write_at (a @ replicate k 0) n bs = a @ bs @ replicate (k - length bs) 0"
  by (simp add: write_at_def)

lemma write_at_prefix:
  "length a = length b \<Longrightarrow> write_at (a @ rest) 0 b = b @ rest"
  by (simp add: write_at_def)

lemma segment_image_put:
  "write_at (segment_image c h rs k) (SEG_HEADER_SIZE + log_size rs)
       (rec_bytes c (chain_end c (chain_seed c h) rs) r) =
     segment_image c h (rs @ [r]) (k - rec_size r)"
  using write_at_zeros [of "SegmentHeader_encode c h @ encode_log c (chain_seed c h) rs"
      "SEG_HEADER_SIZE + log_size rs" k]
  by (simp add: segment_image_def encode_log_append)

lemma create_inv:
  assumes "SegWriter_create c now ex sid vid base sz pre = Inr w" and "sz < 2 ^ 32"
  shows "writer_inv c w []"
proof -
  have "\<exists>k. write_at (if pre then replicate sz 0 else []) 0 (SegmentHeader_encode c h) =
      segment_image c h [] k" for h
    using write_at_zeros [of "[]" 0 "if pre then sz else 0" "SegmentHeader_encode c h"]
    by (auto simp: segment_image_def split: if_splits)
  with assms show ?thesis
    by (auto simp: SegWriter_create_def writer_inv_def Let_def split: if_splits)
qed

lemma sw_remaining_inv:
  "writer_inv c w rs \<Longrightarrow> sw_remaining w = sw_seg_size w - sw_write_pos w"
  unfolding writer_inv_def sw_remaining_def by (rule unat_of_nat_diff_u64) auto

lemma put_frame_inv:
  assumes "writer_inv c w rs" and "rec_size r \<le> sw_remaining w"
    and "fm_crc m = rec_crc c r" and "pos = sw_write_pos w + rec_size r"
  shows "writer_inv c (put_frame w (rec_bytes c (sw_prev_crc w) r) m pos) (rs @ [r])"
proof -
  have "rec_ok r"
    using assms(1,2) sw_remaining_inv [OF assms(1)]
    by (cases r) (auto simp: writer_inv_def)
  with assms sw_remaining_inv [OF assms(1)] show ?thesis
    by (auto simp: writer_inv_def put_frame_def segment_image_put)
qed

lemma append_ok_inv:
  assumes "writer_inv c w rs" and "SegWriter_append c w t f l pl = (w', Inr m)"
  shows "writer_inv c w' (rs @ [(t, f, l, pl)])"
    and "m = sf_meta (rec_frame c (sw_write_pos w) (t, f, l, pl))"
    and "sw_header w' = sw_header w"
proof -
  from assms(2) have fit: "FRAME_HEADER_SIZE + length pl \<le> sw_remaining w"
    and m: "m = sf_meta (rec_frame c (sw_write_pos w) (t, f, l, pl))"
    and w': "w' = put_frame w (rec_bytes c (sw_prev_crc w) (t, f, l, pl)) m
               (sw_write_pos w + rec_size (t, f, l, pl))"
    by (auto simp: SegWriter_append_def Let_def encode_frame_eq split: if_splits)
  show "m = sf_meta (rec_frame c (sw_write_pos w) (t, f, l, pl))" by (rule m)
  show "writer_inv c w' (rs @ [(t, f, l, pl)])"
    unfolding w' by (rule put_frame_inv [OF assms(1)]) (use fit m in auto)
  show "sw_header w' = sw_header w" by (simp add: w' put_frame_def)
qed

lemma pad_to_end_inv:
  assumes "writer_inv c w rs"
  shows "writer_inv c (fst (pad_to_end c w l))
    (if sw_remaining w < FRAME_HEADER_SIZE then rs
     else rs @ [(Pad, 0, l, replicate (sw_remaining w - FRAME_HEADER_SIZE) 0)])"
proof (cases "sw_remaining w < FRAME_HEADER_SIZE")
  case True
  then show ?thesis using assms by (simp add: pad_to_end_def)
next
  case False
  let ?r = "(Pad, 0 :: byte, l, replicate (sw_remaining w - FRAME_HEADER_SIZE) 0 :: bytes)"
  let ?m = "sf_meta (rec_frame c (sw_write_pos w) ?r)"
  have "fst (pad_to_end c w l) = put_frame w (rec_bytes c (sw_prev_crc w) ?r) ?m (sw_seg_size w)"
    using False by (simp add: pad_to_end_def encode_pad_frame_def encode_frame_eq Let_def)
  moreover have "writer_inv c \<dots> (rs @ [?r])"
    by (rule put_frame_inv [OF assms])
      (use False sw_remaining_inv [OF assms] in auto)
  ultimately show ?thesis using False by simp
qed

lemma append_err_inv:
  assumes "writer_inv c w rs" and "SegWriter_append c w t f l pl = (w', Inl e)"
  shows "(w' = w \<and> e = Sealed) \<or>
         e = SegmentFull (FRAME_HEADER_SIZE + length pl) (sw_remaining w) \<and>
         sw_remaining w < FRAME_HEADER_SIZE + length pl \<and>
         (\<exists>pad. writer_inv c w' (rs @ pad) \<and> (\<forall>r\<in>set pad. fst r = Pad \<and> fst (snd (snd r)) = l) \<and>
            sw_remaining w' < FRAME_HEADER_SIZE)"
proof (cases "is_sealed (sw_header w) \<or> sw_remaining w < FRAME_HEADER_SIZE")
  case True
  with assms show ?thesis
    by (auto simp: SegWriter_append_def Let_def split: if_splits prod.splits intro!: exI [of _ "[]"])
next
  case False
  with assms(2) have *: "w' = fst (pad_to_end c w l)" "sw_remaining w < FRAME_HEADER_SIZE + length pl"
    "e = SegmentFull (FRAME_HEADER_SIZE + length pl) (sw_remaining w)"
    by (auto simp: SegWriter_append_def Let_def split: if_splits prod.splits)
  have inv: "writer_inv c w' (rs @ [(Pad, 0, l, replicate (sw_remaining w - FRAME_HEADER_SIZE) 0)])"
    using pad_to_end_inv [OF assms(1), of l] False *(1) by simp
  moreover have "sw_remaining w' = 0"
    using False *(1) by (simp add: pad_to_end_def put_frame_def sw_remaining_def Let_def split: prod.splits)
  ultimately show ?thesis
    using * by (intro disjI2 conjI exI [of _ "[(Pad, 0, l, replicate (sw_remaining w - FRAME_HEADER_SIZE) 0)]"]) auto
qed

lemma seal_flag: "(f OR SEG_FLAG_SEALED) AND SEG_FLAG_SEALED = SEG_FLAG_SEALED"
  by (rule bit_eqI) (auto simp: bit_simps)

lemma seal_inv:
  "writer_inv c w rs \<Longrightarrow> writer_inv c (seal c w) rs"
  by (auto simp: writer_inv_def seal_def segment_image_def Let_def write_at_prefix)

lemma append_all_inv:
  "writer_inv c w rs0 \<Longrightarrow> append_all c w rs = Some (w', ms) \<Longrightarrow>
     writer_inv c w' (rs0 @ rs) \<and> sw_header w' = sw_header w \<and>
     ms = map sf_meta (frames_of c (SEG_HEADER_SIZE + log_size rs0) rs)"
proof (induction rs arbitrary: w rs0 ms)
  case Nil
  then show ?case by simp
next
  case (Cons r rs)
  obtain t f l pl where r: "r = (t, f, l, pl)" by (cases r) auto
  from Cons.prems(2) obtain w1 m ms' where step: "SegWriter_append c w t f l pl = (w1, Inr m)"
    and rest: "append_all c w1 rs = Some (w', ms')" and ms: "ms = m # ms'"
    by (auto simp: r split: prod.splits sum.splits)
  note A = append_ok_inv [OF Cons.prems(1) step]
  from Cons.IH [OF A(1) rest] A Cons.prems(1) show ?case
    by (auto simp: r ms writer_inv_def add.assoc)
qed

lemma append_seg_size:
  "SegWriter_append c w t f l pl = (w', res) \<Longrightarrow> sw_seg_size w' = sw_seg_size w"
  by (auto simp: SegWriter_append_def pad_to_end_def put_frame_def Let_def split: if_splits prod.splits)

lemma append_all_seg_size:
  "append_all c w rs = Some (w', ms) \<Longrightarrow> sw_seg_size w' = sw_seg_size w"
proof (induction rs arbitrary: w ms)
  case (Cons r rs)
  obtain t f l pl where r: "r = (t, f, l, pl)" by (cases r) auto
  from Cons.prems obtain w1 m ms' where "SegWriter_append c w t f l pl = (w1, Inr m)"
    "append_all c w1 rs = Some (w', ms')"
    by (auto simp: r split: prod.splits sum.splits)
  with Cons.IH append_seg_size show ?case by metis
qed simp

lemma whole_recs_all: "log_size rs \<le> n \<Longrightarrow> whole_recs n rs = length rs"
  by (induction rs arbitrary: n) auto

lemma drop_segment_image:
  "drop SEG_HEADER_SIZE (take n (segment_image c h rs k)) =
     take (n - SEG_HEADER_SIZE) (encode_log c (chain_seed c h) rs @ replicate k 0)"
  unfolding drop_take by (simp add: segment_image_def)

text \<open>Scanning an image cut after \<open>n\<close> bytes.\<close>

lemma scan_all_image_cut:
  assumes "\<forall>r\<in>set rs. rec_ok r"
    and "scan_all c (take n (encode_log c p rs @ replicate k 0)) pos p = (fs, e)"
  shows "fs = frames_of c pos (take (whole_recs n rs) rs)" and "e \<noteq> Some (ScanCorrupt x)"
    and "log_size rs \<le> n \<Longrightarrow> e = None"
proof -
  have "fs = frames_of c pos (take (whole_recs n rs) rs) \<and> (\<forall>x. e \<noteq> Some (ScanCorrupt x)) \<and>
      (log_size rs \<le> n \<longrightarrow> e = None)"
  proof (cases "log_size rs \<le> n")
    case True
    then have "take n (encode_log c p rs @ replicate k 0) =
        encode_log c p rs @ replicate (min (n - log_size rs) k) 0"
      by simp
    then show ?thesis
      using assms True by (simp add: scan_all_log whole_recs_all split: prod.splits)
  next
    case False
    then have "take n (encode_log c p rs @ replicate k 0) = take n (encode_log c p rs)"
      by simp
    with False assms scan_all_cut [of rs c n p pos] show ?thesis by simp
  qed
  then show "fs = frames_of c pos (take (whole_recs n rs) rs)" "e \<noteq> Some (ScanCorrupt x)"
    "log_size rs \<le> n \<Longrightarrow> e = None" by auto
qed

lemma SegReader_open_Inr:
  "SEG_HEADER_SIZE \<le> length file \<Longrightarrow> SegmentHeader_decode c (take SEG_HEADER_SIZE file) = Inr h \<Longrightarrow>
     \<exists>r. SegReader_open c file = Inr r \<and> rd_header r = h"
  by (simp add: SegReader_open_def)

lemma open_image_cut:
  assumes "SEG_HEADER_SIZE \<le> n"
  obtains r where "SegReader_open c (take n (segment_image c h rs k)) = Inr r" "rd_header r = h"
proof -
  have "take SEG_HEADER_SIZE (take n (segment_image c h rs k)) = SegmentHeader_encode c h"
    using assms by (simp add: segment_image_def min_def)
  moreover have "SegmentHeader_decode c (SegmentHeader_encode c h) = Inr h"
    using SegmentHeader_decode_encode [of c h "[]"] by simp
  ultimately have "\<exists>r. SegReader_open c (take n (segment_image c h rs k)) = Inr r \<and> rd_header r = h"
    using assms by (intro SegReader_open_Inr) simp_all
  then show thesis using that by blast
qed

lemma frames_end_frames_of:
  "\<forall>r\<in>set rs. rec_ok r \<Longrightarrow> frames_end pos (frames_of c pos rs) = pos + log_size rs"
proof (induction rs arbitrary: pos)
  case (Cons r rs)
  have "FrameMeta_total_size (sf_meta (rec_frame c pos r)) = rec_size r"
    using Cons.prems by (cases r) (simp add: FrameMeta_total_size_def)
  with Cons show ?case by simp
qed simp

lemma last_crc_frames_of:
  "rs \<noteq> [] \<Longrightarrow> ucast (fm_crc (sf_meta (last (frames_of c pos rs)))) = chain_end c p rs"
proof (induction rs arbitrary: pos p)
  case (Cons r rs)
  show ?case
  proof (cases "rs = []")
    case True
    then show ?thesis by (cases r) simp
  next
    case False
    then have "frames_of c (pos + rec_size r) rs \<noteq> []" by (cases rs) auto
    with Cons.IH [OF False] show ?thesis by simp
  qed
qed simp

lemma take_log_image:
  "take (SEG_HEADER_SIZE + log_size (take m rs)) (segment_image c h rs k) = segment_image c h (take m rs) 0"
proof -
  have "encode_log c p rs = encode_log c p (take m rs) @ encode_log c (chain_end c p (take m rs)) (drop m rs)" for p
    by (metis append_take_drop_id encode_log_append)
  from this [of "chain_seed c h"] show ?thesis
    by (simp add: segment_image_def)
qed

lemma whole_recs_size: "log_size (take (whole_recs n rs) rs) \<le> n"
proof (induction rs arbitrary: n)
  case (Cons r rs)
  from Cons.IH [of "n - rec_size r"] show ?case by auto
qed simp

lemma summary_prev_crc:
  "rd_last_meta r = None \<Longrightarrow>
   (case ss_last_crc (summary_of r (frames_of c pos rs) e) of Some x \<Rightarrow> ucast x | None \<Rightarrow> p) = chain_end c p rs"
proof (cases rs)
  case (Cons a as)
  then show ?thesis
    using last_crc_frames_of [of rs c pos p] by (simp add: summary_of_def Let_def)
qed (simp add: summary_of_def Let_def)

text \<open>Reopening a cut image truncates it to its whole records and is ready to append after them.\<close>

lemma reopen_image_cut:
  assumes ok: "\<forall>r\<in>set rs. rec_ok r" and n: "SEG_HEADER_SIZE \<le> n"
    and size: "SEG_HEADER_SIZE + log_size rs \<le> sz" "sz < 2 ^ 32"
  shows "\<exists>w s. SegWriter_reopen c (take n (segment_image c h rs k)) sz = Inr (w, s) \<and>
     sw_header w = h \<and> sw_seg_size w = sz \<and>
     writer_inv c w (take (whole_recs (n - SEG_HEADER_SIZE) rs) rs)"
proof -
  let ?file = "take n (segment_image c h rs k)"
  define m where "m = whole_recs (n - SEG_HEADER_SIZE) rs"
  let ?rs = "take m rs"
  obtain r where r: "SegReader_open c ?file = Inr r" "rd_header r = h"
    by (rule open_image_cut [OF n])
  note R = SegReader_open_inv [OF r(1)]
  obtain fs e where sc: "scan_all c (pending r) SEG_HEADER_SIZE (chain_seed c h) = (fs, e)"
    by fastforce
  have pend: "pending r = take (n - SEG_HEADER_SIZE) (encode_log c (chain_seed c h) rs @ replicate k 0)"
    by (simp only: R(2) drop_segment_image)
  have fs: "fs = frames_of c SEG_HEADER_SIZE ?rs" and e: "\<And>x. e \<noteq> Some (ScanCorrupt x)"
    using scan_all_image_cut(1,2) [OF ok sc [unfolded pend]] by (simp_all add: m_def)
  have ok': "\<forall>r\<in>set ?rs. rec_ok r" using ok by (meson in_set_takeD)
  have s: "snd (scan_summary c r) = Inr (summary_of r fs e)"
    using scan_summary_scan_all [OF R(1), of c] sc e R(3,4) r(2)
    by (auto split: option.splits ScanError.splits)
  have ve: "ss_valid_end (summary_of r fs e) = SEG_HEADER_SIZE + log_size ?rs"
    by (simp add: summary_of_def fs R(3) frames_end_frames_of [OF ok'] Let_def)
  have hdr: "read_header c ?file = Inr h"
    using R(7,8) r(2) by (simp add: read_header_def)
  have le: "SEG_HEADER_SIZE + log_size ?rs \<le> n"
    using whole_recs_size [of "n - SEG_HEADER_SIZE" rs] n by (simp add: m_def)
  have cut: "take (SEG_HEADER_SIZE + log_size ?rs) ?file = segment_image c h ?rs 0"
    using le take_log_image [of m rs c h k] by (simp add: min_def)
  have whole: "?file = segment_image c h ?rs 0"
    if "\<not> SEG_HEADER_SIZE + log_size ?rs < length ?file"
    using cut that by (metis not_less take_all)
  have prev: "(case ss_last_crc (summary_of r fs e) of Some x \<Rightarrow> ucast x | None \<Rightarrow> chain_seed c h) =
      chain_end c (chain_seed c h) ?rs"
    using summary_prev_crc [OF R(6)] by (simp only: fs)
  have count: "ss_frame_count (summary_of r fs e) = length ?rs"
    by (simp add: summary_of_def R(5) fs Let_def)
  have mono: "log_size ?rs \<le> log_size rs"
    by (metis append_take_drop_id le_add1 log_size_append)
  let ?f = "if ss_torn_tail (summary_of r fs e) \<or> ss_valid_end (summary_of r fs e) < length ?file
    then take (ss_valid_end (summary_of r fs e)) ?file else ?file"
  have cont: "?f = segment_image c h ?rs 0"
    unfolding ve using cut whole by presburger
  show ?thesis
    unfolding SegWriter_reopen_def r(1) sum.case s hdr Let_def
    unfolding cont prev unfolding ve count m_def [symmetric]
    using ok' mono size by (auto simp: writer_inv_def intro!: exI [of _ 0])
qed

lemma read_loop_image:
  assumes "\<forall>r\<in>set rs. rec_ok r" and "SegReader_open c (segment_image c h rs k) = Inr r" and "rd_header r = h"
  shows "read_loop c r = (frames_of c SEG_HEADER_SIZE rs, None)"
proof -
  note R = SegReader_open_inv [OF assms(2)]
  have "pending r = encode_log c (chain_seed c h) rs @ replicate k 0"
    by (simp add: R(2) segment_image_def)
  then show ?thesis
    using read_loop_scan_all [OF R(1), of c] R(3,4) assms(1,3) by (simp add: scan_all_log)
qed

lemma read_back:
  assumes "writer_inv c w rs"
  shows "\<exists>r. SegReader_open c (sw_file w) = Inr r \<and> rd_header r = sw_header w \<and>
           read_loop c r = (frames_of c SEG_HEADER_SIZE rs, None)"
proof -
  from assms obtain k where k: "sw_file w = segment_image c (sw_header w) rs k"
    by (auto simp: writer_inv_def)
  have "SEG_HEADER_SIZE \<le> SEG_HEADER_SIZE + log_size rs + k" by linarith
  then obtain r where "SegReader_open c (take (SEG_HEADER_SIZE + log_size rs + k) (sw_file w)) = Inr r"
    "rd_header r = sw_header w"
    unfolding k by (rule open_image_cut)
  then show ?thesis
    using assms read_loop_image [of rs c "sw_header w" k r] by (auto simp: k writer_inv_def)
qed

section \<open>Properties\<close>

text \<open>C13: A segment that was created, filled by any sequence of successful appends and sealed reads back,
  through the chunked streaming reader, as exactly the appended records, in order, at the offsets
  the appends returned, and ends cleanly.\<close>

theorem segment_write_read:
  assumes "SegWriter_create c now ex sid vid base sz pre = Inr w0" and "sz < 2 ^ 32"
    and "append_all c w0 rs = Some (w, ms)"
  shows "\<exists>r. SegReader_open c (sw_file (seal c w)) = Inr r \<and> is_sealed (rd_header r) \<and>
           read_loop c r = (frames_of c SEG_HEADER_SIZE rs, None) \<and>
           ms = map sf_meta (frames_of c SEG_HEADER_SIZE rs)"
proof -
  from append_all_inv [OF create_inv [OF assms(1,2)] assms(3)]
  have inv: "writer_inv c w rs" and ms: "ms = map sf_meta (frames_of c SEG_HEADER_SIZE rs)"
    by auto
  have "is_sealed (sw_header (seal c w))"
    using seal_flag [of "sh_flags (sw_header w)"] by (auto simp: seal_def is_sealed_def Let_def)
  with read_back [OF seal_inv [OF inv]] ms show ?thesis by auto
qed

lemma append_all_demo:
  "\<exists>w0 w ms. SegWriter_create c 5 False 1 2 3 200 True = Inr w0 \<and>
     append_all c w0 [(Data, 0, 3, [7, 8]), (Delete, 1, 4, [9])] = Some (w, ms)"
  by (simp add: SegWriter_create_def SegWriter_append_def sw_remaining_def is_sealed_def
      put_frame_def encode_frame_eq Let_def)

theorem segment_write_read_witness:
  "\<exists>w0 w ms r. SegWriter_create sum_crc 5 False 1 2 3 200 True = Inr w0 \<and>
     append_all sum_crc w0 [(Data, 0, 3, [7, 8]), (Delete, 1, 4, [9])] = Some (w, ms) \<and>
     SegReader_open sum_crc (sw_file (seal sum_crc w)) = Inr r \<and>
     map sf_payload (fst (read_loop sum_crc r)) = [[7, 8], [9]] \<and> map fm_offset ms = [68, 96]"
proof -
  obtain w0 w ms where w: "SegWriter_create sum_crc 5 False 1 2 3 200 True = Inr w0"
    "append_all sum_crc w0 [(Data, 0, 3, [7, 8]), (Delete, 1, 4, [9])] = Some (w, ms)"
    using append_all_demo by blast
  obtain r where "SegReader_open sum_crc (sw_file (seal sum_crc w)) = Inr r"
    "map sf_payload (fst (read_loop sum_crc r)) = [[7, 8], [9]]" "map fm_offset ms = [68, 96]"
    using segment_write_read [OF w(1) _ w(2)] by auto
  with w show ?thesis by (intro exI conjI)
qed

text \<open>C12: Crash recovery of a segment. When a crash leaves any prefix of the file that still holds the
  header, reopening succeeds and keeps exactly the records that are whole in the prefix; appends
  made after the reopening continue the same chain, and reading the file then returns the surviving
  records followed by the new ones.\<close>

theorem segment_crash_reopen:
  assumes "SegWriter_create c now ex sid vid base sz pre = Inr w0" and "sz < 2 ^ 32"
    and "append_all c w0 rs = Some (w, ms)" and "SEG_HEADER_SIZE \<le> n"
    and "k = whole_recs (n - SEG_HEADER_SIZE) rs"
  shows "\<exists>w1 s. SegWriter_reopen c (take n (sw_file w)) sz = Inr (w1, s) \<and> ss_frame_count s = k \<and>
     (\<forall>rs' w2 ms'. append_all c w1 rs' = Some (w2, ms') \<longrightarrow>
        (\<exists>r. SegReader_open c (sw_file w2) = Inr r \<and>
             read_loop c r = (frames_of c SEG_HEADER_SIZE (take k rs @ rs'), None)))"
proof -
  from append_all_inv [OF create_inv [OF assms(1,2)] assms(3)]
  have inv: "writer_inv c w rs" by auto
  then obtain z where img: "sw_file w = segment_image c (sw_header w) rs z"
    by (auto simp: writer_inv_def)
  have sz: "sw_seg_size w = sz"
    using append_all_seg_size [OF assms(3)] assms(1)
    by (auto simp: SegWriter_create_def Let_def split: if_splits)
  obtain w1 s where w1: "SegWriter_reopen c (take n (sw_file w)) sz = Inr (w1, s)"
    "writer_inv c w1 (take k rs)"
    using reopen_image_cut [of rs n sz c "sw_header w" z] inv assms(2,4,5) sz img
    by (auto simp: writer_inv_def)
  have "ss_frame_count s = sw_frame_count w1"
    using w1(1) by (auto simp: SegWriter_reopen_def Let_def split: sum.splits)
  then have "ss_frame_count s = k"
    using w1(2) whole_recs_le [of "n - SEG_HEADER_SIZE" rs] assms(5) by (simp add: writer_inv_def)
  moreover have "\<exists>r. SegReader_open c (sw_file w2) = Inr r \<and>
      read_loop c r = (frames_of c SEG_HEADER_SIZE (take k rs @ rs'), None)"
    if "append_all c w1 rs' = Some (w2, ms')" for rs' w2 ms'
    using append_all_inv [OF w1(2) that] read_back by blast
  ultimately show ?thesis using w1(1) by blast
qed

theorem segment_crash_reopen_witness:
  "\<exists>w0 w ms w1 s r. SegWriter_create sum_crc 5 False 1 2 3 200 True = Inr w0 \<and>
     append_all sum_crc w0 [(Data, 0, 3, [7, 8]), (Delete, 1, 4, [9])] = Some (w, ms) \<and>
     SegWriter_reopen sum_crc (take 100 (sw_file w)) 200 = Inr (w1, s) \<and> ss_frame_count s = 1 \<and>
     SegReader_open sum_crc (sw_file w1) = Inr r \<and> map sf_payload (fst (read_loop sum_crc r)) = [[7, 8]]"
proof -
  obtain w0 w ms where w: "SegWriter_create sum_crc 5 False 1 2 3 200 True = Inr w0"
    "append_all sum_crc w0 [(Data, 0, 3, [7, 8]), (Delete, 1, 4, [9])] = Some (w, ms)"
    using append_all_demo by blast
  obtain w1 s where s: "SegWriter_reopen sum_crc (take 100 (sw_file w)) 200 = Inr (w1, s)"
    "ss_frame_count s = 1"
    "\<forall>rs' w2 ms'. append_all sum_crc w1 rs' = Some (w2, ms') \<longrightarrow>
        (\<exists>r. SegReader_open sum_crc (sw_file w2) = Inr r \<and>
             read_loop sum_crc r = (frames_of sum_crc SEG_HEADER_SIZE ([(Data, 0, 3, [7, 8])] @ rs'), None))"
    using segment_crash_reopen [OF w(1) _ w(2), of 100 1] by auto
  obtain r where "SegReader_open sum_crc (sw_file w1) = Inr r"
    "map sf_payload (fst (read_loop sum_crc r)) = [[7, 8]]"
    using s(3) [rule_format, of "[]" w1 "[]"] by auto
  with w s(1,2) show ?thesis by (intro exI conjI)
qed

text \<open>C31: In a preallocated segment a torn append is not seen as a torn tail: the header of the
  interrupted frame is followed by the zeros of the preallocation, so the scan finds a complete frame
  with a wrong checksum, and reopening fails with a corruption error instead of truncating.\<close>

theorem preallocated_torn_append_is_corrupt:
  assumes "\<forall>r\<in>set rs. rec_ok r" and "length pl < 2 ^ 32"
    and "m < length pl" and "length pl \<le> m + z"
    and "crc = compute_frame_crc c (to_u8 t) f l pl"
    and "crc' = compute_frame_crc c (to_u8 t) f l (take m pl @ replicate (length pl - m) 0)"
    and "crc \<noteq> crc'"
    and "n = SEG_HEADER_SIZE + log_size rs + FRAME_HEADER_SIZE + m"
  shows "SegWriter_reopen c (take n (segment_image c h (rs @ [(t, f, l, pl)]) 0) @ replicate z 0) sz =
           Inl (Scan (ScanCorrupt (CrcMismatch l crc crc')))"
proof -
  let ?p = "chain_end c (chain_seed c h) rs"
  let ?tail = "header_bytes (frame_header_of c ?p t f l pl) @ take m pl @ replicate z 0"
  let ?file = "take n (segment_image c h (rs @ [(t, f, l, pl)]) 0) @ replicate z 0"
  have image: "?file = SegmentHeader_encode c h @ encode_log c (chain_seed c h) rs @ ?tail"
    using assms(8) by (simp add: segment_image_def encode_log_append encode_frame_eq)
  have len: "unat (of_nat (length pl) :: u32) = length pl" using assms(2) by simp
  have pay: "subslice FRAME_HEADER_SIZE (FRAME_HEADER_SIZE + length pl) ?tail =
      take m pl @ replicate (length pl - m) 0"
    using assms(3,4) by (simp add: subslice_def min_def)
  have torn: "scan_one c ?tail ?p = Corrupt (CrcMismatch l crc crc')"
    using assms(3-7) by (simp add: scan_one_def decode_header_bytes total_size_def len Let_def pay)
  obtain r where r: "SegReader_open c ?file = Inr r" "rd_header r = h"
    using SegReader_open_Inr [of ?file c h] SegmentHeader_decode_encode [of c h "[]"]
    unfolding image by auto
  note R = SegReader_open_inv [OF r(1)]
  have "pending r = encode_log c (chain_seed c h) rs @ ?tail"
    unfolding R(2) image by simp
  with assms(1) torn have "snd (scan_all c (pending r) (rd_buf_start r) (rd_prev_crc r)) =
      Some (ScanCorrupt (CrcMismatch l crc crc'))"
    using R(3,4) r(2) by (simp add: scan_all_log scan_all.simps [of c ?tail])
  then show ?thesis
    using r(1) scan_summary_scan_all [OF R(1), of c]
    by (simp add: SegWriter_reopen_def split: prod.splits)
qed

lemma sum_crc_demo:
  "sum_crc ([1] @ [0] @ u64_le 3 @ [7, 8]) = 19" "sum_crc ([1] @ [0] @ u64_le 3 @ [7, 0]) = 11"
  by code_simp+

theorem preallocated_torn_append_is_corrupt_witness:
  "SegWriter_reopen sum_crc
     (take (68 + 26 + 1) (segment_image sum_crc \<lparr>sh_seg_id = 1, sh_volume_id = 2, sh_base_lsn = 3,
        sh_created_ts = 5, sh_flags = 0\<rparr> ([] @ [(Data, 0, 3, [7, 8])]) 0) @ replicate 50 0) 200 =
   Inl (Scan (ScanCorrupt (CrcMismatch 3 19 11)))"
  by (rule preallocated_torn_append_is_corrupt [where m = 1])
    (use sum_crc_demo in \<open>simp_all add: compute_frame_crc_def\<close>)

end
