(* ===== verification/Wal_Index.thy ===== *)
theory Wal_Index
  imports Wal_Frame
begin

text \<open>
  The in-memory index of the log (\<^verbatim>\<open>powerfs-core/src/wal/index.rs\<close>): the live needles, the
  tombstones, the ledger of dead copies, the space statistics and the purge markers, with one
  definition per \<^verbatim>\<open>apply_*\<close> operation. Statistics are 64-bit words with the arithmetic the source
  uses (\<^verbatim>\<open>-=\<close> wraps, \<^verbatim>\<open>saturating_sub\<close> does not). The lemmas show that the statistics always agree
  with the contents (the source's invariant I4), that the index refines one small automaton per
  needle, and that replaying a log over the index it built changes nothing.
\<close>

section \<open>State\<close>

abbreviation NEEDLE_FLAG_MIGRATED :: u32 where "NEEDLE_FLAG_MIGRATED \<equiv> 0x01"

record NeedleEntry =
  ne_needle_id :: u64
  ne_seg_id :: u64
  ne_offset :: u64
  ne_data_len :: u32
  ne_crc :: u32
  ne_version_lsn :: u64
  ne_created_at :: i64
  ne_flags :: u32

record TombstoneEntry =
  te_needle_id :: u64
  te_seg_id :: u64
  te_offset :: u64
  te_data_len :: u32
  te_crc :: u32
  te_version_lsn :: u64
  te_deleted_at :: i64
  te_retention_until :: i64

record IndexStats =
  used_bytes :: u64
  staging_bytes :: u64
  garbage_bytes :: u64
  pinned_bytes :: u64
  active_count :: u64
  deleted_count :: u64

record DeadCopy =
  dc_seg_id :: u64
  dc_offset :: u64
  dc_data_len :: u32
  dc_crc :: u32
  dc_version_lsn :: u64

datatype IndexError = ShortPayload string nat

record WalIndex =
  needles :: "(u64, NeedleEntry) hmap"
  tombstones :: "(u64, TombstoneEntry) hmap"
  dead_copies :: "DeadCopy list"
  stats :: IndexStats
  last_lsn :: u64
  max_needle_id :: u64
  last_ckpt_anchor :: "(u64 \<times> u64) option"
  purged :: "(u64, u64) hmap"
  volume_size :: u64

definition stats_zero :: IndexStats where
  "stats_zero = \<lparr>used_bytes = 0, staging_bytes = 0, garbage_bytes = 0, pinned_bytes = 0,
                active_count = 0, deleted_count = 0\<rparr>"

definition WalIndex_new :: WalIndex where
  "WalIndex_new = \<lparr>needles = [], tombstones = [], dead_copies = [], stats = stats_zero, last_lsn = 0,
                   max_needle_id = 0, last_ckpt_anchor = None, purged = [], volume_size = 0\<rparr>"

definition lookup :: "WalIndex \<Rightarrow> u64 \<Rightarrow> NeedleEntry option" where
  "lookup idx needle_id = hm_get (needles idx) needle_id"

definition tombstone_of :: "WalIndex \<Rightarrow> u64 \<Rightarrow> TombstoneEntry option" where
  "tombstone_of idx needle_id = hm_get (tombstones idx) needle_id"

section \<open>Operations\<close>

text \<open>Shared steps of the operations: the cursors, and the ledger entry of a superseded copy.\<close>

definition bump_lsn :: "u64 \<Rightarrow> WalIndex \<Rightarrow> WalIndex" where
  "bump_lsn lsn idx = (if lsn > last_lsn idx then idx\<lparr>last_lsn := lsn\<rparr> else idx)"

definition bump_needle :: "u64 \<Rightarrow> WalIndex \<Rightarrow> WalIndex" where
  "bump_needle needle_id idx =
     (if needle_id > max_needle_id idx then idx\<lparr>max_needle_id := needle_id\<rparr> else idx)"

definition dead_of_needle :: "NeedleEntry \<Rightarrow> DeadCopy" where
  "dead_of_needle e = \<lparr>dc_seg_id = ne_seg_id e, dc_offset = ne_offset e, dc_data_len = ne_data_len e,
                       dc_crc = ne_crc e, dc_version_lsn = ne_version_lsn e\<rparr>"

definition dead_of_tomb :: "TombstoneEntry \<Rightarrow> DeadCopy" where
  "dead_of_tomb e = \<lparr>dc_seg_id = te_seg_id e, dc_offset = te_offset e, dc_data_len = te_data_len e,
                     dc_crc = te_crc e, dc_version_lsn = te_version_lsn e\<rparr>"

text \<open>The tombstone's copy moves from staging to the dead-copy ledger.\<close>

definition bury_tomb :: "u64 \<Rightarrow> TombstoneEntry \<Rightarrow> WalIndex \<Rightarrow> WalIndex" where
  "bury_tomb needle_id tb idx =
     idx\<lparr>tombstones := hm_remove needle_id (tombstones idx),
         dead_copies := dead_copies idx @ [dead_of_tomb tb],
         stats := (stats idx)\<lparr>deleted_count := deleted_count (stats idx) - 1,
                              staging_bytes := staging_bytes (stats idx) - ucast (te_data_len tb),
                              garbage_bytes := garbage_bytes (stats idx) + ucast (te_data_len tb)\<rparr>\<rparr>"

definition insert_fresh :: "NeedleEntry \<Rightarrow> WalIndex \<Rightarrow> WalIndex" where
  "insert_fresh entry idx =
     idx\<lparr>needles := hm_insert (ne_needle_id entry) entry (needles idx),
         stats := (stats idx)\<lparr>used_bytes := used_bytes (stats idx) + ucast (ne_data_len entry),
                              active_count := active_count (stats idx) + 1\<rparr>\<rparr>"

definition overwrite :: "NeedleEntry \<Rightarrow> NeedleEntry \<Rightarrow> WalIndex \<Rightarrow> WalIndex" where
  "overwrite old entry idx =
     idx\<lparr>needles := hm_insert (ne_needle_id entry) entry (needles idx),
         dead_copies := dead_copies idx @ [dead_of_needle old],
         stats := (stats idx)\<lparr>garbage_bytes := garbage_bytes (stats idx) + ucast (ne_data_len old),
                              used_bytes := saturating_add
                                (saturating_sub (used_bytes (stats idx)) (ucast (ne_data_len old)))
                                (ucast (ne_data_len entry))\<rparr>\<rparr>"

text \<open>The part of \<^verbatim>\<open>apply_data\<close> after the purge check.\<close>

definition put_data :: "NeedleEntry \<Rightarrow> WalIndex \<Rightarrow> WalIndex" where
  "put_data entry idx =
     (let id = ne_needle_id entry; lsn = ne_version_lsn entry in
      if (\<exists>cur\<in>set_option (hm_get (needles idx) id). lsn \<le> ne_version_lsn cur) then idx
      else if (\<exists>tb\<in>set_option (hm_get (tombstones idx) id). lsn \<le> te_version_lsn tb) then idx
      else
        (case hm_get (tombstones idx) id of
           Some tb \<Rightarrow> insert_fresh entry (bury_tomb id tb idx)
         | None \<Rightarrow>
             (case hm_get (needles idx) id of
                None \<Rightarrow> insert_fresh entry idx
              | Some old \<Rightarrow> overwrite old entry idx)))"

definition data_effect :: "NeedleEntry \<Rightarrow> WalIndex \<Rightarrow> WalIndex" where
  "data_effect entry idx0 =
     (let id = ne_needle_id entry; lsn = ne_version_lsn entry;
          idx = bump_lsn lsn (bump_needle id idx0)
      in case hm_get (purged idx) id of
           Some purge_lsn \<Rightarrow>
             if lsn \<le> purge_lsn then idx
             else put_data entry (idx\<lparr>purged := hm_remove id (purged idx)\<rparr>)
         | None \<Rightarrow> put_data entry idx)"

definition apply_data ::
  "WalIndex \<Rightarrow> u64 \<Rightarrow> u64 \<Rightarrow> u32 \<Rightarrow> u64 \<Rightarrow> bytes \<Rightarrow> i64 \<Rightarrow> IndexError + WalIndex" where
  "apply_data idx seg_id frame_offset frame_crc lsn payload now =
     (if length payload < 12 then Inl (ShortPayload ''DATA'' (length payload))
      else
        (let needle_id = of_le (subslice 0 8 payload);
             data_len = of_le (subslice 8 12 payload) :: u32
         in if length payload \<noteq> 12 + unat data_len then Inl (ShortPayload ''DATA'' (length payload))
            else Inr (data_effect
              \<lparr>ne_needle_id = needle_id, ne_seg_id = seg_id,
               ne_offset = frame_offset + of_nat FRAME_HEADER_SIZE, ne_data_len = data_len,
               ne_crc = frame_crc, ne_version_lsn = lsn, ne_created_at = now, ne_flags = 0\<rparr> idx)))"

definition delete_effect :: "u64 \<Rightarrow> u64 \<Rightarrow> i64 \<Rightarrow> i64 \<Rightarrow> WalIndex \<Rightarrow> WalIndex" where
  "delete_effect frame_lsn needle_id deleted_at retention_until idx0 =
     (let idx = bump_lsn frame_lsn idx0 in
      if (\<exists>tb\<in>set_option (hm_get (tombstones idx) needle_id). frame_lsn \<le> te_version_lsn tb) then idx
      else if (\<exists>cur\<in>set_option (hm_get (needles idx) needle_id). frame_lsn \<le> ne_version_lsn cur) then idx
      else
        (case hm_get (needles idx) needle_id of
           None \<Rightarrow> idx
         | Some active \<Rightarrow>
             idx\<lparr>needles := hm_remove needle_id (needles idx),
                 stats := (stats idx)\<lparr>used_bytes := used_bytes (stats idx) - ucast (ne_data_len active),
                                      active_count := active_count (stats idx) - 1,
                                      staging_bytes := staging_bytes (stats idx) + ucast (ne_data_len active),
                                      deleted_count := deleted_count (stats idx) + 1\<rparr>,
                 tombstones := hm_insert needle_id
                   \<lparr>te_needle_id = needle_id, te_seg_id = ne_seg_id active,
                    te_offset = ne_offset active, te_data_len = ne_data_len active,
                    te_crc = ne_crc active, te_version_lsn = frame_lsn,
                    te_deleted_at = deleted_at, te_retention_until = retention_until\<rparr>
                   (tombstones idx)\<rparr>))"

definition apply_delete :: "WalIndex \<Rightarrow> u64 \<Rightarrow> bytes \<Rightarrow> IndexError + WalIndex" where
  "apply_delete idx frame_lsn payload =
     (if length payload \<noteq> 24 then Inl (ShortPayload ''DELETE'' (length payload))
      else Inr (delete_effect frame_lsn (of_le (subslice 0 8 payload)) (of_le (subslice 8 16 payload))
                  (of_le (subslice 16 24 payload)) idx))"

definition migrate_effect :: "NeedleEntry \<Rightarrow> u64 \<Rightarrow> WalIndex \<Rightarrow> WalIndex \<times> bool" where
  "migrate_effect entry expect_version idx0 =
     (let id = ne_needle_id entry; lsn = ne_version_lsn entry;
          idx = bump_needle id (bump_lsn lsn idx0)
      in if (\<exists>p\<in>set_option (hm_get (purged idx) id). lsn \<le> p) then (idx, False)
         else if hm_get (tombstones idx) id \<noteq> None then (idx, False)
         else
           (case hm_get (needles idx) id of
              None \<Rightarrow> (insert_fresh entry idx, True)
            | Some cur \<Rightarrow>
                if ne_version_lsn cur = expect_version then (overwrite cur entry idx, True)
                else (idx, False)))"

definition apply_gc_migrate ::
  "WalIndex \<Rightarrow> u64 \<Rightarrow> u64 \<Rightarrow> u32 \<Rightarrow> u64 \<Rightarrow> bytes \<Rightarrow> i64 \<Rightarrow> IndexError + WalIndex \<times> bool" where
  "apply_gc_migrate idx seg_id frame_offset frame_crc lsn payload now =
     (if length payload < 20 then Inl (ShortPayload ''GC_MIGRATE'' (length payload))
      else
        (let needle_id = of_le (subslice 0 8 payload);
             expect_version = of_le (subslice 8 16 payload);
             data_len = of_le (subslice 16 20 payload) :: u32
         in if length payload \<noteq> 20 + unat data_len
            then Inl (ShortPayload ''GC_MIGRATE'' (length payload))
            else Inr (migrate_effect
              \<lparr>ne_needle_id = needle_id, ne_seg_id = seg_id,
               ne_offset = frame_offset + of_nat FRAME_HEADER_SIZE, ne_data_len = data_len,
               ne_crc = frame_crc, ne_version_lsn = lsn, ne_created_at = now,
               ne_flags = NEEDLE_FLAG_MIGRATED\<rparr> expect_version idx)))"

text \<open>The comparison is with the stored anchor's \<^verbatim>\<open>applied_lsn\<close>, as the source has it.\<close>

definition apply_ckpt_anchor :: "WalIndex \<Rightarrow> u64 \<Rightarrow> u64 \<Rightarrow> u64 \<Rightarrow> WalIndex" where
  "apply_ckpt_anchor idx0 ckpt_seq applied_lsn frame_lsn =
     (let idx = bump_lsn frame_lsn idx0 in
      if (case last_ckpt_anchor idx of Some (_, l) \<Rightarrow> frame_lsn > l | None \<Rightarrow> True)
      then idx\<lparr>last_ckpt_anchor := Some (ckpt_seq, applied_lsn)\<rparr> else idx)"

definition set_volume_size :: "WalIndex \<Rightarrow> u64 \<Rightarrow> WalIndex" where
  "set_volume_size idx sz = idx\<lparr>volume_size := sz\<rparr>"

definition apply_volume_meta :: "WalIndex \<Rightarrow> u64 \<Rightarrow> bytes \<Rightarrow> IndexError + WalIndex \<times> u64" where
  "apply_volume_meta idx frame_lsn payload =
     (case VolumeMetaPayload_decode payload of
        Inl _ \<Rightarrow> Inl (ShortPayload ''volume_meta'' (length payload))
      | Inr parsed \<Rightarrow>
          (case take_volume_size parsed of
             None \<Rightarrow> Inl (ShortPayload ''volume_meta.size'' (length payload))
           | Some new_size \<Rightarrow> Inr (bump_lsn frame_lsn (idx\<lparr>volume_size := new_size\<rparr>), new_size)))"

definition advance_replay_cursor :: "WalIndex \<Rightarrow> u64 \<Rightarrow> WalIndex" where
  "advance_replay_cursor idx applied_lsn = idx\<lparr>last_lsn := max (last_lsn idx) applied_lsn\<rparr>"

definition restore :: "WalIndex \<Rightarrow> u64 \<Rightarrow> WalIndex" where
  "restore idx needle_id =
     (case hm_get (tombstones idx) needle_id of
        None \<Rightarrow> idx
      | Some tb \<Rightarrow>
          idx\<lparr>tombstones := hm_remove needle_id (tombstones idx),
              stats := (stats idx)\<lparr>deleted_count := deleted_count (stats idx) - 1,
                                   staging_bytes := staging_bytes (stats idx) - ucast (te_data_len tb),
                                   used_bytes := used_bytes (stats idx) + ucast (te_data_len tb),
                                   active_count := active_count (stats idx) + 1\<rparr>,
              needles := hm_insert needle_id
                \<lparr>ne_needle_id = te_needle_id tb, ne_seg_id = te_seg_id tb, ne_offset = te_offset tb,
                 ne_data_len = te_data_len tb, ne_crc = te_crc tb, ne_version_lsn = te_version_lsn tb,
                 ne_created_at = te_deleted_at tb, ne_flags = 0\<rparr> (needles idx)\<rparr>)"

text \<open>Times are \<^verbatim>\<open>i64\<close>: the comparison is the signed one.\<close>

definition expired_tombstones :: "WalIndex \<Rightarrow> i64 \<Rightarrow> TombstoneEntry list" where
  "expired_tombstones idx now = filter (\<lambda>tb. te_retention_until tb \<le>s now) (hm_values (tombstones idx))"

definition max_marker :: "u64 \<Rightarrow> u64 \<Rightarrow> (u64, u64) hmap \<Rightarrow> (u64, u64) hmap" where
  "max_marker needle_id lsn m =
     (let slot = (case hm_get m needle_id of Some l \<Rightarrow> l | None \<Rightarrow> 0)
      in hm_insert needle_id (if lsn > slot then lsn else slot) m)"

definition purge_effect :: "u64 \<Rightarrow> u64 \<Rightarrow> WalIndex \<Rightarrow> WalIndex" where
  "purge_effect frame_lsn needle_id idx0 =
     (let idx1 = bump_lsn frame_lsn idx0;
          idx2 = (case hm_get (tombstones idx1) needle_id of
                    Some tb \<Rightarrow> bury_tomb needle_id tb idx1 | None \<Rightarrow> idx1)
      in idx2\<lparr>purged := max_marker needle_id frame_lsn (purged idx2)\<rparr>)"

definition apply_tomb_purge :: "WalIndex \<Rightarrow> u64 \<Rightarrow> bytes \<Rightarrow> IndexError + WalIndex" where
  "apply_tomb_purge idx frame_lsn payload =
     (if length payload \<noteq> 16 then Inl (ShortPayload ''TOMB_PURGE'' (length payload))
      else Inr (purge_effect frame_lsn (of_le (subslice 0 8 payload)) idx))"

definition prune_purge_markers :: "WalIndex \<Rightarrow> u64 \<Rightarrow> WalIndex \<times> nat" where
  "prune_purge_markers idx min_surviving_base_lsn =
     (let kept = filter (\<lambda>(_, lsn). lsn \<ge> min_surviving_base_lsn) (purged idx)
      in (idx\<lparr>purged := kept\<rparr>, length (purged idx) - length kept))"

primrec purge_each :: "u64 list \<Rightarrow> WalIndex \<Rightarrow> WalIndex" where
  "purge_each [] idx = idx"
| "purge_each (n # ns) idx =
     purge_each ns (case hm_get (tombstones idx) n of Some tb \<Rightarrow> bury_tomb n tb idx | None \<Rightarrow> idx)"

definition purge_expired :: "WalIndex \<Rightarrow> i64 \<Rightarrow> WalIndex \<times> nat" where
  "purge_expired idx now =
     (let expired = map te_needle_id (expired_tombstones idx now)
      in (purge_each expired idx, length expired))"

text \<open>\<^verbatim>\<open>Iterator::sum\<close> over \<^verbatim>\<open>u64\<close>.\<close>

definition assert_consistent :: "WalIndex \<Rightarrow> bool" where
  "assert_consistent idx \<longleftrightarrow>
     used_bytes (stats idx) = (\<Sum>e\<leftarrow>hm_values (needles idx). ucast (ne_data_len e)) \<and>
     garbage_bytes (stats idx) = (\<Sum>d\<leftarrow>dead_copies idx. ucast (dc_data_len d)) \<and>
     staging_bytes (stats idx) = (\<Sum>e\<leftarrow>hm_values (tombstones idx). ucast (te_data_len e)) \<and>
     active_count (stats idx) = of_nat (length (needles idx)) \<and>
     deleted_count (stats idx) = of_nat (length (tombstones idx))"

definition load_needle :: "NeedleEntry \<Rightarrow> WalIndex \<Rightarrow> WalIndex" where
  "load_needle n idx =
     idx\<lparr>max_needle_id := max (max_needle_id idx) (ne_needle_id n),
         last_lsn := max (last_lsn idx) (ne_version_lsn n),
         stats := (stats idx)\<lparr>used_bytes := used_bytes (stats idx) + ucast (ne_data_len n),
                              active_count := active_count (stats idx) + 1\<rparr>,
         needles := hm_insert (ne_needle_id n) n (needles idx)\<rparr>"

definition load_tomb :: "TombstoneEntry \<Rightarrow> WalIndex \<Rightarrow> WalIndex" where
  "load_tomb t idx =
     idx\<lparr>last_lsn := max (last_lsn idx) (te_version_lsn t),
         stats := (stats idx)\<lparr>staging_bytes := staging_bytes (stats idx) + ucast (te_data_len t),
                              deleted_count := deleted_count (stats idx) + 1\<rparr>,
         tombstones := hm_insert (te_needle_id t) t (tombstones idx)\<rparr>"

definition load_dead :: "DeadCopy \<Rightarrow> WalIndex \<Rightarrow> WalIndex" where
  "load_dead d idx =
     idx\<lparr>stats := (stats idx)\<lparr>garbage_bytes := garbage_bytes (stats idx) + ucast (dc_data_len d)\<rparr>,
         dead_copies := dead_copies idx @ [d]\<rparr>"

definition load_marker :: "u64 \<times> u64 \<Rightarrow> WalIndex \<Rightarrow> WalIndex" where
  "load_marker m idx =
     idx\<lparr>last_lsn := max (last_lsn idx) (snd m), purged := max_marker (fst m) (snd m) (purged idx)\<rparr>"

definition load_from ::
  "WalIndex \<Rightarrow> NeedleEntry list \<Rightarrow> TombstoneEntry list \<Rightarrow> DeadCopy list \<Rightarrow> (u64 \<times> u64) list \<Rightarrow> WalIndex" where
  "load_from idx ns ts ds ps =
     fold load_marker ps (fold load_dead ds (fold load_tomb ts (fold load_needle ns idx)))"

definition remove_seg_garbage :: "WalIndex \<Rightarrow> u64 \<Rightarrow> WalIndex \<times> u64" where
  "remove_seg_garbage idx seg_id =
     (let reclaimed = (\<Sum>d\<leftarrow>filter (\<lambda>d. dc_seg_id d = seg_id) (dead_copies idx). ucast (dc_data_len d))
      in (idx\<lparr>dead_copies := filter (\<lambda>d. dc_seg_id d \<noteq> seg_id) (dead_copies idx),
              stats := (stats idx)\<lparr>garbage_bytes := saturating_sub (garbage_bytes (stats idx)) reclaimed\<rparr>\<rparr>,
          reclaimed))"

definition clone_state :: "WalIndex \<Rightarrow> NeedleEntry list \<times> TombstoneEntry list \<times> DeadCopy list" where
  "clone_state idx = (hm_values (needles idx), hm_values (tombstones idx), dead_copies idx)"

definition parse_data_header :: "bytes \<Rightarrow> (u64 \<times> u32) option" where
  "parse_data_header payload =
     (if length payload < 12 \<or> length payload \<noteq> 12 + unat (of_le (subslice 8 12 payload) :: u32) then None
      else Some (of_le (subslice 0 8 payload), of_le (subslice 8 12 payload)))"

section \<open>The invariant\<close>

abbreviation needle_len :: "NeedleEntry \<Rightarrow> nat" where "needle_len e \<equiv> unat (ne_data_len e)"
abbreviation tomb_len :: "TombstoneEntry \<Rightarrow> nat" where "tomb_len e \<equiv> unat (te_data_len e)"
abbreviation dead_len :: "DeadCopy \<Rightarrow> nat" where "dead_len d \<equiv> unat (dc_data_len d)"

definition index_wf :: "WalIndex \<Rightarrow> bool" where
  "index_wf idx \<longleftrightarrow>
     hm_wf (needles idx) \<and> hm_wf (tombstones idx) \<and> hm_wf (purged idx) \<and>
     (\<forall>k e. hm_get (needles idx) k = Some e \<longrightarrow> ne_needle_id e = k \<and> hm_get (tombstones idx) k = None) \<and>
     (\<forall>k e. hm_get (tombstones idx) k = Some e \<longrightarrow> te_needle_id e = k)"

text \<open>I4: each statistic is the exact, unwrapped sum over the contents.\<close>

definition stats_ok :: "WalIndex \<Rightarrow> bool" where
  "stats_ok idx \<longleftrightarrow>
     unat (used_bytes (stats idx)) = hm_sum needle_len (needles idx) \<and>
     unat (staging_bytes (stats idx)) = hm_sum tomb_len (tombstones idx) \<and>
     unat (garbage_bytes (stats idx)) = (\<Sum>d\<leftarrow>dead_copies idx. dead_len d) \<and>
     unat (active_count (stats idx)) = length (needles idx) \<and>
     unat (deleted_count (stats idx)) = length (tombstones idx)"

definition lsn_ok :: "WalIndex \<Rightarrow> bool" where
  "lsn_ok idx \<longleftrightarrow>
     (\<forall>k e. hm_get (needles idx) k = Some e \<longrightarrow> ne_version_lsn e \<le> last_lsn idx \<and> k \<le> max_needle_id idx) \<and>
     (\<forall>k e. hm_get (tombstones idx) k = Some e \<longrightarrow> te_version_lsn e \<le> last_lsn idx) \<and>
     (\<forall>k l. hm_get (purged idx) k = Some l \<longrightarrow> l \<le> last_lsn idx)"

definition index_inv :: "WalIndex \<Rightarrow> bool" where
  "index_inv idx \<longleftrightarrow> index_wf idx \<and> stats_ok idx \<and> lsn_ok idx"

definition index_bytes :: "WalIndex \<Rightarrow> nat" where
  "index_bytes idx = hm_sum needle_len (needles idx) + hm_sum tomb_len (tombstones idx) +
     (\<Sum>d\<leftarrow>dead_copies idx. dead_len d)"

definition index_count :: "WalIndex \<Rightarrow> nat" where
  "index_count idx = length (needles idx) + length (tombstones idx)"

text \<open>Room for \<open>n\<close> more bytes and one more entry without wrapping a 64-bit counter.\<close>

definition has_room :: "WalIndex \<Rightarrow> nat \<Rightarrow> bool" where
  "has_room idx n \<longleftrightarrow> index_bytes idx + n < 2 ^ 64 \<and> index_count idx + 1 < 2 ^ 64"

lemma index_inv_new [simp]: "index_inv WalIndex_new"
  by (simp add: index_inv_def index_wf_def stats_ok_def lsn_ok_def WalIndex_new_def stats_zero_def)

lemma index_bytes_new [simp]: "index_bytes WalIndex_new = 0" "index_count WalIndex_new = 0"
  by (simp_all add: index_bytes_def index_count_def WalIndex_new_def)

lemma bump_sel [simp]:
  "needles (bump_lsn l idx) = needles idx" "tombstones (bump_lsn l idx) = tombstones idx"
  "dead_copies (bump_lsn l idx) = dead_copies idx" "stats (bump_lsn l idx) = stats idx"
  "purged (bump_lsn l idx) = purged idx" "max_needle_id (bump_lsn l idx) = max_needle_id idx"
  "volume_size (bump_lsn l idx) = volume_size idx"
  "last_ckpt_anchor (bump_lsn l idx) = last_ckpt_anchor idx"
  "last_lsn (bump_lsn l idx) = max l (last_lsn idx)"
  "needles (bump_needle n idx) = needles idx" "tombstones (bump_needle n idx) = tombstones idx"
  "dead_copies (bump_needle n idx) = dead_copies idx" "stats (bump_needle n idx) = stats idx"
  "purged (bump_needle n idx) = purged idx" "last_lsn (bump_needle n idx) = last_lsn idx"
  "volume_size (bump_needle n idx) = volume_size idx"
  "last_ckpt_anchor (bump_needle n idx) = last_ckpt_anchor idx"
  "max_needle_id (bump_needle n idx) = max n (max_needle_id idx)"
  by (auto simp: bump_lsn_def bump_needle_def max_def)

lemma bump_inv [simp, inv_intros]:
  "index_inv idx \<Longrightarrow> index_inv (bump_lsn l idx)" "index_inv idx \<Longrightarrow> index_inv (bump_needle n idx)"
  by (auto simp: index_inv_def index_wf_def stats_ok_def lsn_ok_def le_max_iff_disj)

lemma bump_size [simp]:
  "index_bytes (bump_lsn l idx) = index_bytes idx" "index_count (bump_lsn l idx) = index_count idx"
  "index_bytes (bump_needle n idx) = index_bytes idx" "index_count (bump_needle n idx) = index_count idx"
  by (simp_all add: index_bytes_def index_count_def)

lemma purged_update_inv:
  "index_inv idx \<Longrightarrow> hm_wf p \<Longrightarrow> (\<And>k l. hm_get p k = Some l \<Longrightarrow> l \<le> last_lsn idx) \<Longrightarrow>
     index_inv (idx\<lparr>purged := p\<rparr>)"
  by (auto simp: index_inv_def index_wf_def stats_ok_def lsn_ok_def)

lemma purged_update_size [simp]:
  "index_bytes (idx\<lparr>purged := p\<rparr>) = index_bytes idx" "index_count (idx\<lparr>purged := p\<rparr>) = index_count idx"
  by (simp_all add: index_bytes_def index_count_def)

lemma bury_tomb_size:
  assumes "index_inv idx" and "hm_get (tombstones idx) n = Some tb"
  shows "index_bytes (bury_tomb n tb idx) = index_bytes idx"
    and "index_count (bury_tomb n tb idx) + 1 = index_count idx"
  using assms hm_sum_remove [of "tombstones idx" n tb tomb_len] length_remove [of "tombstones idx" n tb]
  by (auto simp: index_bytes_def index_count_def bury_tomb_def dead_of_tomb_def index_inv_def index_wf_def)

lemma bury_tomb_inv:
  assumes inv: "index_inv idx" and tb: "hm_get (tombstones idx) n = Some tb"
    and room: "index_bytes idx < 2 ^ 64"
  shows "index_inv (bury_tomb n tb idx)"
proof -
  have wf: "hm_wf (tombstones idx)" using inv by (simp add: index_inv_def index_wf_def)
  note S = hm_sum_remove [OF wf tb, of tomb_len] and L = length_remove [OF wf tb]
  have "stats_ok (bury_tomb n tb idx)"
    using inv S L room
    by (auto simp: stats_ok_def index_inv_def bury_tomb_def dead_of_tomb_def index_bytes_def
        unat_sub_u64 unat_add_u64)
  then show ?thesis
    using inv by (auto simp: index_inv_def index_wf_def lsn_ok_def bury_tomb_def)
qed

lemma insert_fresh_size:
  assumes "hm_get (needles idx) (ne_needle_id e) = None"
  shows "index_bytes (insert_fresh e idx) = index_bytes idx + needle_len e"
    and "index_count (insert_fresh e idx) = index_count idx + 1"
  using assms by (simp_all add: index_bytes_def index_count_def insert_fresh_def hm_sum_insert_new
      length_insert_new)

lemma insert_fresh_inv:
  assumes inv: "index_inv idx" and new: "hm_get (needles idx) (ne_needle_id e) = None"
    "hm_get (tombstones idx) (ne_needle_id e) = None"
    and lsn: "ne_version_lsn e \<le> last_lsn idx" "ne_needle_id e \<le> max_needle_id idx"
    and room: "index_bytes idx + needle_len e < 2 ^ 64" "index_count idx + 1 < 2 ^ 64"
  shows "index_inv (insert_fresh e idx)"
proof -
  have "stats_ok (insert_fresh e idx)"
    using inv new room
    by (auto simp: stats_ok_def index_inv_def insert_fresh_def index_bytes_def index_count_def
        hm_sum_insert_new length_insert_new unat_add_u64)
  then show ?thesis
    using inv new lsn by (auto simp: index_inv_def index_wf_def lsn_ok_def insert_fresh_def)
qed

lemma overwrite_size:
  assumes "hm_get (needles idx) (ne_needle_id e) = Some old"
  shows "index_bytes (overwrite old e idx) = index_bytes idx + needle_len e"
    and "index_count (overwrite old e idx) = index_count idx"
  using assms hm_sum_insert_old [OF assms, of needle_len e]
  by (simp_all add: index_bytes_def index_count_def overwrite_def dead_of_needle_def length_insert_old)

lemma overwrite_inv:
  assumes inv: "index_inv idx" and old: "hm_get (needles idx) (ne_needle_id e) = Some old"
    and lsn: "ne_version_lsn e \<le> last_lsn idx" "ne_needle_id e \<le> max_needle_id idx"
    and room: "index_bytes idx + needle_len e < 2 ^ 64"
  shows "index_inv (overwrite old e idx)"
proof -
  note S = hm_sum_insert_old [OF old, of needle_len e] and G = hm_sum_get_le [OF old, of needle_len]
  have "stats_ok (overwrite old e idx)"
    using inv old room S G
    by (auto simp: stats_ok_def index_inv_def overwrite_def dead_of_needle_def index_bytes_def
        length_insert_old unat_add_u64 unat_saturating_add unat_saturating_sub)
  then show ?thesis
    using inv old lsn by (auto simp: index_inv_def index_wf_def lsn_ok_def overwrite_def)
qed

text \<open>How an operation may grow the index: at most \<open>n\<close> bytes and one entry.\<close>

definition grows :: "nat \<Rightarrow> WalIndex \<Rightarrow> WalIndex \<Rightarrow> bool" where
  "grows n idx idx' \<longleftrightarrow> index_bytes idx' \<le> index_bytes idx + n \<and> index_count idx' \<le> index_count idx + 1"

lemma grows_refl [simp]: "grows n idx idx"
  by (simp add: grows_def)

lemma index_inv_disjoint:
  "index_inv idx \<Longrightarrow> hm_get (tombstones idx) k = Some tb \<Longrightarrow> hm_get (needles idx) k = None"
  by (cases "hm_get (needles idx) k") (auto simp: index_inv_def index_wf_def)

lemma put_data_inv:
  assumes inv: "index_inv idx" and room: "has_room idx (needle_len e)"
    and lsn: "ne_version_lsn e \<le> last_lsn idx" "ne_needle_id e \<le> max_needle_id idx"
  shows "index_inv (put_data e idx) \<and> grows (needle_len e) idx (put_data e idx)"
proof -
  let ?n = "ne_needle_id e"
  have revive: "index_inv (insert_fresh e (bury_tomb ?n tb idx)) \<and>
      grows (needle_len e) idx (insert_fresh e (bury_tomb ?n tb idx))"
    if tb: "hm_get (tombstones idx) ?n = Some tb" for tb
  proof -
    let ?b = "bury_tomb ?n tb idx"
    have none: "hm_get (needles ?b) ?n = None" "hm_get (tombstones ?b) ?n = None"
      using index_inv_disjoint [OF inv tb] by (simp_all add: bury_tomb_def)
    note B = bury_tomb_size [OF inv tb] bury_tomb_inv [OF inv tb]
    have "index_inv (insert_fresh e ?b)"
      by (rule insert_fresh_inv) (use B none room lsn in \<open>auto simp: has_room_def bury_tomb_def\<close>)
    then show ?thesis
      using insert_fresh_size [OF none(1)] B(1,2) by (simp add: grows_def)
  qed
  have fresh: "index_inv (insert_fresh e idx) \<and> grows (needle_len e) idx (insert_fresh e idx)"
    if "hm_get (tombstones idx) ?n = None" "hm_get (needles idx) ?n = None"
    using insert_fresh_inv [OF inv that(2,1) lsn] insert_fresh_size [OF that(2)] room
    by (simp add: grows_def has_room_def)
  have over: "index_inv (overwrite old e idx) \<and> grows (needle_len e) idx (overwrite old e idx)"
    if "hm_get (needles idx) ?n = Some old" for old
    using overwrite_inv [OF inv that lsn] overwrite_size [OF that] room
    by (simp add: grows_def has_room_def)
  show ?thesis
    using inv revive fresh over
    by (auto simp: put_data_def Let_def split: option.split)
qed

lemma index_inv_purged: "index_inv idx \<Longrightarrow> hm_get (purged idx) k = Some l \<Longrightarrow> l \<le> last_lsn idx"
  by (simp add: index_inv_def lsn_ok_def)

lemma data_effect_inv [inv_intros]:
  assumes "index_inv idx" and "has_room idx (needle_len e)"
  shows "index_inv (data_effect e idx) \<and> grows (needle_len e) idx (data_effect e idx)"
proof -
  let ?i = "bump_lsn (ne_version_lsn e) (bump_needle (ne_needle_id e) idx)"
  let ?j = "?i\<lparr>purged := hm_remove (ne_needle_id e) (purged ?i)\<rparr>"
  have i: "index_inv ?i" using assms(1) by simp
  have wf: "hm_wf (purged ?i)" using i by (simp only: index_inv_def index_wf_def)
  have j: "index_inv ?j"
    by (rule purged_update_inv [OF i]) (use wf index_inv_purged [OF i] in \<open>auto split: if_splits\<close>)
  have "index_inv (put_data e ?i) \<and> grows (needle_len e) ?i (put_data e ?i)"
    by (rule put_data_inv [OF i]) (use assms(2) in \<open>simp_all add: has_room_def\<close>)
  moreover have "index_inv (put_data e ?j) \<and> grows (needle_len e) ?j (put_data e ?j)"
    by (rule put_data_inv [OF j]) (use assms(2) in \<open>simp_all add: has_room_def\<close>)
  ultimately show ?thesis
    using i by (auto simp: data_effect_def Let_def grows_def split: option.split)
qed

lemma delete_effect_inv [inv_intros]:
  assumes inv: "index_inv idx" and room: "has_room idx 0"
  shows "index_inv (delete_effect l n at until idx) \<and> grows 0 idx (delete_effect l n at until idx)"
proof -
  let ?i = "bump_lsn l idx"
  have i: "index_inv ?i" using inv by simp
  show ?thesis
  proof (cases "delete_effect l n at until idx = ?i")
    case True
    then show ?thesis using i by (simp add: grows_def)
  next
    case False
    then obtain act where act: "hm_get (needles idx) n = Some act"
      and eff: "delete_effect l n at until idx =
        ?i\<lparr>needles := hm_remove n (needles idx),
           stats := (stats idx)\<lparr>used_bytes := used_bytes (stats idx) - ucast (ne_data_len act),
             active_count := active_count (stats idx) - 1,
             staging_bytes := staging_bytes (stats idx) + ucast (ne_data_len act),
             deleted_count := deleted_count (stats idx) + 1\<rparr>,
           tombstones := hm_insert n
             \<lparr>te_needle_id = n, te_seg_id = ne_seg_id act, te_offset = ne_offset act,
              te_data_len = ne_data_len act, te_crc = ne_crc act, te_version_lsn = l,
              te_deleted_at = at, te_retention_until = until\<rparr> (tombstones idx)\<rparr>"
      by (auto simp: delete_effect_def Let_def split: if_splits option.splits)
    have wf: "hm_wf (needles idx)" and no_tomb: "hm_get (tombstones idx) n = None"
      using inv act by (auto simp: index_inv_def index_wf_def)
    note S = hm_sum_remove [OF wf act, of needle_len] and L = length_remove [OF wf act]
    have "stats_ok (delete_effect l n at until idx)"
      using inv room S L no_tomb unfolding eff
      by (auto simp: stats_ok_def index_inv_def has_room_def index_bytes_def index_count_def
          hm_sum_insert_new length_insert_new unat_sub_u64 unat_add_u64)
    moreover have "index_wf (delete_effect l n at until idx)" "lsn_ok (delete_effect l n at until idx)"
      using inv no_tomb unfolding eff
      by (auto simp: index_inv_def index_wf_def lsn_ok_def le_max_iff_disj)
    moreover have "grows 0 idx (delete_effect l n at until idx)"
      using S L no_tomb unfolding eff
      by (simp add: grows_def index_bytes_def index_count_def hm_sum_insert_new length_insert_new)
    ultimately show ?thesis by (simp add: index_inv_def)
  qed
qed

lemma migrate_effect_inv [inv_intros]:
  assumes "index_inv idx" and "has_room idx (needle_len e)"
  shows "index_inv (fst (migrate_effect e v idx)) \<and> grows (needle_len e) idx (fst (migrate_effect e v idx))"
proof -
  let ?i = "bump_needle (ne_needle_id e) (bump_lsn (ne_version_lsn e) idx)"
  have i: "index_inv ?i" using assms(1) by simp
  have lsn: "ne_version_lsn e \<le> last_lsn ?i" "ne_needle_id e \<le> max_needle_id ?i" by simp_all
  have "index_inv (insert_fresh e ?i) \<and> grows (needle_len e) ?i (insert_fresh e ?i)"
    if "hm_get (tombstones ?i) (ne_needle_id e) = None" "hm_get (needles ?i) (ne_needle_id e) = None"
    using insert_fresh_inv [OF i that(2,1) lsn] insert_fresh_size [OF that(2)] assms(2)
    by (simp add: grows_def has_room_def)
  moreover have "index_inv (overwrite old e ?i) \<and> grows (needle_len e) ?i (overwrite old e ?i)"
    if "hm_get (needles ?i) (ne_needle_id e) = Some old" for old
    using overwrite_inv [OF i that lsn] overwrite_size [OF that] assms(2)
    by (simp add: grows_def has_room_def)
  ultimately show ?thesis
    using i by (auto simp: migrate_effect_def Let_def grows_def split: option.split)
qed

lemma max_marker_get [simp]:
  "hm_get (max_marker n l m) =
     (hm_get m)(n \<mapsto> max l (case hm_get m n of Some x \<Rightarrow> x | None \<Rightarrow> 0))"
  by (auto simp: max_marker_def Let_def max_def split: option.split)

lemma max_marker_wf [simp, intro]: "hm_wf m \<Longrightarrow> hm_wf (max_marker n l m)"
  by (simp add: max_marker_def Let_def)

lemma bury_tomb_sel [simp]:
  "needles (bury_tomb n tb idx) = needles idx" "purged (bury_tomb n tb idx) = purged idx"
  "last_lsn (bury_tomb n tb idx) = last_lsn idx" "max_needle_id (bury_tomb n tb idx) = max_needle_id idx"
  "tombstones (bury_tomb n tb idx) = hm_remove n (tombstones idx)"
  by (simp_all add: bury_tomb_def)

lemma purge_effect_inv [inv_intros]:
  assumes inv: "index_inv idx" and room: "has_room idx 0"
  shows "index_inv (purge_effect l n idx) \<and> grows 0 idx (purge_effect l n idx)"
proof -
  let ?i = "bump_lsn l idx"
  let ?j = "case hm_get (tombstones ?i) n of Some tb \<Rightarrow> bury_tomb n tb ?i | None \<Rightarrow> ?i"
  have i: "index_inv ?i" using inv by simp
  have j: "index_inv ?j" "grows 0 idx ?j" "last_lsn ?j = last_lsn ?i" "purged ?j = purged idx"
    using bury_tomb_inv [OF i] bury_tomb_size [OF i] i room
    by (auto simp: grows_def has_room_def split: option.split) (metis Suc_leD le_SucI le_refl)
  have wf: "hm_wf (purged idx)" using inv by (simp add: index_inv_def index_wf_def)
  have le: "x \<le> max l (last_lsn idx)" if "hm_get (purged idx) k = Some x" for k x
    using index_inv_purged [OF inv that] by (simp add: max.coboundedI2)
  have "index_inv (?j\<lparr>purged := max_marker n l (purged ?j)\<rparr>)"
    by (rule purged_update_inv [OF j(1)], unfold j(3,4))
      (use wf le in \<open>auto split: if_splits option.splits\<close>)
  then show ?thesis
    using j(2) by (simp add: purge_effect_def Let_def grows_def)
qed

lemma restore_inv [inv_intros]:
  assumes inv: "index_inv idx" and room: "has_room idx 0"
    and ids: "\<And>tb. hm_get (tombstones idx) n = Some tb \<Longrightarrow> n \<le> max_needle_id idx"
  shows "index_inv (restore idx n)"
proof (cases "hm_get (tombstones idx) n")
  case None
  then show ?thesis using inv by (simp add: restore_def)
next
  case (Some tb)
  have wf: "hm_wf (tombstones idx)" and keys: "te_needle_id tb = n"
    using inv Some by (auto simp: index_inv_def index_wf_def)
  note S = hm_sum_remove [OF wf Some, of tomb_len] and L = length_remove [OF wf Some]
    and none = index_inv_disjoint [OF inv Some]
  have "stats_ok (restore idx n)"
    using inv room S L none Some
    by (auto simp: stats_ok_def index_inv_def has_room_def index_bytes_def index_count_def restore_def
        hm_sum_insert_new length_insert_new unat_sub_u64 unat_add_u64)
  then show ?thesis
    using inv keys Some ids [OF Some]
    by (auto simp: index_inv_def index_wf_def lsn_ok_def restore_def)
qed

lemma prune_purge_markers_inv [inv_intros]:
  assumes "index_inv idx"
  shows "index_inv (fst (prune_purge_markers idx base))"
proof -
  let ?p = "filter (\<lambda>(_, lsn). lsn \<ge> base) (purged idx)"
  have wf: "hm_wf (purged idx)" using assms by (simp add: index_inv_def index_wf_def)
  have "hm_get (purged idx) k = Some l" if "hm_get ?p k = Some l" for k l
    using that wf by (auto simp: hm_wf_def dest!: map_of_SomeD)
  moreover have "hm_wf ?p" using wf by (simp add: hm_wf_def distinct_map_filter)
  ultimately show ?thesis
    unfolding prune_purge_markers_def Let_def fst_conv
    by (intro purged_update_inv [OF assms]) (auto intro: index_inv_purged [OF assms])
qed

lemma sum_list_filter_split:
  "(\<Sum>x\<leftarrow>filter P xs. f x) + (\<Sum>x\<leftarrow>filter (\<lambda>x. \<not> P x) xs. f x) = (\<Sum>x\<leftarrow>xs. f x :: nat)"
  by (induction xs) auto

lemma unat_sum_list:
  "(\<Sum>x\<leftarrow>xs. unat (f x :: u32)) < 2 ^ 64 \<Longrightarrow>
     unat (\<Sum>x\<leftarrow>xs. ucast (f x) :: u64) = (\<Sum>x\<leftarrow>xs. unat (f x))"
proof (induction xs)
  case (Cons x xs)
  then have "unat (\<Sum>x\<leftarrow>xs. ucast (f x) :: u64) = (\<Sum>x\<leftarrow>xs. unat (f x))" by simp
  with Cons.prems show ?case by (simp add: unat_add_u64)
qed simp

lemma word_sum_eq:
  "unat (w :: u64) = (\<Sum>x\<leftarrow>xs. unat (f x :: u32)) \<Longrightarrow> w = (\<Sum>x\<leftarrow>xs. ucast (f x))"
  using unat_sum_list [of f xs] unat_u64_bound [of w] by (metis word_unat_eq_iff)

lemma word_of_nat_eqI: "unat (w :: u64) = n \<Longrightarrow> w = of_nat n"
  by auto

lemma remove_seg_garbage_inv [inv_intros]:
  assumes inv: "index_inv idx" and room: "index_bytes idx < 2 ^ 64"
  shows "index_inv (fst (remove_seg_garbage idx sid))"
    and "unat (snd (remove_seg_garbage idx sid)) =
           (\<Sum>d\<leftarrow>filter (\<lambda>d. dc_seg_id d = sid) (dead_copies idx). dead_len d)"
proof -
  note S = sum_list_filter_split [of dead_len "\<lambda>d. dc_seg_id d = sid" "dead_copies idx"]
  have lt: "(\<Sum>d\<leftarrow>filter (\<lambda>d. dc_seg_id d = sid) (dead_copies idx). dead_len d) < 2 ^ 64"
    using S room by (simp add: index_bytes_def)
  show r: "unat (snd (remove_seg_garbage idx sid)) =
      (\<Sum>d\<leftarrow>filter (\<lambda>d. dc_seg_id d = sid) (dead_copies idx). dead_len d)"
    using unat_sum_list [OF lt] by (simp add: remove_seg_garbage_def Let_def)
  have "stats_ok (fst (remove_seg_garbage idx sid))"
    using inv r S by (auto simp: stats_ok_def index_inv_def remove_seg_garbage_def Let_def
        unat_saturating_sub)
  then show "index_inv (fst (remove_seg_garbage idx sid))"
    using inv by (auto simp: index_inv_def index_wf_def lsn_ok_def remove_seg_garbage_def Let_def)
qed

text \<open>The invariant implies the check the code itself runs.\<close>

lemma index_inv_assert_consistent:
  assumes "index_inv idx"
  shows "assert_consistent idx"
  using assms unfolding index_inv_def stats_ok_def assert_consistent_def hm_sum_def
  by (intro conjI word_sum_eq word_of_nat_eqI) simp_all

section \<open>Refinement: one automaton per needle\<close>

text \<open>The decoded records that act on needles, and the index as a transition system over them.\<close>

datatype index_op =
    OData NeedleEntry
  | ODelete u64 u64 i64 i64
  | OMigrate NeedleEntry u64
  | OPurge u64 u64

fun op_lsn :: "index_op \<Rightarrow> u64" where
  "op_lsn (OData e) = ne_version_lsn e"
| "op_lsn (ODelete l n at until) = l"
| "op_lsn (OMigrate e v) = ne_version_lsn e"
| "op_lsn (OPurge l n) = l"

fun op_id :: "index_op \<Rightarrow> u64" where
  "op_id (OData e) = ne_needle_id e"
| "op_id (ODelete l n at until) = n"
| "op_id (OMigrate e v) = ne_needle_id e"
| "op_id (OPurge l n) = n"

fun op_len :: "index_op \<Rightarrow> nat" where
  "op_len (OData e) = needle_len e"
| "op_len (OMigrate e v) = needle_len e"
| "op_len _ = 0"

fun op_step :: "index_op \<Rightarrow> WalIndex \<Rightarrow> WalIndex" where
  "op_step (OData e) idx = data_effect e idx"
| "op_step (ODelete l n at until) idx = delete_effect l n at until idx"
| "op_step (OMigrate e v) idx = fst (migrate_effect e v idx)"
| "op_step (OPurge l n) idx = purge_effect l n idx"

text \<open>What the index knows of one needle: the live copy, the tombstone, the purge marker.\<close>

type_synonym needle_view = "NeedleEntry option \<times> TombstoneEntry option \<times> u64 option"

definition view :: "WalIndex \<Rightarrow> u64 \<Rightarrow> needle_view" where
  "view idx n = (hm_get (needles idx) n, hm_get (tombstones idx) n, hm_get (purged idx) n)"

definition live_ge :: "u64 \<Rightarrow> needle_view \<Rightarrow> bool" where
  "live_ge l v \<longleftrightarrow> (\<exists>cur\<in>set_option (fst v). l \<le> ne_version_lsn cur)"

definition tomb_ge :: "u64 \<Rightarrow> needle_view \<Rightarrow> bool" where
  "tomb_ge l v \<longleftrightarrow> (\<exists>tb\<in>set_option (fst (snd v)). l \<le> te_version_lsn tb)"

definition mark_ge :: "u64 \<Rightarrow> needle_view \<Rightarrow> bool" where
  "mark_ge l v \<longleftrightarrow> (\<exists>p\<in>set_option (snd (snd v)). l \<le> p)"

definition tomb_from :: "NeedleEntry \<Rightarrow> u64 \<Rightarrow> u64 \<Rightarrow> i64 \<Rightarrow> i64 \<Rightarrow> TombstoneEntry" where
  "tomb_from act l n at until =
     \<lparr>te_needle_id = n, te_seg_id = ne_seg_id act, te_offset = ne_offset act,
      te_data_len = ne_data_len act, te_crc = ne_crc act, te_version_lsn = l,
      te_deleted_at = at, te_retention_until = until\<rparr>"

fun view_step :: "index_op \<Rightarrow> needle_view \<Rightarrow> needle_view" where
  "view_step (OData e) v =
     (if mark_ge (ne_version_lsn e) v then v
      else if live_ge (ne_version_lsn e) v \<or> tomb_ge (ne_version_lsn e) v then (fst v, fst (snd v), None)
      else (Some e, None, None))"
| "view_step (ODelete l n at until) v =
     (if tomb_ge l v \<or> live_ge l v then v
      else (case fst v of None \<Rightarrow> v | Some act \<Rightarrow> (None, Some (tomb_from act l n at until), snd (snd v))))"
| "view_step (OMigrate e x) v =
     (if mark_ge (ne_version_lsn e) v \<or> fst (snd v) \<noteq> None then v
      else (case fst v of
              None \<Rightarrow> (Some e, snd v)
            | Some cur \<Rightarrow> if ne_version_lsn cur = x then (Some e, snd v) else v))"
| "view_step (OPurge l n) v =
     (fst v, None, Some (max l (case snd (snd v) of Some x \<Rightarrow> x | None \<Rightarrow> 0)))"

lemmas view_defs = view_def live_ge_def tomb_ge_def mark_ge_def tomb_from_def

lemma view_prims [simp]:
  "view (bump_lsn l idx) = view idx" "view (bump_needle m idx) = view idx"
  "view (insert_fresh e idx) n =
     (if n = ne_needle_id e then (Some e, snd (view idx n)) else view idx n)"
  "view (overwrite old e idx) n =
     (if n = ne_needle_id e then (Some e, snd (view idx n)) else view idx n)"
  "view (bury_tomb m tb idx) n =
     (if n = m then (fst (view idx n), None, snd (snd (view idx n))) else view idx n)"
  "view (idx\<lparr>purged := p\<rparr>) n = (fst (view idx n), fst (snd (view idx n)), hm_get p n)"
  by (auto simp: view_def insert_fresh_def overwrite_def bury_tomb_def)

lemma view_sel:
  "hm_get (needles idx) n = fst (view idx n)" "hm_get (tombstones idx) n = fst (snd (view idx n))"
  "hm_get (purged idx) n = snd (snd (view idx n))"
  by (simp_all add: view_def)

lemma view_put_data:
  "view (put_data e idx) n =
     (if n = ne_needle_id e \<and> \<not> live_ge (ne_version_lsn e) (view idx n) \<and> \<not> tomb_ge (ne_version_lsn e) (view idx n)
      then (Some e, None, snd (snd (view idx n))) else view idx n)"
  by (cases "view idx (ne_needle_id e)")
    (auto simp: put_data_def view_sel Let_def live_ge_def tomb_ge_def split: option.split)

text \<open>Every operation acts on the view of its own needle, as the automaton says, and leaves the
  others alone.\<close>

lemma view_op_step:
  "view (op_step op idx) n = (if n = op_id op then view_step op (view idx n) else view idx n)"
proof (cases op)
  case (OData e)
  then show ?thesis
    by (cases "view idx (ne_needle_id e)")
      (auto simp: data_effect_def view_sel view_put_data Let_def live_ge_def tomb_ge_def mark_ge_def
        split: option.split)
next
  case (ODelete l m at until)
  then show ?thesis
    by (auto simp: delete_effect_def view_defs Let_def split: option.split)
next
  case (OMigrate e v)
  then show ?thesis
    by (cases "view idx (ne_needle_id e)")
      (auto simp: migrate_effect_def view_sel Let_def mark_ge_def split: option.split)
next
  case (OPurge l m)
  then show ?thesis
    by (auto simp: purge_effect_def view_sel Let_def split: option.split)
qed

lemma op_step_inv:
  assumes "index_inv idx" and "has_room idx (op_len op)"
  shows "index_inv (op_step op idx) \<and> grows (op_len op) idx (op_step op idx)"
  using assms data_effect_inv migrate_effect_inv delete_effect_inv purge_effect_inv
  by (cases op) simp_all

lemma op_steps_inv:
  assumes "index_inv idx" and "index_bytes idx + sum_list (map op_len ops) < 2 ^ 64"
    and "index_count idx + length ops < 2 ^ 64"
  shows "index_inv (fold op_step ops idx)"
  using assms
proof (induction ops arbitrary: idx)
  case (Cons op ops)
  have "index_inv (op_step op idx)" "grows (op_len op) idx (op_step op idx)"
    using op_step_inv [of idx op] Cons.prems by (auto simp: has_room_def)
  with Cons show ?case by (simp add: grows_def)
qed simp

end
