(* ===== verification/Wal_Index_Laws.thy ===== *)
theory Wal_Index_Laws
  imports Wal_Index
begin

text \<open>
  What a log of records means to the index of \<^verbatim>\<open>powerfs-core/src/wal/index.rs\<close>: the last write or
  delete of a needle decides whether it is live, and replaying a log over the index it built leaves
  that index unchanged, with the exceptions the code has: a generation of a needle written and deleted after a
  purge, and records out of order.
\<close>

section \<open>Logs in LSN order\<close>

definition ascending :: "index_op list \<Rightarrow> bool" where
  "ascending ops \<longleftrightarrow> sorted_wrt (\<lambda>a b. op_lsn a < op_lsn b) ops"

definition below :: "u64 \<Rightarrow> needle_view \<Rightarrow> bool" where
  "below l v \<longleftrightarrow> \<not> live_ge l v \<and> \<not> tomb_ge l v \<and> \<not> mark_ge l v"

fun is_write :: "index_op \<Rightarrow> bool" where
  "is_write (OData e) = True"
| "is_write (ODelete l n at until) = True"
| "is_write _ = False"

fun is_migrate :: "index_op \<Rightarrow> bool" where
  "is_migrate (OMigrate e v) = True"
| "is_migrate _ = False"

fun is_purge :: "index_op \<Rightarrow> bool" where
  "is_purge (OPurge l n) = True"
| "is_purge _ = False"

lemma ascending_snoc:
  "ascending (ops @ [op]) \<longleftrightarrow> ascending ops \<and> (\<forall>a\<in>set ops. op_lsn a < op_lsn op)"
  by (auto simp: ascending_def sorted_wrt_append)

lemma below_new [simp]: "below l (None, None, None)"
  by (simp add: below_def live_ge_def tomb_ge_def mark_ge_def)

lemma view_new [simp]: "view WalIndex_new n = (None, None, None)"
  by (simp add: view_def WalIndex_new_def)

lemma below_mono: "below l v \<Longrightarrow> l \<le> l' \<Longrightarrow> below l' v"
  by (force simp: below_def live_ge_def tomb_ge_def mark_ge_def)

lemma below_step:
  assumes "below (op_lsn op) v" and "op_lsn op < l"
  shows "below l (view_step op v)"
proof -
  have "below l v" using assms below_mono by fastforce
  moreover have "\<not> l \<le> op_lsn op" using assms(2) by simp
  ultimately show ?thesis
    using assms(2)
    by (cases op; cases v)
      (auto simp: below_def live_ge_def tomb_ge_def mark_ge_def tomb_from_def le_max_iff_disj
        split: option.splits)
qed

text \<open>After a log in LSN order, everything the index holds carries the LSN of one of its records.\<close>

lemma below_run:
  "ascending ops \<Longrightarrow> \<forall>a\<in>set ops. op_lsn a < l \<Longrightarrow> below l (view (fold op_step ops WalIndex_new) n)"
proof (induction ops arbitrary: l rule: rev_induct)
  case (snoc op ops)
  let ?v = "view (fold op_step ops WalIndex_new)"
  have "below (op_lsn op) (?v n)"
    using snoc by (simp add: ascending_snoc)
  moreover have "op_lsn op < l" using snoc.prems by simp
  ultimately show ?case
    using below_mono [of "op_lsn op" "?v n" l] below_step [of op "?v n" l]
    by (auto simp: view_op_step)
qed simp

section \<open>Last writer wins\<close>

definition last_write :: "u64 \<Rightarrow> index_op list \<Rightarrow> index_op option" where
  "last_write n ops = find (\<lambda>op. op_id op = n \<and> is_write op) (rev ops)"

lemma last_write_snoc:
  "last_write n (ops @ [op]) = (if op_id op = n \<and> is_write op then Some op else last_write n ops)"
  by (simp add: last_write_def)

lemma live_after:
  assumes "ascending ops" and "\<forall>op\<in>set ops. \<not> is_migrate op"
  shows "lookup (fold op_step ops WalIndex_new) n =
    (case last_write n ops of Some (OData e) \<Rightarrow> Some e | _ \<Rightarrow> None)"
  using assms
proof (induction ops rule: rev_induct)
  case Nil
  then show ?case by (simp add: lookup_def WalIndex_new_def last_write_def)
next
  case (snoc op ops)
  let ?v = "view (fold op_step ops WalIndex_new) n"
  have below: "below (op_lsn op) ?v"
    using snoc.prems by (intro below_run) (auto simp: ascending_snoc)
  have IH: "fst ?v = (case last_write n ops of Some (OData e) \<Rightarrow> Some e | _ \<Rightarrow> None)"
    using snoc by (simp add: ascending_snoc view_def lookup_def)
  have "lookup (fold op_step (ops @ [op]) WalIndex_new) n = fst (view (op_step op (fold op_step ops WalIndex_new)) n)"
    by (simp add: lookup_def view_def)
  also have "\<dots> = (case last_write n (ops @ [op]) of Some (OData e) \<Rightarrow> Some e | _ \<Rightarrow> None)"
    unfolding view_op_step using below IH snoc.prems(2)
    by (cases op; cases ?v) (auto simp: last_write_snoc below_def split: option.splits)
  finally show ?case .
qed

section \<open>Replaying a log twice\<close>

text \<open>An operation is done with a view when applying it again changes nothing.\<close>

fun op_done :: "index_op \<Rightarrow> needle_view \<Rightarrow> bool" where
  "op_done (OData e) v \<longleftrightarrow>
     mark_ge (ne_version_lsn e) v \<or>
     (live_ge (ne_version_lsn e) v \<or> tomb_ge (ne_version_lsn e) v) \<and> snd (snd v) = None"
| "op_done (ODelete l n at until) v \<longleftrightarrow> tomb_ge l v \<or> live_ge l v \<or> fst v = None"
| "op_done (OMigrate e x) v \<longleftrightarrow>
     mark_ge (ne_version_lsn e) v \<or> fst (snd v) \<noteq> None \<or>
     (\<exists>cur\<in>set_option (fst v). ne_version_lsn cur \<noteq> x)"
| "op_done (OPurge l n) v \<longleftrightarrow> fst (snd v) = None \<and> mark_ge l v"

text \<open>The logs for which replaying twice is harmless: a migration expects an older version than its own
  LSN, and a purge is the last word on its needle.\<close>

definition replayable :: "index_op list \<Rightarrow> bool" where
  "replayable ops \<longleftrightarrow>
     ascending ops \<and>
     (\<forall>e x. OMigrate e x \<in> set ops \<longrightarrow> x < ne_version_lsn e) \<and>
     sorted_wrt (\<lambda>a b. is_purge a \<and> op_id b = op_id a \<longrightarrow> is_purge b) ops"

lemma replayable_snoc:
  "replayable (ops @ [op]) \<longleftrightarrow>
     replayable ops \<and> (\<forall>a\<in>set ops. op_lsn a < op_lsn op) \<and>
     (\<forall>e x. op = OMigrate e x \<longrightarrow> x < ne_version_lsn e) \<and>
     (\<forall>a\<in>set ops. is_purge a \<and> op_id op = op_id a \<longrightarrow> is_purge op)"
  by (auto simp: replayable_def ascending_snoc sorted_wrt_append)

lemma op_done_self:
  assumes "below (op_lsn op) v" and "\<And>e x. op = OMigrate e x \<Longrightarrow> x < ne_version_lsn e"
    and "\<not> is_purge op \<Longrightarrow> snd (snd v) = None"
  shows "op_done op (view_step op v)"
  using assms
  by (cases op; cases v)
    (auto simp: below_def live_ge_def tomb_ge_def mark_ge_def tomb_from_def split: option.splits)

definition exclusive :: "needle_view \<Rightarrow> bool" where
  "exclusive v \<longleftrightarrow> fst v = None \<or> fst (snd v) = None"

lemma exclusive_step: "exclusive v \<Longrightarrow> exclusive (view_step op v)"
  by (cases op; cases v) (auto simp: exclusive_def split: option.splits)

lemma exclusive_run: "exclusive (view (fold op_step ops WalIndex_new) n)"
  by (induction ops rule: rev_induct)
    (auto simp: view_op_step exclusive_step, simp add: exclusive_def)

lemma op_done_step:
  assumes "op_done a v" and "below (op_lsn op) v" and "op_lsn a < op_lsn op" and "exclusive v"
    and "\<And>e x. a = OMigrate e x \<Longrightarrow> x < ne_version_lsn e"
    and "\<not> is_purge op \<Longrightarrow> snd (snd v) = None"
  shows "op_done a (view_step op v)"
  using assms
  by (cases op; cases a; cases v)
    (auto simp: below_def live_ge_def tomb_ge_def mark_ge_def tomb_from_def exclusive_def le_max_iff_disj
      split: option.splits)

lemma marked_run:
  "snd (snd (view (fold op_step ops WalIndex_new) n)) \<noteq> None \<Longrightarrow> \<exists>a\<in>set ops. is_purge a \<and> op_id a = n"
proof (induction ops rule: rev_induct)
  case (snoc op ops)
  have step: "is_purge op \<or> snd (snd v) \<noteq> None" if "snd (snd (view_step op v)) \<noteq> None" for v
    using that by (cases op; cases v) (auto split: option.splits if_splits)
  show ?case
  proof (cases "n = op_id op \<and> is_purge op")
    case False
    then have "snd (snd (view (fold op_step ops WalIndex_new) n)) \<noteq> None"
      using snoc.prems step [of "view (fold op_step ops WalIndex_new) n"]
      by (auto simp: view_op_step split: if_splits)
    with snoc.IH show ?thesis by auto
  qed auto
qed simp

lemma op_done_run:
  "replayable ops \<Longrightarrow> a \<in> set ops \<Longrightarrow> op_done a (view (fold op_step ops WalIndex_new) (op_id a))"
proof (induction ops rule: rev_induct)
  case (snoc op ops)
  let ?v = "view (fold op_step ops WalIndex_new)"
  note R = snoc.prems(1) [unfolded replayable_snoc]
  have below: "below (op_lsn op) (?v n)" for n
    using R by (intro below_run) (auto simp: replayable_def)
  have mark: "snd (snd (?v (op_id op))) = None" if "\<not> is_purge op"
    using that R marked_run [of ops "op_id op"] by metis
  show ?case
  proof (cases "a = op")
    case True
    have "op_done op (view_step op (?v (op_id op)))"
      using below R mark by (intro op_done_self) auto
    then show ?thesis by (simp add: True view_op_step)
  next
    case False
    then have a: "a \<in> set ops" using snoc.prems(2) by simp
    then have IH: "op_done a (?v (op_id a))" using snoc.IH R by simp
    have "x < ne_version_lsn e" if "a = OMigrate e x" for e x
      using that a R by (auto simp: replayable_def)
    then have "op_done a (view_step op (?v (op_id a)))" if "op_id a = op_id op"
      using IH below a R mark that exclusive_run by (intro op_done_step) auto
    with IH show ?thesis by (simp add: view_op_step)
  qed
qed simp

lemma bump_idle [simp]:
  "l \<le> last_lsn idx \<Longrightarrow> bump_lsn l idx = idx" "n \<le> max_needle_id idx \<Longrightarrow> bump_needle n idx = idx"
  by (auto simp: bump_lsn_def bump_needle_def)

fun names_needle :: "index_op \<Rightarrow> bool" where
  "names_needle (OData e) = True"
| "names_needle (OMigrate e v) = True"
| "names_needle _ = False"

lemma max_marker_idle: "hm_get m n = Some p \<Longrightarrow> l \<le> p \<Longrightarrow> max_marker n l m = m"
  by (auto simp: max_marker_def Let_def update_triv max_def)

lemma op_step_idle:
  assumes "op_done op (view idx (op_id op))" and "op_lsn op \<le> last_lsn idx"
    and "names_needle op \<Longrightarrow> op_id op \<le> max_needle_id idx"
  shows "op_step op idx = idx"
proof (cases op)
  case (OData e)
  with assms show ?thesis
    by (auto simp: data_effect_def put_data_def Let_def view_defs split: option.splits)
next
  case (ODelete l n at until)
  with assms show ?thesis
    by (auto simp: delete_effect_def Let_def view_defs split: option.splits)
next
  case (OMigrate e x)
  with assms show ?thesis
    by (auto simp: migrate_effect_def Let_def view_defs split: option.splits)
next
  case (OPurge l n)
  with assms show ?thesis
    by (auto simp: purge_effect_def Let_def view_defs max_marker_idle split: option.splits)
qed

lemma op_step_cursor:
  "last_lsn (op_step op idx) = max (op_lsn op) (last_lsn idx) \<and>
   max_needle_id (op_step op idx) = (if names_needle op then max (op_id op) (max_needle_id idx) else max_needle_id idx)"
  by (cases op) (auto simp: data_effect_def put_data_def delete_effect_def migrate_effect_def purge_effect_def
      insert_fresh_def overwrite_def bury_tomb_def Let_def split: option.split)

lemma run_cursor:
  "a \<in> set ops \<Longrightarrow> op_lsn a \<le> last_lsn (fold op_step ops idx) \<and>
     (names_needle a \<longrightarrow> op_id a \<le> max_needle_id (fold op_step ops idx))"
proof (induction ops rule: rev_induct)
  case (snoc op ops)
  then show ?case
    by (auto simp: op_step_cursor le_max_iff_disj)
qed simp

lemma replay_idle:
  assumes "replayable ops" and "set ops' \<subseteq> set ops"
  shows "fold op_step ops' (fold op_step ops WalIndex_new) = fold op_step ops WalIndex_new"
  using assms(2)
proof (induction ops')
  case (Cons a ops')
  then have "op_step a (fold op_step ops WalIndex_new) = fold op_step ops WalIndex_new"
    using op_done_run [OF assms(1)] run_cursor [of a ops WalIndex_new] by (intro op_step_idle) auto
  with Cons show ?case by simp
qed simp

lemma view_run:
  "view (fold op_step ops idx) n = fold view_step (filter (\<lambda>op. op_id op = n) ops) (view idx n)"
  by (induction ops arbitrary: idx) (auto simp: view_op_step)

section \<open>Replaying a purged generation\<close>

text \<open>The last records of a needle that was purged, written again and deleted again.\<close>

definition regenerated :: "u64 \<Rightarrow> NeedleEntry \<Rightarrow> u64 \<Rightarrow> i64 \<Rightarrow> i64 \<Rightarrow> index_op list" where
  "regenerated l e l' at until =
     [OPurge l (ne_needle_id e), OData e, ODelete l' (ne_needle_id e) at until]"

definition more_garbage :: "nat \<Rightarrow> TombstoneEntry \<Rightarrow> WalIndex \<Rightarrow> WalIndex" where
  "more_garbage k tb idx =
     idx\<lparr>dead_copies := dead_copies idx @ replicate k (dead_of_tomb tb),
         stats := (stats idx)\<lparr>garbage_bytes := garbage_bytes (stats idx) + of_nat k * ucast (te_data_len tb)\<rparr>\<rparr>"

lemma more_garbage_view [simp]:
  "view (more_garbage k tb idx) = view idx" "last_lsn (more_garbage k tb idx) = last_lsn idx"
  "max_needle_id (more_garbage k tb idx) = max_needle_id idx"
  by (simp_all add: more_garbage_def view_def fun_eq_iff)

lemma hm_remove_fresh: "hm_get m n = None \<Longrightarrow> hm_remove n m = m"
  by (induction m) (auto split: if_splits)

lemma hm_insert_last: "hm_get m n = None \<Longrightarrow> hm_insert n x m = m @ [(n, x)]"
  by (simp add: hm_insert_fresh map_of_eq_None_iff)

lemma hm_get_last: "hm_get m n = None \<Longrightarrow> hm_get (m @ [(n, x)]) n = Some x"
  by (induction m) (auto split: if_splits)

lemma hm_remove_last: "hm_get m n = None \<Longrightarrow> hm_remove n (m @ [(n, x)]) = m"
  by (induction m) (auto split: if_splits)

lemma delete_of_fresh:
  assumes "n = ne_needle_id e" and "hm_get (needles X) n = None" and "hm_get (tombstones X) n = None"
    and "ne_version_lsn e < l'" and "l' \<le> last_lsn X"
  shows "delete_effect l' n at until (insert_fresh e X) =
    X\<lparr>tombstones := tombstones X @ [(n, tomb_from e l' n at until)],
      stats := (stats X)\<lparr>staging_bytes := staging_bytes (stats X) + ucast (ne_data_len e),
        deleted_count := deleted_count (stats X) + 1\<rparr>\<rparr>"
proof -
  have "bump_lsn l' (insert_fresh e X) = insert_fresh e X"
    using assms(5) by (simp add: insert_fresh_def)
  moreover have "\<not> l' \<le> ne_version_lsn e" using assms(4) by simp
  moreover have "needles (insert_fresh e X) = needles X @ [(n, e)]" "tombstones (insert_fresh e X) = tombstones X"
    using assms(1,2) by (simp_all add: insert_fresh_def hm_insert_last)
  ultimately show ?thesis
    using assms(2,3) hm_get_last [OF assms(2), of e]
    by (simp add: delete_effect_def Let_def hm_remove_last hm_insert_last)
      (simp add: insert_fresh_def tomb_from_def)
qed

lemma regenerated_again:
  assumes n: "n = ne_needle_id e" and tb: "tb = tomb_from e l' n at until"
    and J: "tombstones J = ts @ [(n, tb)]" "hm_get ts n = None" "hm_get (needles J) n = None" "hm_get (purged J) n = None"
    and lsn: "l < ne_version_lsn e" "ne_version_lsn e < l'" "l' \<le> last_lsn J" "n \<le> max_needle_id J"
  shows "fold op_step (regenerated l e l' at until) J = more_garbage 1 tb J"
proof -
  note hm = hm_remove_fresh hm_insert_last hm_get_last hm_remove_last max_marker_def
  have le: "l \<le> last_lsn J" "ne_version_lsn e \<le> last_lsn J" using lsn by auto
  have get: "hm_get (tombstones J) n = Some tb" using J by (simp only: hm_get_last)
  define J1 where "J1 = (bury_tomb n tb J)\<lparr>purged := purged J @ [(n, l)]\<rparr>"
  have 1: "purge_effect l n J = J1"
    using J get le by (simp add: purge_effect_def J1_def hm bury_tomb_def Let_def word_gt_0)
  have J1: "tombstones J1 = ts" "needles J1 = needles J" "purged J1 = purged J @ [(n, l)]" "last_lsn J1 = last_lsn J"
    "max_needle_id J1 = max_needle_id J"
    using J by (simp_all add: J1_def bury_tomb_def hm)
  have get1: "hm_get (purged J1) n = Some l" "hm_remove n (purged J1) = purged J"
    unfolding J1(3) using J(4) by (rule hm_get_last, rule hm_remove_last)
  have "data_effect e J1 = put_data e (J1\<lparr>purged := purged J\<rparr>)"
    using J1 get1 lsn le by (simp add: data_effect_def Let_def flip: n)
  also have "\<dots> = insert_fresh e (J1\<lparr>purged := purged J\<rparr>)"
    using J J1 by (simp add: put_data_def flip: n)
  finally have 2: "data_effect e J1 = insert_fresh e (J1\<lparr>purged := purged J\<rparr>)" .
  have "delete_effect l' n at until (insert_fresh e (J1\<lparr>purged := purged J\<rparr>)) =
      (J1\<lparr>purged := purged J\<rparr>)\<lparr>tombstones := ts @ [(n, tb)],
        stats := (stats J1)\<lparr>staging_bytes := staging_bytes (stats J1) + ucast (ne_data_len e),
          deleted_count := deleted_count (stats J1) + 1\<rparr>\<rparr>"
    using J J1 lsn by (subst delete_of_fresh [OF n]) (simp_all add: tb)
  also have "\<dots> = more_garbage 1 tb J"
    using J(1) J1 by (intro WalIndex.equality) (simp_all add: more_garbage_def J1_def bury_tomb_def tb tomb_from_def)
  finally have 3: "delete_effect l' n at until (insert_fresh e (J1\<lparr>purged := purged J\<rparr>)) = more_garbage 1 tb J" .
  show ?thesis using 1 2 3 by (simp add: regenerated_def flip: n)
qed


lemma regenerated_once:
  assumes n: "n = ne_needle_id e" and tb: "tb = tomb_from e l' n at until"
    and asc: "ascending (pre @ regenerated l e l' at until)"
    and idx: "idx = fold op_step (pre @ regenerated l e l' at until) WalIndex_new"
  shows "\<exists>ts. tombstones idx = ts @ [(n, tb)] \<and> hm_get ts n = None" and "view idx n = (None, Some tb, None)"
proof -
  define Y where "Y = fold op_step (pre @ [OPurge l n, OData e]) WalIndex_new"
  have idx': "idx = delete_effect l' n at until Y" by (simp add: idx Y_def regenerated_def n)
  have lsn: "l < ne_version_lsn e" "ne_version_lsn e < l'" and "ascending pre" "\<forall>a\<in>set pre. op_lsn a < l"
    using asc by (auto simp: regenerated_def ascending_def sorted_wrt_append)
  then have "below l (view (fold op_step pre WalIndex_new) n)" by (intro below_run)
  moreover have "view Y n = view_step (OData e) (view_step (OPurge l n) (view (fold op_step pre WalIndex_new) n))"
    using view_run [of "[OPurge l n, OData e]" "fold op_step pre WalIndex_new" n] by (simp add: Y_def n)
  ultimately have Y: "view Y n = (Some e, None, None)"
    using lsn by (cases "view (fold op_step pre WalIndex_new) n")
      (auto simp: below_def mark_ge_def live_ge_def tomb_ge_def max_def split: option.splits)
  have "\<not> l' \<le> ne_version_lsn e" using lsn by simp
  with Y show "view idx n = (None, Some tb, None)"
    using view_op_step [of "ODelete l' n at until" Y n] by (simp add: idx' tb live_ge_def tomb_ge_def)
  have "hm_get (needles Y) n = Some e" "hm_get (tombstones Y) n = None" using Y by (simp_all add: view_def)
  with \<open>\<not> l' \<le> ne_version_lsn e\<close> have "tombstones idx = tombstones Y @ [(n, tb)]"
    by (simp add: idx' delete_effect_def Let_def hm_insert_last tb tomb_from_def)
  with \<open>hm_get (tombstones Y) n = None\<close> show "\<exists>ts. tombstones idx = ts @ [(n, tb)] \<and> hm_get ts n = None" by blast
qed

lemma fold_idle: "\<forall>a\<in>set ops. op_step a J = J \<Longrightarrow> fold op_step ops J = J"
  by (induction ops) auto

lemma more_garbage_add: "more_garbage 1 tb (more_garbage k tb idx) = more_garbage (Suc k) tb idx"
  by (intro WalIndex.equality) (simp_all add: more_garbage_def algebra_simps replicate_append_same)

lemma replay_adds_garbage:
  assumes pre: "replayable pre" "\<forall>a\<in>set pre. is_purge a \<longrightarrow> op_id a \<noteq> ne_needle_id e"
    and asc: "ascending (pre @ regenerated l e l' at until)"
    and idx: "idx = fold op_step (pre @ regenerated l e l' at until) WalIndex_new"
  shows "(fold op_step (pre @ regenerated l e l' at until) ^^ k) idx =
    more_garbage k (tomb_from e l' (ne_needle_id e) at until) idx"
proof (induction k)
  case 0
  then show ?case by (simp add: more_garbage_def)
next
  case (Suc k)
  let ?n = "ne_needle_id e" and ?ops = "pre @ regenerated l e l' at until"
  let ?tb = "tomb_from e l' ?n at until" and ?J = "more_garbage k (tomb_from e l' ?n at until) idx"
  obtain ts where ts: "tombstones idx = ts @ [(?n, ?tb)]" "hm_get ts ?n = None" and v: "view idx ?n = (None, Some ?tb, None)"
    using regenerated_once [OF refl refl asc idx] by blast
  have lsn: "l < ne_version_lsn e" "ne_version_lsn e < l'" and low: "op_lsn a < l'" if "a \<in> set pre" for a
    using asc that by (auto simp: regenerated_def ascending_def sorted_wrt_append)
  have cur: "op_lsn a \<le> last_lsn ?J \<and> (names_needle a \<longrightarrow> op_id a \<le> max_needle_id ?J)" if "a \<in> set ?ops" for a
    using run_cursor [OF that, of WalIndex_new] by (simp add: idx)
  have "op_step a ?J = ?J" if a: "a \<in> set pre" for a
  proof (rule op_step_idle)
    show "op_done a (view ?J (op_id a))"
    proof (cases "op_id a = ?n")
      case True
      with v low [OF a] pre(2) a show ?thesis
        by (cases a) (auto simp: tomb_ge_def tomb_from_def)
    next
      case False
      then have "view idx (op_id a) = view (fold op_step pre WalIndex_new) (op_id a)"
        using view_run [of "regenerated l e l' at until" "fold op_step pre WalIndex_new" "op_id a"]
        by (simp add: idx regenerated_def)
      with op_done_run [OF pre(1) a] show ?thesis by simp
    qed
  qed (use cur a in auto)
  then have "fold op_step ?ops ?J = fold op_step (regenerated l e l' at until) ?J"
    by (simp add: fold_idle)
  also have "\<dots> = more_garbage 1 ?tb ?J"
    using ts v cur [of "OData e"] cur [of "ODelete l' ?n at until"] asc
    by (intro regenerated_again [OF refl refl])
      (auto simp: more_garbage_def view_def regenerated_def ascending_def sorted_wrt_append)
  finally show ?case by (simp only: funpow.simps(2) o_apply Suc.IH more_garbage_add)
qed

section \<open>Encoded records\<close>

text \<open>Applying a payload the encoder of its record type produced never fails, and is the operation on the
  decoded values.\<close>

lemma apply_data_encode [codec_simps]:
  assumes "length (dp_data p) < 2 ^ 32"
  shows "apply_data idx sid off crc lsn (DataPayload_encode p) now =
    Inr (op_step (OData \<lparr>ne_needle_id = dp_needle_id p, ne_seg_id = sid, ne_offset = off + 26,
           ne_data_len = of_nat (length (dp_data p)), ne_crc = crc, ne_version_lsn = lsn,
           ne_created_at = now, ne_flags = 0\<rparr>) idx)"
  using assms by (simp add: apply_data_def DataPayload_encode_def Let_def codec_simps)

lemma apply_delete_encode [codec_simps]:
  "apply_delete idx lsn (DeletePayload_encode p) =
     Inr (op_step (ODelete lsn (del_needle_id p) (del_deleted_at p) (del_retention_until p)) idx)"
  by (simp add: apply_delete_def DeletePayload_encode_def codec_simps)

lemma apply_gc_migrate_encode [codec_simps]:
  assumes "length (gm_data p) < 2 ^ 32"
  shows "apply_gc_migrate idx sid off crc lsn (GcMigratePayload_encode p) now =
    Inr (migrate_effect \<lparr>ne_needle_id = gm_needle_id p, ne_seg_id = sid, ne_offset = off + 26,
           ne_data_len = of_nat (length (gm_data p)), ne_crc = crc, ne_version_lsn = lsn,
           ne_created_at = now, ne_flags = NEEDLE_FLAG_MIGRATED\<rparr> (gm_expect_version p) idx)"
  using assms by (simp add: apply_gc_migrate_def GcMigratePayload_encode_def Let_def codec_simps)

lemma apply_tomb_purge_encode [codec_simps]:
  "apply_tomb_purge idx lsn (u64_le n @ u64_le d) = Inr (op_step (OPurge lsn n) idx)"
  by (simp add: apply_tomb_purge_def codec_simps)

lemma apply_volume_meta_encode [codec_simps]:
  "apply_volume_meta idx lsn (VolumeMetaPayload_volume_size sz) =
     Inr (bump_lsn lsn (idx\<lparr>volume_size := sz\<rparr>), sz)"
  by (simp add: apply_volume_meta_def)

section \<open>Properties\<close>

text \<open>C10: The space statistics are exact after any log: starting from the empty index, after any sequence of
  DATA, DELETE, GC_MIGRATE and TOMB_PURGE records whose data fits 64-bit counters, the well-formedness
  invariant and I4 hold (used, staging and garbage bytes are the sums over live needles, tombstones and
  dead copies, without wrap-around), so the check \<^verbatim>\<open>assert_consistent\<close> the code runs succeeds.\<close>

theorem index_stats_consistent:
  assumes "sum_list (map op_len ops) < 2 ^ 64" and "length ops < 2 ^ 64"
  shows "index_inv (fold op_step ops WalIndex_new) \<and> assert_consistent (fold op_step ops WalIndex_new)"
  using op_steps_inv [of WalIndex_new ops] assms index_inv_assert_consistent by simp

definition demo_entry :: "u64 \<Rightarrow> u64 \<Rightarrow> u64 \<Rightarrow> NeedleEntry" where
  "demo_entry n lsn off =
     \<lparr>ne_needle_id = n, ne_seg_id = 1, ne_offset = off, ne_data_len = 10, ne_crc = 0,
      ne_version_lsn = lsn, ne_created_at = 0, ne_flags = 0\<rparr>"

theorem index_stats_consistent_witness:
  "assert_consistent (fold op_step [OData (demo_entry 1 1 94), OData (demo_entry 1 2 140), ODelete 3 1 0 0] WalIndex_new)"
  using index_stats_consistent [of "[OData (demo_entry 1 1 94), OData (demo_entry 1 2 140), ODelete 3 1 0 0]"]
  by (simp add: demo_entry_def)

text \<open>C16: The index refines a family of independent automata, one per needle: what it holds of a needle after
  any log is what that needle's automaton computes from the records that name it, whatever the other
  records are.\<close>

theorem index_refines_needle_automata:
  "view (fold op_step ops idx) n = fold view_step (filter (\<lambda>op. op_id op = n) ops) (view idx n)"
  by (rule view_run)

text \<open>C15: Last writer wins: after a log in LSN order without migrations, a needle is live exactly when the last
  DATA or DELETE record naming it is a DATA record, and then its entry is that record's.\<close>

theorem last_writer_wins:
  assumes "ascending ops" and "\<forall>op\<in>set ops. \<not> is_migrate op"
  shows "lookup (fold op_step ops WalIndex_new) n =
    (case last_write n ops of Some (OData e) \<Rightarrow> Some e | _ \<Rightarrow> None)"
  by (rule live_after [OF assms])

theorem last_writer_wins_witness:
  "lookup (fold op_step [OData (demo_entry 1 1 94), OData (demo_entry 2 2 140), ODelete 3 1 0 0,
      OData (demo_entry 1 4 200)] WalIndex_new) 1 = Some (demo_entry 1 4 200)"
  using last_writer_wins [of "[OData (demo_entry 1 1 94), OData (demo_entry 2 2 140), ODelete 3 1 0 0,
      OData (demo_entry 1 4 200)]" 1]
  by (simp add: ascending_def demo_entry_def last_write_def)

text \<open>C11: Replay is idempotent: once a log in LSN order has been applied, applying any of its records again, in
  any order and any number of times, leaves the whole index unchanged (contents, ledgers, statistics,
  cursors and markers), provided a purge is the last word on its needle.\<close>

theorem replay_idempotent:
  assumes "replayable ops" and "set ops' \<subseteq> set ops"
  shows "fold op_step ops' (fold op_step ops WalIndex_new) = fold op_step ops WalIndex_new"
  by (rule replay_idle [OF assms])

theorem replay_idempotent_witness:
  "let ops = [OData (demo_entry 1 1 94), OMigrate (demo_entry 1 2 140) 1, ODelete 3 1 0 0, OPurge 4 1]
   in fold op_step [ODelete 3 1 0 0, OData (demo_entry 1 1 94)] (fold op_step ops WalIndex_new) =
      fold op_step ops WalIndex_new"
  using replay_idempotent [of "[OData (demo_entry 1 1 94), OMigrate (demo_entry 1 2 140) 1, ODelete 3 1 0 0, OPurge 4 1]"
      "[ODelete 3 1 0 0, OData (demo_entry 1 1 94)]"]
  by (simp add: replayable_def ascending_def demo_entry_def)

text \<open>C33: The limit of that guarantee. \<^verbatim>\<open>apply_tomb_purge\<close> does not compare LSNs: take any log, harmless to
  replay by itself, whose last records purge a needle, write it again and delete it again. Each further pass over
  that log buries the newer tombstone anew. After \<open>k\<close> passes the dead-copy ledger holds \<open>k\<close> more entries for the one
  dead copy and the garbage counter has grown by \<open>k\<close> times its size, while needles and tombstones are as before.\<close>

theorem replay_purged_generation_not_idempotent:
  assumes "replayable pre" and "\<forall>a\<in>set pre. is_purge a \<longrightarrow> op_id a \<noteq> ne_needle_id e"
    and "ops = pre @ [OPurge l (ne_needle_id e), OData e, ODelete l' (ne_needle_id e) at until]"
    and "ascending ops" and "idx = fold op_step ops WalIndex_new"
  shows "dead_copies ((fold op_step ops ^^ k) idx) = dead_copies idx @
      replicate k \<lparr>dc_seg_id = ne_seg_id e, dc_offset = ne_offset e, dc_data_len = ne_data_len e,
        dc_crc = ne_crc e, dc_version_lsn = l'\<rparr>
    \<and> garbage_bytes (stats ((fold op_step ops ^^ k) idx)) =
        garbage_bytes (stats idx) + of_nat k * ucast (ne_data_len e)
    \<and> needles ((fold op_step ops ^^ k) idx) = needles idx
    \<and> tombstones ((fold op_step ops ^^ k) idx) = tombstones idx"
proof -
  have ops: "ops = pre @ regenerated l e l' at until" by (simp add: assms(3) regenerated_def)
  have "(fold op_step ops ^^ k) idx = more_garbage k (tomb_from e l' (ne_needle_id e) at until) idx"
    using replay_adds_garbage [OF assms(1,2)] assms(4,5) unfolding ops by blast
  then show ?thesis by (simp add: more_garbage_def dead_of_tomb_def tomb_from_def)
qed

theorem replay_purged_generation_not_idempotent_witness:
  "let ops = [OData (demo_entry 1 1 94), ODelete 2 1 0 0, OPurge 3 1, OData (demo_entry 1 4 140), ODelete 5 1 0 0];
       idx = fold op_step ops WalIndex_new
   in length (dead_copies idx) = 1 \<and> length (dead_copies ((fold op_step ops ^^ 7) idx)) = 8 \<and>
      garbage_bytes (stats ((fold op_step ops ^^ 7) idx)) = 80"
proof -
  let ?pre = "[OData (demo_entry 1 1 94), ODelete 2 1 0 0]"
  let ?ops = "?pre @ [OPurge 3 1, OData (demo_entry 1 4 140), ODelete 5 1 0 0]"
  have pre: "replayable ?pre" "ascending ?ops"
    by (simp_all add: replayable_def ascending_def demo_entry_def)
  have once: "length (dead_copies (fold op_step ?ops WalIndex_new)) = 1"
    "garbage_bytes (stats (fold op_step ?ops WalIndex_new)) = 10" by code_simp+
  show ?thesis
    using replay_purged_generation_not_idempotent [OF pre(1) _ _ pre(2) refl, of "demo_entry 1 4 140" 3 5 0 0 7] once
    by (simp add: demo_entry_def Let_def)
qed

text \<open>C34: Replay out of LSN order is not harmless. Take any index that holds nothing of a needle and any log whose only
  records of that needle are a DATA record and a later DELETE. In LSN order the needle is deleted. In the other
  order, whatever other records lie around and between them, the DELETE is dropped and the needle stays live; and
  applying that same batch a second time deletes it after all, so repeating a batch changes the outcome, too.\<close>

theorem replay_order_matters:
  assumes "ne_version_lsn e < l" and "view idx (ne_needle_id e) = (None, None, None)"
    and "filter (\<lambda>op. op_id op = ne_needle_id e) ops = [OData e, ODelete l (ne_needle_id e) at until]"
    and "filter (\<lambda>op. op_id op = ne_needle_id e) ops' = [ODelete l (ne_needle_id e) at until, OData e]"
  shows "lookup (fold op_step ops idx) (ne_needle_id e) = None
    \<and> lookup (fold op_step ops' idx) (ne_needle_id e) = Some e
    \<and> lookup (fold op_step ops' (fold op_step ops' idx)) (ne_needle_id e) = None"
  using assms by (auto simp: lookup_def view_sel view_run live_ge_def tomb_ge_def mark_ge_def tomb_from_def)

theorem replay_order_matters_witness:
  "lookup (fold op_step [ODelete 2 1 0 0, OData (demo_entry 7 9 300), OData (demo_entry 1 1 94)] WalIndex_new) 1 =
     Some (demo_entry 1 1 94)"
  using replay_order_matters [of "demo_entry 1 1 94" 2 WalIndex_new
      "[OData (demo_entry 1 1 94), ODelete 2 1 0 0]" 0 0 "[ODelete 2 1 0 0, OData (demo_entry 7 9 300), OData (demo_entry 1 1 94)]"]
  by (simp add: demo_entry_def)

end
