(* ===== verification/Wal_Manifest.thy ===== *)
theory Wal_Manifest
  imports Wal_Segment
begin

text \<open>
  The segment manifest (\<^verbatim>\<open>powerfs-core/src/wal/manifest.rs\<close>): the in-memory list of a volume's
  segment files, in the order of their ids. A directory is the map from file names to contents; its
  order stands for the order in which the system lists it, and a missing directory is an empty one.
\<close>

section \<open>State and operations\<close>

type_synonym directory = "(string, bytes) hmap"

datatype SegmentState = StSealed | StActive

record SegEntry =
  sg_seg_id :: u64
  sg_state :: SegmentState
  sg_base_lsn :: u64
  sg_volume_id :: u64

record SegManifest =
  mf_seg_size :: nat
  mf_entries :: "SegEntry list"

definition read_segment_header :: "(bytes \<Rightarrow> u32) \<Rightarrow> bytes \<Rightarrow> SegmentError + SegmentHeader" where
  "read_segment_header crc32c file =
     (if length file < SEG_HEADER_SIZE then Inl UnexpectedEof
      else SegmentHeader_decode crc32c (take SEG_HEADER_SIZE file))"

fun load_entries :: "(bytes \<Rightarrow> u32) \<Rightarrow> directory \<Rightarrow> SegmentError + SegEntry list" where
  "load_entries crc32c [] = Inr []"
| "load_entries crc32c ((name, file) # rest) =
     (case parse_seg_id name of
        None \<Rightarrow> load_entries crc32c rest
      | Some seg_id \<Rightarrow>
          (case read_segment_header crc32c file of
             Inl e \<Rightarrow> Inl e
           | Inr header \<Rightarrow>
               if sh_seg_id header \<noteq> seg_id then Inl BadFileName
               else
                 (case load_entries crc32c rest of
                    Inl e \<Rightarrow> Inl e
                  | Inr es \<Rightarrow>
                      Inr (\<lparr>sg_seg_id = seg_id,
                            sg_state = (if is_sealed header then StSealed else StActive),
                            sg_base_lsn = sh_base_lsn header,
                            sg_volume_id = sh_volume_id header\<rparr> # es))))"

definition seal_entry :: "SegEntry \<Rightarrow> SegEntry" where
  "seal_entry e = e\<lparr>sg_state := StSealed\<rparr>"

text \<open>Every segment with a successor counts as sealed.\<close>

definition normalise :: "SegEntry list \<Rightarrow> SegEntry list" where
  "normalise es = map seal_entry (take (length es - 1) es) @ drop (length es - 1) es"

definition SegManifest_load ::
  "(bytes \<Rightarrow> u32) \<Rightarrow> directory \<Rightarrow> nat \<Rightarrow> SegmentError + SegManifest" where
  "SegManifest_load crc32c dir seg_size =
     (case load_entries crc32c dir of
        Inl e \<Rightarrow> Inl e
      | Inr es \<Rightarrow> Inr \<lparr>mf_seg_size = seg_size, mf_entries = normalise (sort_key sg_seg_id es)\<rparr>)"

definition mf_active :: "SegManifest \<Rightarrow> SegEntry option" where
  "mf_active m =
     (if mf_entries m = [] then None
      else if sg_state (last (mf_entries m)) = StActive then Some (last (mf_entries m)) else None)"

definition next_seg_id :: "SegManifest \<Rightarrow> u64" where
  "next_seg_id m = (if mf_entries m = [] then 1 else sg_seg_id (last (mf_entries m)) + 1)"

definition mf_register :: "SegManifest \<Rightarrow> u64 \<Rightarrow> u64 \<Rightarrow> u64 \<Rightarrow> SegManifest" where
  "mf_register m seg_id base_lsn volume_id =
     (let es = mf_entries m;
          es' = (if es \<noteq> [] \<and> sg_state (last es) = StActive
                 then butlast es @ [seal_entry (last es)] else es)
      in m\<lparr>mf_entries := es' @ [\<lparr>sg_seg_id = seg_id, sg_state = StActive,
                                 sg_base_lsn = base_lsn, sg_volume_id = volume_id\<rparr>]\<rparr>)"

fun seal_first :: "u64 \<Rightarrow> SegEntry list \<Rightarrow> SegEntry list" where
  "seal_first seg_id [] = []"
| "seal_first seg_id (e # es) = (if sg_seg_id e = seg_id then seal_entry e # es else e # seal_first seg_id es)"

definition mark_sealed :: "SegManifest \<Rightarrow> u64 \<Rightarrow> SegManifest" where
  "mark_sealed m seg_id = m\<lparr>mf_entries := seal_first seg_id (mf_entries m)\<rparr>"

definition mf_remove :: "SegManifest \<Rightarrow> u64 \<Rightarrow> SegManifest \<times> bool" where
  "mf_remove m seg_id =
     (let es = filter (\<lambda>e. sg_seg_id e \<noteq> seg_id) (mf_entries m)
      in (m\<lparr>mf_entries := es\<rparr>, length es \<noteq> length (mf_entries m)))"

section \<open>The invariant\<close>

text \<open>Ids strictly increase and only the newest segment may be active.\<close>

definition manifest_inv :: "SegManifest \<Rightarrow> bool" where
  "manifest_inv m \<longleftrightarrow>
     sorted_wrt (\<lambda>a b. sg_seg_id a < sg_seg_id b) (mf_entries m) \<and>
     (\<forall>e\<in>set (butlast (mf_entries m)). sg_state e = StSealed)"

lemma seal_entry_sel [simp]:
  "sg_seg_id (seal_entry e) = sg_seg_id e" "sg_state (seal_entry e) = StSealed"
  "sg_base_lsn (seal_entry e) = sg_base_lsn e" "sg_volume_id (seal_entry e) = sg_volume_id e"
  by (simp_all add: seal_entry_def)

lemma normalise_snoc: "normalise (es @ [e]) = map seal_entry es @ [e]"
  by (simp add: normalise_def)

lemma normalise_Nil [simp]: "normalise [] = []"
  by (simp add: normalise_def)

lemma sorted_wrt_seal:
  "sorted_wrt (\<lambda>a b. sg_seg_id a < sg_seg_id b) (map seal_entry es) \<longleftrightarrow>
     sorted_wrt (\<lambda>a b. sg_seg_id a < sg_seg_id b) es"
  by (induction es) auto

lemma manifest_inv_normalise:
  "sorted_wrt (\<lambda>a b. sg_seg_id a < sg_seg_id b) es \<Longrightarrow>
     manifest_inv \<lparr>mf_seg_size = sz, mf_entries = normalise es\<rparr>"
  by (cases es rule: rev_cases)
    (auto simp: manifest_inv_def normalise_snoc sorted_wrt_append sorted_wrt_seal)

lemma sort_key_strict:
  assumes "distinct (map f xs)"
  shows "sorted_wrt (\<lambda>a b. f a < (f b :: 'b::linorder)) (sort_key f xs)"
proof -
  have "sorted (map f (sort_key f xs))" "distinct (map f (sort_key f xs))"
    using assms by (simp_all add: distinct_map)
  then have "sorted_wrt (<) (map f (sort_key f xs))"
    by (simp add: strict_sorted_iff)
  then show ?thesis by (simp add: sorted_wrt_map)
qed

lemma manifest_load_inv [inv_intros]:
  assumes "SegManifest_load c dir sz = Inr m" and "load_entries c dir = Inr es"
    and "distinct (map sg_seg_id es)"
  shows "manifest_inv m"
  using assms sort_key_strict [OF assms(3)] by (auto simp: SegManifest_load_def intro: manifest_inv_normalise)

lemma manifest_register_inv [inv_intros]:
  assumes "manifest_inv m" and "\<forall>e\<in>set (mf_entries m). sg_seg_id e < sid"
  shows "manifest_inv (mf_register m sid base vid)"
proof (cases "mf_entries m" rule: rev_cases)
  case Nil
  then show ?thesis by (simp add: manifest_inv_def mf_register_def)
next
  case (snoc es e)
  with assms show ?thesis
    by (auto simp: manifest_inv_def mf_register_def Let_def sorted_wrt_append)
      (metis SegmentState.exhaust)
qed

lemma seal_first_ids [simp]: "map sg_seg_id (seal_first sid es) = map sg_seg_id es"
  by (induction es) auto

lemma seal_first_sealed:
  "\<forall>e\<in>set (butlast es). sg_state e = StSealed \<Longrightarrow> \<forall>e\<in>set (butlast (seal_first sid es)). sg_state e = StSealed"
  by (induction es) (auto split: if_splits)

lemma sorted_ids_iff:
  "sorted_wrt (\<lambda>a b. sg_seg_id a < sg_seg_id b) es \<longleftrightarrow> sorted_wrt (<) (map sg_seg_id es)"
  by (simp add: sorted_wrt_map)

lemma mark_sealed_inv [inv_intros]: "manifest_inv m \<Longrightarrow> manifest_inv (mark_sealed m sid)"
  by (auto simp: manifest_inv_def mark_sealed_def sorted_ids_iff dest: seal_first_sealed)

lemma mf_remove_inv [inv_intros]:
  assumes "manifest_inv m"
  shows "manifest_inv (fst (mf_remove m sid))"
proof -
  let ?es = "mf_entries m"
  have "set (butlast (filter P es)) \<subseteq> set (butlast es)" for P and es :: "SegEntry list"
    by (induction es rule: rev_induct) (auto simp: butlast_append dest: in_set_butlastD)
  with assms show ?thesis
    by (fastforce simp: manifest_inv_def mf_remove_def Let_def sorted_wrt_filter)
qed

lemma mf_active_last:
  "mf_active m = Some e \<Longrightarrow> mf_entries m \<noteq> [] \<and> e = last (mf_entries m) \<and> sg_state e = StActive"
  by (auto simp: mf_active_def split: if_splits)

lemma next_seg_id_fresh:
  assumes "manifest_inv m" and "\<forall>e\<in>set (mf_entries m). sg_seg_id e < - 1" and "e \<in> set (mf_entries m)"
  shows "sg_seg_id e < next_seg_id m"
proof -
  obtain es l where es: "mf_entries m = es @ [l]"
    using assms(3) by (cases "mf_entries m" rule: rev_cases) auto
  have "sg_seg_id e \<le> sg_seg_id l"
    using assms(1,3) es by (auto simp: manifest_inv_def sorted_wrt_append intro: less_imp_le)
  moreover have "sg_seg_id l < sg_seg_id l + 1"
    using assms(2) es by (intro less_plus_one_u64) simp
  ultimately show ?thesis by (simp add: next_seg_id_def es)
qed

lemma load_entries_zeros:
  assumes "(seg_file_name sid, replicate n 0) \<in> set dir"
  shows "\<exists>e. load_entries c dir = Inl e"
  using assms
proof (induction dir)
  case (Cons p dir)
  have zeros: "\<exists>e. read_segment_header c (replicate n 0) = Inl e"
    by (auto simp: read_segment_header_def SegmentHeader_decode_def SEG_MAGIC_def subslice_def
        take_replicate numeral_eq_Suc)
  obtain name bs where p: "p = (name, bs)" by (cases p)
  show ?case
  proof (cases "p = (seg_file_name sid, replicate n 0)")
    case True
    with zeros show ?thesis by (auto simp: p)
  next
    case False
    with Cons obtain e where "load_entries c dir = Inl e" by auto
    then show ?thesis by (auto simp: p split: option.split sum.split)
  qed
qed simp

section \<open>Properties\<close>

text \<open>C24: The manifest keeps its segments in strictly increasing id order with at most the newest one
  active: rolling to a new segment (register the next id), sealing a segment and removing one all keep
  the invariant, and after a roll the new segment is the active one.\<close>

theorem manifest_single_active:
  assumes "manifest_inv m" and "\<forall>e\<in>set (mf_entries m). sg_seg_id e < - 1"
  shows "manifest_inv (mf_register m (next_seg_id m) base vid) \<and>
     mf_active (mf_register m (next_seg_id m) base vid) =
       Some \<lparr>sg_seg_id = next_seg_id m, sg_state = StActive, sg_base_lsn = base, sg_volume_id = vid\<rparr> \<and>
     manifest_inv (mark_sealed m sid) \<and> manifest_inv (fst (mf_remove m sid)) \<and>
     card {e \<in> set (mf_entries m). sg_state e = StActive} \<le> 1"
proof -
  have "{e \<in> set (mf_entries m). sg_state e = StActive} \<subseteq> {last (mf_entries m)}"
    using assms(1) by (cases "mf_entries m" rule: rev_cases) (auto simp: manifest_inv_def)
  then have "card {e \<in> set (mf_entries m). sg_state e = StActive} \<le> 1"
    using card_mono [of "{last (mf_entries m)}"] by simp
  moreover have "manifest_inv (mf_register m (next_seg_id m) base vid)"
    using assms next_seg_id_fresh by (intro manifest_register_inv) auto
  ultimately show ?thesis
    using assms by (auto simp: mf_active_def mf_register_def Let_def intro: mark_sealed_inv mf_remove_inv)
qed

definition demo_manifest :: SegManifest where
  "demo_manifest = \<lparr>mf_seg_size = 200, mf_entries =
     [\<lparr>sg_seg_id = 1, sg_state = StSealed, sg_base_lsn = 1, sg_volume_id = 9\<rparr>,
      \<lparr>sg_seg_id = 2, sg_state = StActive, sg_base_lsn = 5, sg_volume_id = 9\<rparr>]\<rparr>"

theorem manifest_single_active_witness:
  "manifest_inv demo_manifest \<and> manifest_inv (mf_register demo_manifest 3 8 9) \<and>
   card {e \<in> set (mf_entries demo_manifest). sg_state e = StActive} \<le> 1"
proof -
  have "manifest_inv demo_manifest" "\<forall>e\<in>set (mf_entries demo_manifest). sg_seg_id e < - 1"
    "next_seg_id demo_manifest = 3"
    by code_simp+
  with manifest_single_active [of demo_manifest 8 9 2] show ?thesis by simp
qed

text \<open>C32: A crash while a segment is being created blocks the volume: if a segment file exists whose header
  was not yet written (it is empty, or reads as the zeros of its preallocation), loading the manifest
  fails, whatever the other files are.\<close>

theorem interrupted_create_blocks_load:
  assumes "(seg_file_name sid, replicate n 0) \<in> set dir"
  shows "\<exists>e. SegManifest_load c dir sz = Inl e"
  using load_entries_zeros [OF assms, of c] by (auto simp: SegManifest_load_def)

theorem interrupted_create_blocks_load_witness:
  "\<exists>e. SegManifest_load sum_crc [(seg_file_name 2, replicate 200 0)] 200 = Inl e"
  by (rule interrupted_create_blocks_load [where sid = 2 and n = 200]) simp

end
