(* ===== verification/Wal_Replay.thy ===== *)
theory Wal_Replay
  imports Wal_Writer Wal_Index_Laws Wal_Manifest
begin

text \<open>
  Recovery by replay (\<^verbatim>\<open>powerfs-core/src/wal/replay.rs\<close>): the segments of the manifest are scanned in
  order and their records applied to the index; a torn tail is cut off, and a break in the middle of
  the log stops the replay or refuses the volume, as the recovery mode says. The clock read for each
  applied record is the parameter \<open>clk\<close>, indexed by the record's LSN. A segment's file is found in the
  directory under its name; truncation shortens it there.
\<close>

section \<open>Types\<close>

datatype ReplayError =
    RSegment u64 SegmentError
  | RCorrupt u64 nat FrameError
  | RTornNonTail u64 nat
  | RLsnRegression u64 u64 u64
  | RMalformedPayload u64 u64 byte

datatype RecoveryMode = TolerateTail | PointInTime | Absolute

datatype StopReason = SrTornNonTail | SrCorrupt | SrLsnRegression | SrMalformedPayload

record StopPoint =
  sp_seg_id :: u64
  sp_offset :: nat
  sp_reason :: StopReason

record ReplayState =
  rp_dir :: directory
  rp_index :: WalIndex
  rp_frames_replayed :: nat
  rp_frames_skipped :: nat
  rp_truncated :: "(u64, nat) hmap"
  rp_stop :: "StopPoint option"

record ReplayResult =
  rr_dir :: directory
  rr_index :: WalIndex
  rr_frames_replayed :: nat
  rr_frames_skipped :: nat
  rr_truncated :: "(u64, nat) hmap"
  rr_stop :: "StopPoint option"
  rr_abandoned :: "u64 list"
  rr_segments_scanned :: nat

section \<open>Applying one frame\<close>

definition malformed :: "u64 \<Rightarrow> FrameMeta \<Rightarrow> ReplayError" where
  "malformed seg_id meta = RMalformedPayload seg_id (fm_lsn meta) (to_u8 (fm_rtype meta))"

definition apply_frame ::
  "(u64 \<Rightarrow> i64) \<Rightarrow> WalIndex \<Rightarrow> u64 \<Rightarrow> FrameMeta \<Rightarrow> bytes \<Rightarrow> ReplayError + WalIndex" where
  "apply_frame clk index seg_id meta payload =
     (let err = malformed seg_id meta; lsn = fm_lsn meta; off = of_nat (fm_offset meta) in
      case fm_rtype meta of
        Pad \<Rightarrow> Inr index
      | Data \<Rightarrow>
          (case apply_data index seg_id off (fm_crc meta) lsn payload (clk lsn) of
             Inl _ \<Rightarrow> Inl err | Inr idx \<Rightarrow> Inr idx)
      | Delete \<Rightarrow>
          (case apply_delete index lsn payload of Inl _ \<Rightarrow> Inl err | Inr idx \<Rightarrow> Inr idx)
      | CkptAnchor \<Rightarrow>
          if length payload = 16
          then Inr (apply_ckpt_anchor index (of_le (subslice 0 8 payload)) (of_le (subslice 8 16 payload)) lsn)
          else Inl err
      | GcMigrate \<Rightarrow>
          (case apply_gc_migrate index seg_id off (fm_crc meta) lsn payload (clk lsn) of
             Inl _ \<Rightarrow> Inl err | Inr (idx, _) \<Rightarrow> Inr idx)
      | TombPurge \<Rightarrow>
          (case apply_tomb_purge index lsn payload of Inl _ \<Rightarrow> Inl err | Inr idx \<Rightarrow> Inr idx)
      | Attr \<Rightarrow> Inr index
      | SnapTake \<Rightarrow> Inr index
      | SnapDrop \<Rightarrow> Inr index
      | VolumeMeta \<Rightarrow>
          (case apply_volume_meta index lsn payload of Inl _ \<Rightarrow> Inl err | Inr (idx, _) \<Rightarrow> Inr idx))"

text \<open>What the loop does with one scanned frame: skip it, apply it, stop before it, or refuse.\<close>

datatype FrameStep =
    FSkip
  | FApply WalIndex
  | FStop StopReason
  | FFail ReplayError

definition frame_step ::
  "(u64 \<Rightarrow> i64) \<Rightarrow> RecoveryMode \<Rightarrow> u64 \<Rightarrow> u64 \<Rightarrow> WalIndex \<Rightarrow> ScannedFrame \<Rightarrow> FrameStep" where
  "frame_step clk mode skip_lsn seg_id index f =
     (let meta = sf_meta f; lsn = fm_lsn meta; prev = last_lsn index in
      if fm_rtype meta \<noteq> Pad \<and> lsn \<le> skip_lsn then FSkip
      else if fm_rtype meta \<noteq> Pad \<and> lsn \<le> prev then
        (if mode = Absolute then FFail (RLsnRegression seg_id prev lsn) else FStop SrLsnRegression)
      else
        (case apply_frame clk index seg_id meta (sf_payload f) of
           Inl (RMalformedPayload s l t) \<Rightarrow>
             if mode \<noteq> Absolute then FStop SrMalformedPayload else FFail (RMalformedPayload s l t)
         | Inl e \<Rightarrow> FFail e
         | Inr idx \<Rightarrow> FApply idx))"

section \<open>The loops\<close>

definition truncate_segment :: "u64 \<Rightarrow> nat \<Rightarrow> directory \<Rightarrow> directory" where
  "truncate_segment seg_id n dir =
     (case hm_get dir (seg_file_name seg_id) of
        None \<Rightarrow> dir
      | Some bs \<Rightarrow> hm_insert (seg_file_name seg_id) (take n bs) dir)"

definition cut_segment :: "u64 \<Rightarrow> nat \<Rightarrow> ReplayState \<Rightarrow> ReplayState" where
  "cut_segment seg_id cut_at st =
     st\<lparr>rp_dir := truncate_segment seg_id cut_at (rp_dir st),
        rp_truncated := hm_insert seg_id cut_at (rp_truncated st)\<rparr>"

definition stop_at :: "u64 \<Rightarrow> nat \<Rightarrow> StopReason \<Rightarrow> ReplayState \<Rightarrow> ReplayState" where
  "stop_at seg_id cut_at reason st =
     (cut_segment seg_id cut_at st)\<lparr>rp_stop := Some \<lparr>sp_seg_id = seg_id, sp_offset = cut_at, sp_reason = reason\<rparr>\<rparr>"

text \<open>The inner loop over one segment; the flag is the \<^verbatim>\<open>break 'outer\<close>.\<close>

function replay_segment ::
  "(bytes \<Rightarrow> u32) \<Rightarrow> (u64 \<Rightarrow> i64) \<Rightarrow> RecoveryMode \<Rightarrow> u64 \<Rightarrow> StopPoint option \<Rightarrow> bool \<Rightarrow> u64 \<Rightarrow>
     SegReader \<Rightarrow> ReplayState \<Rightarrow> ReplayError + ReplayState \<times> bool" where
  "replay_segment c clk mode skip_lsn forced is_tail seg_id reader st =
     (case next_frame c reader of
        (reader', Inr (Some f)) \<Rightarrow>
          (case frame_step clk mode skip_lsn seg_id (rp_index st) f of
             FSkip \<Rightarrow>
               replay_segment c clk mode skip_lsn forced is_tail seg_id reader'
                 (st\<lparr>rp_frames_skipped := rp_frames_skipped st + 1\<rparr>)
           | FApply idx \<Rightarrow>
               replay_segment c clk mode skip_lsn forced is_tail seg_id reader'
                 (st\<lparr>rp_index := idx, rp_frames_replayed := rp_frames_replayed st + 1\<rparr>)
           | FStop reason \<Rightarrow> Inr (stop_at seg_id (fm_offset (sf_meta f)) reason st, True)
           | FFail e \<Rightarrow> Inl e)
      | (reader', Inr None) \<Rightarrow>
          (case forced of
             Some fs \<Rightarrow>
               if sp_seg_id fs = seg_id
               then Inr (st\<lparr>rp_truncated := hm_insert seg_id (sp_offset fs) (rp_truncated st),
                            rp_stop := Some fs\<rparr>, True)
               else Inr (st, False)
           | None \<Rightarrow> Inr (st, False))
      | (reader', Inl (TornTail at need got)) \<Rightarrow>
          (let valid_end = rd_valid_end reader' in
           if \<not> is_tail \<and> mode = Absolute then Inl (RTornNonTail seg_id valid_end)
           else if \<not> is_tail then Inr (stop_at seg_id valid_end SrTornNonTail st, True)
           else Inr (cut_segment seg_id valid_end st, False))
      | (reader', Inl (ScanCorrupt e)) \<Rightarrow>
          (let valid_end = rd_valid_end reader' in
           if mode = Absolute then Inl (RCorrupt seg_id valid_end e)
           else Inr (stop_at seg_id valid_end SrCorrupt st, True)))"
  by pat_completeness auto

termination replay_segment
  by (relation "measure (\<lambda>(c, clk, mode, skip, forced, tail, sid, r, st). rd_left r)")
    (auto dest: next_frame_progress [OF sym])

declare replay_segment.simps [simp del]

fun replay_segments ::
  "(bytes \<Rightarrow> u32) \<Rightarrow> (u64 \<Rightarrow> i64) \<Rightarrow> RecoveryMode \<Rightarrow> u64 \<Rightarrow> StopPoint option \<Rightarrow> SegEntry list \<Rightarrow>
     ReplayState \<Rightarrow> ReplayError + ReplayState" where
  "replay_segments c clk mode skip_lsn forced [] st = Inr st"
| "replay_segments c clk mode skip_lsn forced (entry # rest) st =
     (let seg_id = sg_seg_id entry in
      case hm_get (rp_dir st) (seg_file_name seg_id) of
        None \<Rightarrow> Inl (RSegment seg_id NotFound)
      | Some bs \<Rightarrow>
          (case SegReader_open c bs of
             Inl source \<Rightarrow> Inl (RSegment seg_id source)
           | Inr reader \<Rightarrow>
               (case replay_segment c clk mode skip_lsn forced (rest = []) seg_id reader st of
                  Inl e \<Rightarrow> Inl e
                | Inr (st', stopped) \<Rightarrow>
                    if stopped then Inr st'
                    else replay_segments c clk mode skip_lsn forced rest st')))"

definition replay_with ::
  "(bytes \<Rightarrow> u32) \<Rightarrow> (u64 \<Rightarrow> i64) \<Rightarrow> directory \<Rightarrow> SegManifest \<Rightarrow> WalIndex \<Rightarrow> RecoveryMode \<Rightarrow> u64 \<Rightarrow>
     StopPoint option \<Rightarrow> ReplayError + ReplayResult" where
  "replay_with c clk dir manifest index mode skip_lsn forced =
     (let segments = mf_entries manifest in
      case replay_segments c clk mode skip_lsn forced segments
             \<lparr>rp_dir = dir, rp_index = index, rp_frames_replayed = 0, rp_frames_skipped = 0,
              rp_truncated = [], rp_stop = None\<rparr> of
        Inl e \<Rightarrow> Inl e
      | Inr st \<Rightarrow>
          (let abandoned = (case rp_stop st of
                 Some sp \<Rightarrow> map sg_seg_id (filter (\<lambda>e. sg_seg_id e > sp_seg_id sp) segments)
               | None \<Rightarrow> [])
           in Inr \<lparr>rr_dir = rp_dir st, rr_index = rp_index st,
                   rr_frames_replayed = rp_frames_replayed st,
                   rr_frames_skipped = rp_frames_skipped st, rr_truncated = rp_truncated st,
                   rr_stop = rp_stop st, rr_abandoned = abandoned,
                   rr_segments_scanned = length segments\<rparr>))"

definition replay_all ::
  "(bytes \<Rightarrow> u32) \<Rightarrow> (u64 \<Rightarrow> i64) \<Rightarrow> directory \<Rightarrow> SegManifest \<Rightarrow> WalIndex \<Rightarrow> RecoveryMode \<Rightarrow> u64 \<Rightarrow>
     ReplayError + ReplayResult" where
  "replay_all c clk dir manifest index mode skip_lsn =
     replay_with c clk dir manifest index mode skip_lsn None"

section \<open>Replay as a fold over the scanned frames\<close>

datatype LoopEnd =
    LEnd ReplayState
  | LStop ReplayState
  | LFail ReplayError

primrec frames_loop ::
  "(u64 \<Rightarrow> i64) \<Rightarrow> RecoveryMode \<Rightarrow> u64 \<Rightarrow> u64 \<Rightarrow> ScannedFrame list \<Rightarrow> ReplayState \<Rightarrow> LoopEnd" where
  "frames_loop clk mode skip_lsn seg_id [] st = LEnd st"
| "frames_loop clk mode skip_lsn seg_id (f # fs) st =
     (case frame_step clk mode skip_lsn seg_id (rp_index st) f of
        FSkip \<Rightarrow> frames_loop clk mode skip_lsn seg_id fs (st\<lparr>rp_frames_skipped := rp_frames_skipped st + 1\<rparr>)
      | FApply idx \<Rightarrow>
          frames_loop clk mode skip_lsn seg_id fs
            (st\<lparr>rp_index := idx, rp_frames_replayed := rp_frames_replayed st + 1\<rparr>)
      | FStop reason \<Rightarrow> LStop (stop_at seg_id (fm_offset (sf_meta f)) reason st)
      | FFail e \<Rightarrow> LFail e)"

definition segment_end ::
  "RecoveryMode \<Rightarrow> StopPoint option \<Rightarrow> bool \<Rightarrow> u64 \<Rightarrow> nat \<Rightarrow> ScanError option \<Rightarrow> ReplayState \<Rightarrow>
     ReplayError + ReplayState \<times> bool" where
  "segment_end mode forced is_tail seg_id valid_end e st =
     (case e of
        None \<Rightarrow>
          (case forced of
             Some fs \<Rightarrow>
               if sp_seg_id fs = seg_id
               then Inr (st\<lparr>rp_truncated := hm_insert seg_id (sp_offset fs) (rp_truncated st),
                            rp_stop := Some fs\<rparr>, True)
               else Inr (st, False)
           | None \<Rightarrow> Inr (st, False))
      | Some (TornTail at need got) \<Rightarrow>
          if \<not> is_tail \<and> mode = Absolute then Inl (RTornNonTail seg_id valid_end)
          else if \<not> is_tail then Inr (stop_at seg_id valid_end SrTornNonTail st, True)
          else Inr (cut_segment seg_id valid_end st, False)
      | Some (ScanCorrupt x) \<Rightarrow>
          if mode = Absolute then Inl (RCorrupt seg_id valid_end x)
          else Inr (stop_at seg_id valid_end SrCorrupt st, True))"

text \<open>The streaming loop is the fold over what the reference scan finds, whatever the chunks are.\<close>

lemma replay_segment_scan:
  assumes "reader_inv r"
  shows "replay_segment c clk mode skip forced tail sid r st =
    (let (fs, e) = scan_all c (pending r) (rd_buf_start r) (rd_prev_crc r)
     in case frames_loop clk mode skip sid fs st of
          LFail x \<Rightarrow> Inl x
        | LStop st' \<Rightarrow> Inr (st', True)
        | LEnd st' \<Rightarrow> segment_end mode forced tail sid (frames_end (rd_buf_start r) fs) e st')"
  using assms
proof (induction "length (pending r)" arbitrary: r st rule: less_induct)
  case less
  from \<open>reader_inv r\<close> show ?case
  proof (cases rule: next_frame_cases [where c = c])
    case (frame h pl n r')
    have len: "length (pending r') < length (pending r)"
      using frame(4) scan_one_Frame_drop [OF frame(1)] by auto
    note IH = less.hyps [OF len frame(3)]
    obtain fs e where sc: "scan_all c (drop n (pending r)) (rd_buf_start r + n) (ucast (fh_crc h)) = (fs, e)"
      by fastforce
    have "scan_all c (pending r) (rd_buf_start r) (rd_prev_crc r) = (scanned h pl (rd_buf_start r) # fs, e)"
      by (simp add: scan_all_Frame [OF frame(1)] sc)
    then show ?thesis
      by (subst replay_segment.simps)
        (simp add: frame(2) IH frame(4,5,6) sc scanned_total_size [OF frame(1)]
          split: FrameStep.split LoopEnd.split)
  next
    case (stop sc r0)
    have "rd_valid_end r = rd_buf_start r" using less.prems by (simp add: reader_inv_def)
    with stop show ?thesis
      by (subst replay_segment.simps, subst scan_all.simps)
        (auto simp: segment_end_def rebuffered_sel Let_def split: ScanOne.splits option.splits)
  qed
qed

section \<open>Playing a sequence of frames\<close>

text \<open>A frame sequence plays when every record advances the LSN and applies without error.\<close>

primrec play :: "(u64 \<Rightarrow> i64) \<Rightarrow> (u64 \<times> ScannedFrame) list \<Rightarrow> WalIndex \<Rightarrow> WalIndex option" where
  "play clk [] idx = Some idx"
| "play clk (sf # fs) idx =
     (case sf of (sid, f) \<Rightarrow>
        if fm_rtype (sf_meta f) \<noteq> Pad \<and> fm_lsn (sf_meta f) \<le> last_lsn idx then None
        else (case apply_frame clk idx sid (sf_meta f) (sf_payload f) of
                Inl _ \<Rightarrow> None | Inr idx' \<Rightarrow> play clk fs idx'))"

definition beyond :: "u64 \<Rightarrow> u64 \<times> ScannedFrame \<Rightarrow> bool" where
  "beyond skip sf \<longleftrightarrow> fm_rtype (sf_meta (snd sf)) = Pad \<or> skip < fm_lsn (sf_meta (snd sf))"

definition advance :: "ReplayState \<Rightarrow> WalIndex \<Rightarrow> nat \<Rightarrow> nat \<Rightarrow> ReplayState" where
  "advance st idx n k = st\<lparr>rp_index := idx, rp_frames_replayed := rp_frames_replayed st + n,
                           rp_frames_skipped := rp_frames_skipped st + k\<rparr>"

lemma play_append:
  "play clk (xs @ ys) idx = (case play clk xs idx of None \<Rightarrow> None | Some i \<Rightarrow> play clk ys i)"
  by (induction xs arbitrary: idx) (auto split: prod.split sum.split)

lemma frames_loop_play:
  assumes "play clk (filter (beyond skip) (map (Pair sid) fs)) (rp_index st) = Some idx"
  shows "\<exists>n k. frames_loop clk mode skip sid fs st = LEnd (advance st idx n k) \<and> n + k = length fs \<and>
           n = length (filter (beyond skip) (map (Pair sid) fs))"
  using assms
proof (induction fs arbitrary: st)
  case Nil
  then show ?case by (simp add: advance_def)
next
  case (Cons f fs)
  show ?case
  proof (cases "beyond skip (sid, f)")
    case True
    then have ok: "\<not> (fm_rtype (sf_meta f) \<noteq> Pad \<and> fm_lsn (sf_meta f) \<le> skip)"
      by (auto simp: beyond_def)
    obtain idx' where ap: "apply_frame clk (rp_index st) sid (sf_meta f) (sf_payload f) = Inr idx'"
      and adv: "\<not> (fm_rtype (sf_meta f) \<noteq> Pad \<and> fm_lsn (sf_meta f) \<le> last_lsn (rp_index st))"
      and rest: "play clk (filter (beyond skip) (map (Pair sid) fs)) idx' = Some idx"
      using Cons.prems True by (auto split: if_splits sum.splits)
    have step: "frame_step clk mode skip sid (rp_index st) f = FApply idx'"
      unfolding frame_step_def Let_def using ok adv ap by simp
    from rest obtain n k where "frames_loop clk mode skip sid fs
        (st\<lparr>rp_index := idx', rp_frames_replayed := rp_frames_replayed st + 1\<rparr>) =
        LEnd (advance (st\<lparr>rp_index := idx', rp_frames_replayed := rp_frames_replayed st + 1\<rparr>) idx n k)"
      "n + k = length fs" "n = length (filter (beyond skip) (map (Pair sid) fs))"
      using Cons.IH [of "st\<lparr>rp_index := idx', rp_frames_replayed := rp_frames_replayed st + 1\<rparr>"] by auto
    with step True show ?thesis
      by (intro exI [of _ "Suc n"] exI [of _ k]) (simp add: advance_def)
  next
    case False
    then have step: "frame_step clk mode skip sid (rp_index st) f = FSkip"
      by (auto simp: frame_step_def beyond_def Let_def)
    obtain n k where "frames_loop clk mode skip sid fs (st\<lparr>rp_frames_skipped := rp_frames_skipped st + 1\<rparr>) =
        LEnd (advance (st\<lparr>rp_frames_skipped := rp_frames_skipped st + 1\<rparr>) idx n k)"
      "n + k = length fs" "n = length (filter (beyond skip) (map (Pair sid) fs))"
      using Cons.IH [of "st\<lparr>rp_frames_skipped := rp_frames_skipped st + 1\<rparr>"] Cons.prems False by auto
    with step False show ?thesis
      by (intro exI [of _ n] exI [of _ "Suc k"]) (simp add: advance_def)
  qed
qed

section \<open>Replay over a volume\<close>

text \<open>The segment file of \<open>sid\<close> opens and scans to the frames \<open>fs\<close>, ending with \<open>e\<close>.\<close>

definition scans ::
  "(bytes \<Rightarrow> u32) \<Rightarrow> directory \<Rightarrow> u64 \<Rightarrow> ScannedFrame list \<Rightarrow> ScanError option \<Rightarrow> bool" where
  "scans c dir sid fs e \<longleftrightarrow>
     (\<exists>bs r. hm_get dir (seg_file_name sid) = Some bs \<and> SegReader_open c bs = Inr r \<and>
        scan_all c (drop SEG_HEADER_SIZE bs) SEG_HEADER_SIZE (chain_seed c (rd_header r)) = (fs, e))"

definition tagged :: "u64 \<Rightarrow> ScannedFrame list \<Rightarrow> (u64 \<times> ScannedFrame) list" where
  "tagged sid fs = map (Pair sid) fs"

lemma advance_advance: "advance (advance st i n k) i' n' k' = advance st i' (n + n') (k + k')"
  by (simp add: advance_def)

lemma advance_sel [simp]:
  "rp_dir (advance st i n k) = rp_dir st" "rp_index (advance st i n k) = i"
  "rp_truncated (advance st i n k) = rp_truncated st" "rp_stop (advance st i n k) = rp_stop st"
  "rp_frames_replayed (advance st i n k) = rp_frames_replayed st + n"
  "rp_frames_skipped (advance st i n k) = rp_frames_skipped st + k"
  by (simp_all add: advance_def)

lemma replay_one:
  assumes "scans c (rp_dir st) (sg_seg_id en) fs e"
    and "play clk (filter (beyond skip) (tagged (sg_seg_id en) fs)) (rp_index st) = Some idx"
  defines "n \<equiv> length (filter (beyond skip) (tagged (sg_seg_id en) fs))"
  shows "replay_segments c clk mode skip forced (en # rest) st =
    (case segment_end mode forced (rest = []) (sg_seg_id en) (frames_end SEG_HEADER_SIZE fs) e
            (advance st idx n (length fs - n)) of
       Inl x \<Rightarrow> Inl x
     | Inr (st', stopped) \<Rightarrow> if stopped then Inr st' else replay_segments c clk mode skip forced rest st')"
proof -
  from assms(1) obtain bs r where bs: "hm_get (rp_dir st) (seg_file_name (sg_seg_id en)) = Some bs"
    and r: "SegReader_open c bs = Inr r"
    and sc: "scan_all c (drop SEG_HEADER_SIZE bs) SEG_HEADER_SIZE (chain_seed c (rd_header r)) = (fs, e)"
    by (auto simp: scans_def)
  note R = SegReader_open_inv [OF r]
  obtain n' k where loop: "frames_loop clk mode skip (sg_seg_id en) fs st = LEnd (advance st idx n' k)"
    and "n' + k = length fs" "n' = n"
    using frames_loop_play [of clk skip "sg_seg_id en" fs st idx mode] assms(2) by (auto simp: tagged_def n_def)
  then have k: "n' = n" "k = length fs - n" by auto
  have "replay_segment c clk mode skip forced (rest = []) (sg_seg_id en) r st =
      segment_end mode forced (rest = []) (sg_seg_id en) (frames_end SEG_HEADER_SIZE fs) e
        (advance st idx n (length fs - n))"
    using replay_segment_scan [OF R(1)] sc loop k by (simp add: R(2-4))
  with bs r show ?thesis by simp
qed

lemma replay_clean:
  assumes "\<forall>en\<in>set es. scans c (rp_dir st) (sg_seg_id en) (F en) None"
    and "play clk (filter (beyond skip) (concat (map (\<lambda>en. tagged (sg_seg_id en) (F en)) es))) (rp_index st) = Some idx"
  shows "\<exists>n k. replay_segments c clk mode skip None (es @ rest) st =
           replay_segments c clk mode skip None rest (advance st idx n k)"
  using assms
proof (induction es arbitrary: st)
  case Nil
  then show ?case by (auto simp: advance_def intro!: exI [of _ 0])
next
  case (Cons en es)
  from Cons.prems(2) obtain i where i:
    "play clk (filter (beyond skip) (tagged (sg_seg_id en) (F en))) (rp_index st) = Some i"
    "play clk (filter (beyond skip) (concat (map (\<lambda>en. tagged (sg_seg_id en) (F en)) es))) i = Some idx"
    by (auto simp: play_append split: option.splits)
  obtain n k where "replay_segments c clk mode skip None (en # es @ rest) st =
      replay_segments c clk mode skip None (es @ rest) (advance st i n k)"
    using replay_one [of c st en "F en" None clk skip i mode None "es @ rest"] Cons.prems(1) i(1)
    by (auto simp: segment_end_def)
  moreover obtain n' k' where "replay_segments c clk mode skip None (es @ rest) (advance st i n k) =
      replay_segments c clk mode skip None rest (advance (advance st i n k) idx n' k')"
    using Cons.IH [of "advance st i n k"] Cons.prems(1) i(2) by auto
  ultimately show ?case by (auto simp: advance_advance)
qed

text \<open>A segment file that holds an image, possibly cut by a crash, scans to its whole records.\<close>

lemma scans_image_cut:
  assumes "hm_get dir (seg_file_name sid) = Some (take m (segment_image c h rs z))"
    and "SEG_HEADER_SIZE \<le> m" and "\<forall>r\<in>set rs. rec_ok r"
  obtains e where "scans c dir sid (frames_of c SEG_HEADER_SIZE (take (whole_recs (m - SEG_HEADER_SIZE) rs) rs)) e"
    and "\<And>x. e \<noteq> Some (ScanCorrupt x)" and "SEG_HEADER_SIZE + log_size rs \<le> m \<Longrightarrow> e = None"
proof -
  obtain r where r: "SegReader_open c (take m (segment_image c h rs z)) = Inr r" "rd_header r = h"
    by (rule open_image_cut [OF assms(2)])
  obtain fs e where sc: "scan_all c (take (m - SEG_HEADER_SIZE) (encode_log c (chain_seed c h) rs @ replicate z 0))
      SEG_HEADER_SIZE (chain_seed c h) = (fs, e)" by fastforce
  note cut = scan_all_image_cut [OF assms(3) sc]
  have "scans c dir sid (frames_of c SEG_HEADER_SIZE (take (whole_recs (m - SEG_HEADER_SIZE) rs) rs)) e"
    unfolding scans_def
  proof (intro exI conjI)
    show "hm_get dir (seg_file_name sid) = Some (take m (segment_image c h rs z))" by (rule assms(1))
    show "SegReader_open c (take m (segment_image c h rs z)) = Inr r" by (rule r(1))
  qed (simp only: drop_segment_image r(2) sc cut(1))
  with cut(2,3) that show thesis by auto
qed

lemma scans_image:
  assumes "hm_get dir (seg_file_name sid) = Some (segment_image c h rs z)" and "\<forall>r\<in>set rs. rec_ok r"
  shows "scans c dir sid (frames_of c SEG_HEADER_SIZE rs) None"
proof -
  let ?m = "SEG_HEADER_SIZE + log_size rs + z"
  have "hm_get dir (seg_file_name sid) = Some (take ?m (segment_image c h rs z))"
    using assms(1) by simp
  moreover have "SEG_HEADER_SIZE \<le> ?m" by linarith
  ultimately obtain e where e:
    "scans c dir sid (frames_of c SEG_HEADER_SIZE (take (whole_recs (?m - SEG_HEADER_SIZE) rs) rs)) e"
    "SEG_HEADER_SIZE + log_size rs \<le> ?m \<Longrightarrow> e = None"
    using assms(2) by (rule scans_image_cut) blast
  then show ?thesis by (simp add: whole_recs_all)
qed

text \<open>A volume: the segments of the manifest, each with its header, its records and its slack.\<close>

type_synonym volume = "(SegmentHeader \<times> log_rec list \<times> nat) list"

definition on_disk :: "(bytes \<Rightarrow> u32) \<Rightarrow> directory \<Rightarrow> SegmentHeader \<times> log_rec list \<times> nat \<Rightarrow> bool" where
  "on_disk c dir sg \<longleftrightarrow>
     (case sg of (h, rs, z) \<Rightarrow>
        hm_get dir (seg_file_name (sh_seg_id h)) = Some (segment_image c h rs z) \<and> (\<forall>r\<in>set rs. rec_ok r))"

definition seg_frames :: "(bytes \<Rightarrow> u32) \<Rightarrow> SegmentHeader \<times> log_rec list \<times> nat \<Rightarrow> (u64 \<times> ScannedFrame) list" where
  "seg_frames c sg = (case sg of (h, rs, z) \<Rightarrow> tagged (sh_seg_id h) (frames_of c SEG_HEADER_SIZE rs))"

definition volume_frames :: "(bytes \<Rightarrow> u32) \<Rightarrow> volume \<Rightarrow> (u64 \<times> ScannedFrame) list" where
  "volume_frames c vol = concat (map (seg_frames c) vol)"

definition seg_ids :: "volume \<Rightarrow> u64 list" where
  "seg_ids vol = map (sh_seg_id \<circ> fst) vol"

lemma volume_frames_append [simp]:
  "volume_frames c (v @ w) = volume_frames c v @ volume_frames c w"
  by (simp add: volume_frames_def)

lemma replay_clean_volume:
  assumes "map sg_seg_id es = seg_ids vol" and "\<forall>sg\<in>set vol. on_disk c (rp_dir st) sg"
    and "play clk (filter (beyond skip) (volume_frames c vol)) (rp_index st) = Some idx"
  shows "\<exists>n k. replay_segments c clk mode skip None (es @ rest) st =
           replay_segments c clk mode skip None rest (advance st idx n k)"
  using assms
proof (induction vol arbitrary: es st)
  case Nil
  then show ?case by (auto simp: seg_ids_def volume_frames_def advance_def intro!: exI [of _ 0])
next
  case (Cons sg vol)
  obtain h rs z where sg: "sg = (h, rs, z)" by (cases sg) auto
  obtain en es' where es: "es = en # es'" "sg_seg_id en = sh_seg_id h" "map sg_seg_id es' = seg_ids vol"
    using Cons.prems(1) by (cases es) (auto simp: seg_ids_def sg)
  have sc: "scans c (rp_dir st) (sg_seg_id en) (frames_of c SEG_HEADER_SIZE rs) None"
    using Cons.prems(2) es(2) by (auto simp: sg on_disk_def intro: scans_image)
  from Cons.prems(3) obtain i where i:
    "play clk (filter (beyond skip) (tagged (sg_seg_id en) (frames_of c SEG_HEADER_SIZE rs))) (rp_index st) = Some i"
    "play clk (filter (beyond skip) (volume_frames c vol)) i = Some idx"
    by (auto simp: volume_frames_def seg_frames_def sg es(2) play_append split: option.splits)
  obtain n k where "replay_segments c clk mode skip None (en # es' @ rest) st =
      replay_segments c clk mode skip None (es' @ rest) (advance st i n k)"
    using replay_one [OF sc i(1), of mode None "es' @ rest"] by (auto simp: segment_end_def)
  moreover obtain n' k' where "replay_segments c clk mode skip None (es' @ rest) (advance st i n k) =
      replay_segments c clk mode skip None rest (advance (advance st i n k) idx n' k')"
    using Cons.IH [OF es(3), of "advance st i n k"] Cons.prems(2) i(2) by auto
  ultimately show ?case by (auto simp: es(1) advance_advance)
qed

lemma on_disk_other:
  "on_disk c dir sg \<Longrightarrow> sh_seg_id (fst sg) \<noteq> sid \<Longrightarrow> on_disk c (hm_insert (seg_file_name sid) bs dir) sg"
  by (cases sg) (simp add: on_disk_def)

lemma play_take:
  assumes "play clk (xs @ filter P (map (Pair sid) (frames_of c pos rs))) idx = Some i"
  shows "\<exists>j. play clk (xs @ filter P (map (Pair sid) (frames_of c pos (take m rs)))) idx = Some j"
proof -
  have "frames_of c pos rs = frames_of c pos (take m rs) @ frames_of c (pos + log_size (take m rs)) (drop m rs)"
    by (metis append_take_drop_id frames_of_append)
  with assms show ?thesis
    by (auto simp: play_append split: option.splits)
qed

text \<open>The heart of recovery: after a crash cut the last segment anywhere behind its header, replay
  succeeds in every mode and rebuilds the index of the longest whole prefix of the log.\<close>

lemma replay_crash:
  fixes m :: nat
  assumes ids: "map sg_seg_id (mf_entries mf) = seg_ids (vol @ [(h, rs, z)])" "distinct (seg_ids (vol @ [(h, rs, z)]))"
    and disk: "\<forall>sg\<in>set (vol @ [(h, rs, z)]). on_disk c dir0 sg"
    and played: "play clk (filter (beyond skip) (volume_frames c (vol @ [(h, rs, z)]))) idx0 = Some idx_full"
    and m: "SEG_HEADER_SIZE \<le> m"
    and dir: "dir = hm_insert (seg_file_name (sh_seg_id h)) (take m (segment_image c h rs z)) dir0"
  defines "rs' \<equiv> take (whole_recs (m - SEG_HEADER_SIZE) rs) rs"
  shows "\<exists>res. replay_all c clk dir mf idx0 mode skip = Inr res \<and> rr_stop res = None \<and> rr_abandoned res = [] \<and>
    play clk (filter (beyond skip) (volume_frames c (vol @ [(h, rs', z)]))) idx0 = Some (rr_index res)"
proof -
  let ?st = "\<lparr>rp_dir = dir, rp_index = idx0, rp_frames_replayed = 0, rp_frames_skipped = 0,
    rp_truncated = [], rp_stop = None\<rparr>"
  obtain es en where es: "mf_entries mf = es @ [en]" "map sg_seg_id es = seg_ids vol" "sg_seg_id en = sh_seg_id h"
    using ids(1) by (cases "mf_entries mf" rule: rev_cases) (auto simp: seg_ids_def)
  have vol: "\<forall>sg\<in>set vol. on_disk c dir sg"
    unfolding dir using disk ids(2)
    by (intro ballI on_disk_other) (auto simp: seg_ids_def image_iff)
  have ok: "\<forall>r\<in>set rs. rec_ok r" using disk by (simp add: on_disk_def)
  obtain i where i: "play clk (filter (beyond skip) (volume_frames c vol)) idx0 = Some i"
    using played by (auto simp: play_append split: option.splits)
  obtain j where j: "play clk (filter (beyond skip) (tagged (sg_seg_id en) (frames_of c SEG_HEADER_SIZE rs'))) i = Some j"
    using played i play_take [of clk "[]" "beyond skip" "sh_seg_id h" c SEG_HEADER_SIZE rs i]
    by (auto simp: volume_frames_def seg_frames_def tagged_def play_append es(3) rs'_def)
  obtain n k where head: "replay_segments c clk mode skip None (es @ [en]) ?st =
      replay_segments c clk mode skip None [en] (advance ?st i n k)"
    using replay_clean_volume [OF es(2), of c ?st clk skip i mode "[en]"] vol i by auto
  obtain e where e: "scans c dir (sh_seg_id h) (frames_of c SEG_HEADER_SIZE rs') e" "\<And>x. e \<noteq> Some (ScanCorrupt x)"
    unfolding rs'_def by (rule scans_image_cut [of dir "sh_seg_id h" m c h rs z]) (use m ok in \<open>auto simp: dir\<close>)
  have "\<exists>st'. replay_segments c clk mode skip None [en] (advance ?st i n k) = Inr st' \<and>
      rp_index st' = j \<and> rp_stop st' = None"
    using replay_one [of c "advance ?st i n k" en _ e clk skip j mode None "[]"] e j es(3)
    by (auto simp: segment_end_def cut_segment_def split: option.splits ScanError.splits)
  then show ?thesis
    using head i j by (auto simp: replay_all_def replay_with_def es(1) volume_frames_def seg_frames_def play_append es(3))
qed

lemma replay_damage:
  assumes es: "mf_entries mf = es @ en # es'" and ids: "map sg_seg_id es = seg_ids vol"
    and vol: "\<forall>sg\<in>set vol. on_disk c dir sg"
    and i: "play clk (filter (beyond skip) (volume_frames c vol)) idx0 = Some i"
    and sc: "scans c dir (sg_seg_id en) fs (Some (ScanCorrupt x))"
    and j: "play clk (filter (beyond skip) (tagged (sg_seg_id en) fs)) i = Some j"
  shows "mode = Absolute \<Longrightarrow> replay_all c clk dir mf idx0 mode skip =
           Inl (RCorrupt (sg_seg_id en) (frames_end SEG_HEADER_SIZE fs) x)"
    and "mode \<noteq> Absolute \<Longrightarrow> \<exists>res. replay_all c clk dir mf idx0 mode skip = Inr res \<and> rr_index res = j \<and>
           rr_stop res = Some \<lparr>sp_seg_id = sg_seg_id en, sp_offset = frames_end SEG_HEADER_SIZE fs, sp_reason = SrCorrupt\<rparr> \<and>
           rr_dir res = truncate_segment (sg_seg_id en) (frames_end SEG_HEADER_SIZE fs) dir \<and>
           rr_abandoned res = map sg_seg_id (filter (\<lambda>e. sg_seg_id e > sg_seg_id en) (mf_entries mf))"
proof -
  let ?st = "\<lparr>rp_dir = dir, rp_index = idx0, rp_frames_replayed = 0, rp_frames_skipped = 0,
    rp_truncated = [], rp_stop = None\<rparr>"
  obtain n k where head: "replay_segments c clk mode skip None (es @ en # es') ?st =
      replay_segments c clk mode skip None (en # es') (advance ?st i n k)"
    using replay_clean_volume [OF ids, of c ?st clk skip i mode "en # es'"] vol i by auto
  have one: "replay_segments c clk mode skip None (en # es') (advance ?st i n k) =
    (if mode = Absolute then Inl (RCorrupt (sg_seg_id en) (frames_end SEG_HEADER_SIZE fs) x)
     else Inr (stop_at (sg_seg_id en) (frames_end SEG_HEADER_SIZE fs) SrCorrupt
       (advance (advance ?st i n k) j (length (filter (beyond skip) (tagged (sg_seg_id en) fs)))
         (length fs - length (filter (beyond skip) (tagged (sg_seg_id en) fs))))))"
    using replay_one [of c "advance ?st i n k" en fs "Some (ScanCorrupt x)" clk skip j mode None es'] sc j
    by (simp add: segment_end_def)
  show "mode = Absolute \<Longrightarrow> replay_all c clk dir mf idx0 mode skip =
      Inl (RCorrupt (sg_seg_id en) (frames_end SEG_HEADER_SIZE fs) x)"
    using head one by (simp add: replay_all_def replay_with_def es)
  show "mode \<noteq> Absolute \<Longrightarrow> \<exists>res. replay_all c clk dir mf idx0 mode skip = Inr res \<and> rr_index res = j \<and>
      rr_stop res = Some \<lparr>sp_seg_id = sg_seg_id en, sp_offset = frames_end SEG_HEADER_SIZE fs, sp_reason = SrCorrupt\<rparr> \<and>
      rr_dir res = truncate_segment (sg_seg_id en) (frames_end SEG_HEADER_SIZE fs) dir \<and>
      rr_abandoned res = map sg_seg_id (filter (\<lambda>e. sg_seg_id e > sg_seg_id en) (mf_entries mf))"
    using head one by (auto simp: replay_all_def replay_with_def es stop_at_def cut_segment_def)
qed

section \<open>Properties\<close>

text \<open>C9: Crash recovery of a volume. If the intact log plays (every record advances the LSN and applies), then
  after a crash that leaves only a prefix of the last segment (its header included), replay succeeds in all
  three recovery modes, stops nowhere, abandons nothing, and rebuilds exactly the index of the records that
  are whole on disk; records at or below the checkpoint's LSN are skipped.\<close>

theorem replay_crash_prefix:
  assumes "map sg_seg_id (mf_entries mf) = seg_ids (vol @ [(h, rs, z)])"
    and "distinct (seg_ids (vol @ [(h, rs, z)]))"
    and "\<forall>sg\<in>set (vol @ [(h, rs, z)]). on_disk c dir0 sg"
    and "play clk (filter (beyond skip) (volume_frames c (vol @ [(h, rs, z)]))) idx0 = Some idx_full"
    and "SEG_HEADER_SIZE \<le> m"
    and "dir = hm_insert (seg_file_name (sh_seg_id h)) (take m (segment_image c h rs z)) dir0"
  shows "\<exists>res. replay_all c clk dir mf idx0 mode skip = Inr res \<and> rr_stop res = None \<and> rr_abandoned res = [] \<and>
    play clk (filter (beyond skip)
      (volume_frames c (vol @ [(h, take (whole_recs (m - SEG_HEADER_SIZE) rs) rs, z)]))) idx0 = Some (rr_index res)"
  by (rule replay_crash [OF assms])

definition demo_header :: SegmentHeader where
  "demo_header = \<lparr>sh_seg_id = 1, sh_volume_id = 2, sh_base_lsn = 1, sh_created_ts = 5, sh_flags = 0\<rparr>"

definition demo_recs :: "log_rec list" where
  "demo_recs =
     [(Data, 0, 1, DataPayload_encode \<lparr>dp_needle_id = 7, dp_data = [1, 2]\<rparr>),
      (Delete, 0, 2, DeletePayload_encode \<lparr>del_needle_id = 7, del_deleted_at = 0, del_retention_until = 9\<rparr>)]"

definition demo_mf :: SegManifest where
  "demo_mf = \<lparr>mf_seg_size = 400, mf_entries =
     [\<lparr>sg_seg_id = 1, sg_state = StActive, sg_base_lsn = 1, sg_volume_id = 2\<rparr>]\<rparr>"

lemma demo_play:
  "\<exists>idx. play (\<lambda>_. 0) (filter (beyond 0) (volume_frames c [(demo_header, demo_recs, 10)])) WalIndex_new = Some idx"
proof -
  have "last_lsn (data_effect e WalIndex_new) = ne_version_lsn e" for e
    using op_step_cursor [of "OData e" WalIndex_new] by (simp add: WalIndex_new_def)
  then show ?thesis
    by (simp add: volume_frames_def seg_frames_def tagged_def demo_header_def demo_recs_def beyond_def
        apply_frame_def codec_simps Let_def) (simp add: WalIndex_new_def word_le_nat_alt)
qed

theorem replay_crash_prefix_witness:
  "\<exists>res. replay_all sum_crc (\<lambda>_. 0)
      [(seg_file_name 1, take 120 (segment_image sum_crc demo_header demo_recs 10))] demo_mf WalIndex_new Absolute 0 =
      Inr res \<and> rr_stop res = None \<and>
     play (\<lambda>_. 0) (filter (beyond 0)
       (volume_frames sum_crc [(demo_header, take (whole_recs 52 demo_recs) demo_recs, 10)])) WalIndex_new = Some (rr_index res)"
proof -
  let ?img = "segment_image sum_crc demo_header demo_recs 10"
  have sid: "sh_seg_id demo_header = 1" by (simp add: demo_header_def)
  have ok: "\<forall>r\<in>set demo_recs. rec_ok r"
    by (simp add: demo_recs_def DataPayload_encode_def DeletePayload_encode_def)
  obtain idx where idx: "play (\<lambda>_. 0)
      (filter (beyond 0) (volume_frames sum_crc ([] @ [(demo_header, demo_recs, 10)]))) WalIndex_new = Some idx"
    using demo_play [of sum_crc] by auto
  have ids: "map sg_seg_id (mf_entries demo_mf) = seg_ids ([] @ [(demo_header, demo_recs, 10)])"
    "distinct (seg_ids ([] @ [(demo_header, demo_recs, 10)]))"
    by (simp_all add: seg_ids_def demo_mf_def sid)
  have disk: "\<forall>sg\<in>set ([] @ [(demo_header, demo_recs, 10)]). on_disk sum_crc [(seg_file_name 1, ?img)] sg"
    using ok by (simp add: sid on_disk_def)
  have dir: "[(seg_file_name 1, take 120 ?img)] =
      hm_insert (seg_file_name (sh_seg_id demo_header)) (take 120 ?img) [(seg_file_name 1, ?img)]"
    by (simp add: sid)
  have n: "SEG_HEADER_SIZE \<le> (120 :: nat)" "120 - SEG_HEADER_SIZE = (52 :: nat)" by simp_all
  show ?thesis
    using replay_crash_prefix [OF ids disk idx n(1) dir, of Absolute] unfolding n(2) append_Nil by blast
qed

text \<open>C23: Damage in the middle of the log. When a segment's scan ends in a checksum or chain failure, the absolute
  mode refuses the volume, and the tolerant modes keep exactly the records before the damage: the index is that
  of the preceding records, the damaged segment is cut behind its last good frame, and every later segment is
  reported as abandoned.\<close>

theorem replay_stops_at_damage:
  assumes "mf_entries mf = es @ en # es'" and "map sg_seg_id es = seg_ids vol"
    and "\<forall>sg\<in>set vol. on_disk c dir sg"
    and "play clk (filter (beyond skip) (volume_frames c vol)) idx0 = Some i"
    and "scans c dir (sg_seg_id en) fs (Some (ScanCorrupt x))"
    and "play clk (filter (beyond skip) (tagged (sg_seg_id en) fs)) i = Some j"
  shows "replay_all c clk dir mf idx0 Absolute skip =
           Inl (RCorrupt (sg_seg_id en) (frames_end SEG_HEADER_SIZE fs) x) \<and>
    (\<forall>mode. mode \<noteq> Absolute \<longrightarrow> (\<exists>res. replay_all c clk dir mf idx0 mode skip = Inr res \<and> rr_index res = j \<and>
       rr_stop res = Some \<lparr>sp_seg_id = sg_seg_id en, sp_offset = frames_end SEG_HEADER_SIZE fs, sp_reason = SrCorrupt\<rparr> \<and>
       rr_dir res = truncate_segment (sg_seg_id en) (frames_end SEG_HEADER_SIZE fs) dir \<and>
       rr_abandoned res = map sg_seg_id (filter (\<lambda>e. sg_seg_id e > sg_seg_id en) (mf_entries mf))))"
  using replay_damage [OF assms] by blast

lemma scan_one_spliced:
  assumes "length pl < 2 ^ 32" and "p \<noteq> q"
  shows "scan_one c (fst (encode_frame c q t f l pl) @ rest) p = Corrupt (ChainMismatch l p q)"
proof -
  have "unat (of_nat (length pl) :: u32) = length pl" using assms(1) by simp
  with assms(2) show ?thesis
    by (simp add: scan_one_def encode_frame_eq codec_simps total_size_def Let_def)
qed

theorem replay_stops_at_damage_witness:
  "let bs = SegmentHeader_encode (\<lambda>_. 5) demo_header @ fst (encode_frame (\<lambda>_. 5) 6 Attr 0 3 [1]) in
   replay_all (\<lambda>_. 5) (\<lambda>_. 0) [(seg_file_name 1, bs)] demo_mf WalIndex_new Absolute 0 =
     Inl (RCorrupt 1 68 (ChainMismatch 3 5 6)) \<and>
   (\<exists>res. replay_all (\<lambda>_. 5) (\<lambda>_. 0) [(seg_file_name 1, bs)] demo_mf WalIndex_new TolerateTail 0 = Inr res \<and>
      rr_index res = WalIndex_new)"
proof -
  let ?c = "\<lambda>_. 5 :: u32"
  let ?bs = "SegmentHeader_encode ?c demo_header @ fst (encode_frame ?c 6 Attr 0 3 [1])"
  let ?en = "\<lparr>sg_seg_id = 1, sg_state = StActive, sg_base_lsn = 1, sg_volume_id = 2\<rparr>"
  have seed: "chain_seed ?c demo_header = 5" by (simp add: chain_seed_def)
  obtain r where r: "SegReader_open ?c ?bs = Inr r" "rd_header r = demo_header"
    using SegReader_open_Inr [of ?bs ?c demo_header] SegmentHeader_decode_encode [of ?c demo_header "[]"] by auto
  have "scan_all ?c (drop SEG_HEADER_SIZE ?bs) SEG_HEADER_SIZE (chain_seed ?c (rd_header r)) =
      ([], Some (ScanCorrupt (ChainMismatch 3 5 6)))"
    using scan_one_spliced [of "[1]" 5 6 ?c Attr 0 3 "[]"]
    by (subst scan_all.simps) (simp add: r(2) seed)
  then have "scans ?c [(seg_file_name 1, ?bs)] (sg_seg_id ?en) [] (Some (ScanCorrupt (ChainMismatch 3 5 6)))"
    using r(1) by (auto simp: scans_def)
  moreover have "mf_entries demo_mf = [] @ ?en # []" by (simp add: demo_mf_def)
  ultimately show ?thesis
    using replay_stops_at_damage [of demo_mf "[]" ?en "[]" "[]" ?c "[(seg_file_name 1, ?bs)]" "\<lambda>_. 0" 0
        WalIndex_new WalIndex_new "[]" "ChainMismatch 3 5 6" WalIndex_new]
    by (auto simp: seg_ids_def volume_frames_def tagged_def Let_def)
qed

end
