(* ===== verification/Wal_Checkpoint.thy ===== *)
theory Wal_Checkpoint
  imports Wal_Replay
begin

text \<open>
  Checkpoint files (\<^verbatim>\<open>powerfs-core/src/wal/checkpoint.rs\<close>): the index and the segment list written out
  as one file with a header checksum and a whole-file checksum, and read back. The tables of the file
  are sequences of fixed-size records; the locale \<open>fixed_record\<close> states what such a record promises and
  proves once that a table is read back. Panics of \<^verbatim>\<open>Vec::with_capacity\<close> on absurd counts and
  failures of file calls are not modelled.
\<close>

section \<open>Types\<close>

abbreviation CKPT_HEADER_SIZE :: nat where "CKPT_HEADER_SIZE \<equiv> 128"
abbreviation CKPT_HEADER_CRC_OFF :: nat where "CKPT_HEADER_CRC_OFF \<equiv> 124"
abbreviation CKPT_FORMAT_VER :: u16 where "CKPT_FORMAT_VER \<equiv> 1"
abbreviation CHECKSUM_ALGO_CRC32C_FRAME :: byte where "CHECKSUM_ALGO_CRC32C_FRAME \<equiv> 0"
abbreviation SEG_STATE_SEALED :: byte where "SEG_STATE_SEALED \<equiv> 0"
abbreviation SEG_STATE_ACTIVE :: byte where "SEG_STATE_ACTIVE \<equiv> 1"

definition CKPT_MAGIC :: bytes where
  "CKPT_MAGIC = [0x50, 0x46, 0x57, 0x4C, 0x43, 0x4B, 0x50, 0x54]"

record CkptSegEntry =
  cs_seg_id :: u64
  cs_state :: byte
  cs_live_bytes :: u64
  cs_staging_bytes :: u64
  cs_dead_bytes :: u64
  cs_base_lsn :: u64
  cs_last_lsn :: u64

record CkptSnapshotEntry =
  cn_snapshot_id :: u64
  cn_root_lsn :: u64
  cn_created_ts :: i64
  cn_name :: bytes

record CkptHeader =
  ch_ckpt_seq :: u64
  ch_applied_lsn :: u64
  ch_volume_id :: u64
  ch_active_seg_id :: u64
  ch_next_seg_id :: u64
  ch_next_needle_id :: u64
  ch_next_snapshot_id :: u64
  ch_created_ts :: i64

record CkptAllocStats =
  ca_used :: u64
  ca_staging :: u64
  ca_garbage :: u64
  ca_pinned :: u64
  ca_active_count :: u64
  ca_deleted_count :: u64
  ca_volume_size :: u64

record CkptData =
  cd_header :: "CkptHeader option"
  cd_segments :: "CkptSegEntry list"
  cd_needles :: "NeedleEntry list"
  cd_tombstones :: "TombstoneEntry list"
  cd_dead :: "DeadCopy list"
  cd_snapshots :: "CkptSnapshotEntry list"
  cd_purged :: "(u64 \<times> u64) list"
  cd_alloc_stats :: CkptAllocStats

datatype CkptError =
    CkNotFound
  | CkBadMagic
  | CkVersion u16
  | CkTruncated nat nat
  | CkHeaderCrc u32 u32
  | CkFileCrc u32 u32
  | CkCountsMismatch

definition to_index_stats :: "CkptAllocStats \<Rightarrow> IndexStats" where
  "to_index_stats a =
     \<lparr>used_bytes = ca_used a, staging_bytes = ca_staging a, garbage_bytes = ca_garbage a,
      pinned_bytes = ca_pinned a, active_count = ca_active_count a, deleted_count = ca_deleted_count a\<rparr>"

section \<open>Record layouts\<close>

abbreviation g64 :: "bytes \<Rightarrow> nat \<Rightarrow> u64" where "g64 s o1 \<equiv> of_le (subslice o1 (o1 + 8) s)"
abbreviation g32 :: "bytes \<Rightarrow> nat \<Rightarrow> u32" where "g32 s o1 \<equiv> of_le (subslice o1 (o1 + 4) s)"

definition enc_seg :: "CkptSegEntry \<Rightarrow> bytes" where
  "enc_seg s = u64_le (cs_seg_id s) @ [cs_state s] @ u64_le (cs_live_bytes s) @ u64_le (cs_staging_bytes s) @
     u64_le (cs_dead_bytes s) @ u64_le (cs_base_lsn s) @ u64_le (cs_last_lsn s)"

definition dec_seg :: "bytes \<Rightarrow> CkptSegEntry" where
  "dec_seg s = \<lparr>cs_seg_id = g64 s 0, cs_state = s ! 8, cs_live_bytes = g64 s 9, cs_staging_bytes = g64 s 17,
     cs_dead_bytes = g64 s 25, cs_base_lsn = g64 s 33, cs_last_lsn = g64 s 41\<rparr>"

definition enc_needle :: "NeedleEntry \<Rightarrow> bytes" where
  "enc_needle n = u64_le (ne_needle_id n) @ u64_le (ne_seg_id n) @ u64_le (ne_offset n) @
     u32_le (ne_data_len n) @ u64_le (ucast (ne_crc n)) @ [CHECKSUM_ALGO_CRC32C_FRAME] @
     u64_le (ne_version_lsn n) @ u32_le 0 @ u64_le (ne_created_at n) @ u32_le (ne_flags n)"

definition dec_needle :: "bytes \<Rightarrow> NeedleEntry" where
  "dec_needle s = \<lparr>ne_needle_id = g64 s 0, ne_seg_id = g64 s 8, ne_offset = g64 s 16, ne_data_len = g32 s 24,
     ne_crc = g32 s 28, ne_version_lsn = g64 s 37, ne_created_at = g64 s 49, ne_flags = g32 s 57\<rparr>"

definition enc_tomb :: "TombstoneEntry \<Rightarrow> bytes" where
  "enc_tomb t = u64_le (te_needle_id t) @ u64_le (te_seg_id t) @ u64_le (te_offset t) @ u32_le (te_data_len t) @
     u32_le (te_crc t) @ u64_le (te_version_lsn t) @ u64_le (te_deleted_at t) @ u64_le (te_retention_until t)"

definition dec_tomb :: "bytes \<Rightarrow> TombstoneEntry" where
  "dec_tomb s = \<lparr>te_needle_id = g64 s 0, te_seg_id = g64 s 8, te_offset = g64 s 16, te_data_len = g32 s 24,
     te_crc = g32 s 28, te_version_lsn = g64 s 32, te_deleted_at = g64 s 40, te_retention_until = g64 s 48\<rparr>"

definition enc_dead :: "DeadCopy \<Rightarrow> bytes" where
  "enc_dead d = u64_le (dc_seg_id d) @ u64_le (dc_offset d) @ u32_le (dc_data_len d) @ u32_le (dc_crc d) @
     u64_le (dc_version_lsn d)"

definition dec_dead :: "bytes \<Rightarrow> DeadCopy" where
  "dec_dead s = \<lparr>dc_seg_id = g64 s 0, dc_offset = g64 s 8, dc_data_len = g32 s 16, dc_crc = g32 s 20,
     dc_version_lsn = g64 s 24\<rparr>"

definition enc_marker :: "u64 \<times> u64 \<Rightarrow> bytes" where
  "enc_marker m = u64_le (fst m) @ u64_le (snd m)"

definition dec_marker :: "bytes \<Rightarrow> u64 \<times> u64" where
  "dec_marker s = (g64 s 0, g64 s 8)"

definition enc_alloc :: "CkptAllocStats \<Rightarrow> bytes" where
  "enc_alloc a = u64_le (ca_used a) @ u64_le (ca_staging a) @ u64_le (ca_garbage a) @ u64_le (ca_pinned a) @
     u64_le (ca_active_count a) @ u64_le (ca_deleted_count a) @ u64_le (ca_volume_size a)"

definition dec_alloc :: "bytes \<Rightarrow> CkptAllocStats" where
  "dec_alloc s = \<lparr>ca_used = g64 s 0, ca_staging = g64 s 8, ca_garbage = g64 s 16, ca_pinned = g64 s 24,
     ca_active_count = g64 s 32, ca_deleted_count = g64 s 40, ca_volume_size = g64 s 48\<rparr>"

definition enc_snapshot :: "CkptSnapshotEntry \<Rightarrow> bytes" where
  "enc_snapshot s = u64_le (cn_snapshot_id s) @ u64_le (cn_root_lsn s) @ u64_le (cn_created_ts s) @
     u16_le (of_nat (length (cn_name s))) @ cn_name s"

section \<open>The file\<close>

definition enc_header :: "(bytes \<Rightarrow> u32) \<Rightarrow> CkptHeader \<Rightarrow> CkptData \<Rightarrow> bytes" where
  "enc_header crc32c h d =
     (let fields = CKPT_MAGIC @ u16_le CKPT_FORMAT_VER @ u16_le (of_nat CKPT_HEADER_SIZE) @
            u64_le (ch_ckpt_seq h) @ u64_le (ch_applied_lsn h) @ u64_le (ch_volume_id h) @
            u64_le (ch_active_seg_id h) @ u64_le (ch_next_seg_id h) @ u64_le (ch_next_needle_id h) @
            u64_le (ch_next_snapshot_id h) @ u64_le (ch_created_ts h) @
            u64_le (of_nat (length (cd_segments d))) @ u64_le (of_nat (length (cd_needles d))) @
            u64_le (of_nat (length (cd_tombstones d))) @ u64_le (of_nat (length (cd_dead d))) @
            u64_le (of_nat (length (cd_snapshots d))) @ u64_le (of_nat (length (cd_purged d)))
      in fields @ u32_le (crc32c fields))"

definition ckpt_body :: "(bytes \<Rightarrow> u32) \<Rightarrow> CkptHeader \<Rightarrow> CkptData \<Rightarrow> bytes" where
  "ckpt_body crc32c h d =
     enc_header crc32c h d @ concat (map enc_seg (cd_segments d)) @ concat (map enc_needle (cd_needles d)) @
     concat (map enc_tomb (cd_tombstones d)) @ concat (map enc_dead (cd_dead d)) @
     concat (map enc_snapshot (cd_snapshots d)) @ concat (map enc_marker (cd_purged d)) @
     enc_alloc (cd_alloc_stats d)"

text \<open>\<^const>\<open>None\<close>: the \<^verbatim>\<open>expect\<close> on a missing header panics.\<close>

definition ckpt_encode :: "(bytes \<Rightarrow> u32) \<Rightarrow> CkptData \<Rightarrow> bytes option" where
  "ckpt_encode crc32c d =
     (case cd_header d of
        None \<Rightarrow> None
      | Some h \<Rightarrow> (let body = ckpt_body crc32c h d in Some (body @ u32_le (crc32c body))))"

definition need :: "bytes \<Rightarrow> nat \<Rightarrow> nat \<Rightarrow> CkptError + bytes \<times> nat" where
  "need raw off n =
     (if off + n > length raw - 4 then Inl (CkTruncated (off + n) (length raw))
      else Inr (subslice off (off + n) raw, off + n))"

primrec read_table ::
  "nat \<Rightarrow> (bytes \<Rightarrow> 'a) \<Rightarrow> bytes \<Rightarrow> nat \<Rightarrow> nat \<Rightarrow> CkptError + 'a list \<times> nat" where
  "read_table sz dec raw 0 off = Inr ([], off)"
| "read_table sz dec raw (Suc k) off =
     (case need raw off sz of
        Inl e \<Rightarrow> Inl e
      | Inr (s, off1) \<Rightarrow>
          (case read_table sz dec raw k off1 of
             Inl e \<Rightarrow> Inl e
           | Inr (xs, off2) \<Rightarrow> Inr (dec s # xs, off2)))"

primrec read_snapshots :: "bytes \<Rightarrow> nat \<Rightarrow> nat \<Rightarrow> CkptError + CkptSnapshotEntry list \<times> nat" where
  "read_snapshots raw 0 off = Inr ([], off)"
| "read_snapshots raw (Suc k) off =
     (case need raw off 26 of
        Inl e \<Rightarrow> Inl e
      | Inr (head, off1) \<Rightarrow>
          (case need raw off1 (unat (of_le (subslice 24 26 head) :: u16)) of
             Inl e \<Rightarrow> Inl e
           | Inr (name, off2) \<Rightarrow>
               (case read_snapshots raw k off2 of
                  Inl e \<Rightarrow> Inl e
                | Inr (xs, off3) \<Rightarrow>
                    Inr (\<lparr>cn_snapshot_id = g64 head 0, cn_root_lsn = g64 head 8,
                          cn_created_ts = g64 head 16, cn_name = utf8_lossy name\<rparr> # xs, off3))))"

definition dec_header :: "bytes \<Rightarrow> CkptHeader" where
  "dec_header raw =
     \<lparr>ch_ckpt_seq = g64 raw 12, ch_applied_lsn = g64 raw 20, ch_volume_id = g64 raw 28,
      ch_active_seg_id = g64 raw 36, ch_next_seg_id = g64 raw 44, ch_next_needle_id = g64 raw 52,
      ch_next_snapshot_id = g64 raw 60, ch_created_ts = g64 raw 68\<rparr>"

definition ckpt_tables :: "bytes \<Rightarrow> CkptError + CkptData" where
  "ckpt_tables raw =
     rbind (read_table 49 dec_seg raw (unat (g64 raw 76)) CKPT_HEADER_SIZE) (\<lambda>(segments, off).
     rbind (read_table 61 dec_needle raw (unat (g64 raw 84)) off) (\<lambda>(needles, off).
     rbind (read_table 56 dec_tomb raw (unat (g64 raw 92)) off) (\<lambda>(tombs, off).
     rbind (read_table 32 dec_dead raw (unat (g64 raw 100)) off) (\<lambda>(dead, off).
     rbind (read_snapshots raw (unat (g64 raw 108)) off) (\<lambda>(snapshots, off).
     rbind (read_table 16 dec_marker raw (unat (g64 raw 116)) off) (\<lambda>(markers, off).
     rbind (need raw off 56) (\<lambda>(st, off).
       if off \<noteq> length raw - 4 then Inl CkCountsMismatch
       else Inr \<lparr>cd_header = Some (dec_header raw), cd_segments = segments, cd_needles = needles,
                 cd_tombstones = tombs, cd_dead = dead, cd_snapshots = snapshots, cd_purged = markers,
                 cd_alloc_stats = dec_alloc st\<rparr>)))))))"

definition ckpt_decode :: "(bytes \<Rightarrow> u32) \<Rightarrow> bytes \<Rightarrow> CkptError + CkptData" where
  "ckpt_decode crc32c raw =
     (if length raw < CKPT_HEADER_SIZE + 4 then Inl (CkTruncated (CKPT_HEADER_SIZE + 4) (length raw))
      else
        (let expect = of_le (drop (length raw - 4) raw); got = crc32c (take (length raw - 4) raw) in
         if expect \<noteq> got then Inl (CkFileCrc expect got)
         else if subslice 0 8 raw \<noteq> CKPT_MAGIC then Inl CkBadMagic
         else
           (let ver = of_le (subslice 8 10 raw) :: u16 in
            if ver \<noteq> CKPT_FORMAT_VER then Inl (CkVersion ver)
            else
              (let header_len = of_le (subslice 10 12 raw) :: u16 in
               if unat header_len \<noteq> CKPT_HEADER_SIZE then Inl (CkVersion header_len)
               else
                 (let expect_hcrc = of_le (subslice CKPT_HEADER_CRC_OFF CKPT_HEADER_SIZE raw);
                      got_hcrc = crc32c (take CKPT_HEADER_CRC_OFF raw)
                  in if expect_hcrc \<noteq> got_hcrc then Inl (CkHeaderCrc expect_hcrc got_hcrc)
                     else ckpt_tables raw)))))"

definition ckpt_file_name :: "u64 \<Rightarrow> string" where
  "ckpt_file_name seq = ''ckpt_'' @ hex16 seq @ ''.bin''"

text \<open>\<^verbatim>\<open>u64::from_str_radix(s, 16)\<close> on a string of any length: an optional plus sign, at least one
  digit, and no overflow.\<close>

definition parse_hex_u64 :: "string \<Rightarrow> u64 option" where
  "parse_hex_u64 s =
     (let ds = (if s \<noteq> [] \<and> hd s = CHR ''+'' then tl s else s);
          v = foldl (\<lambda>a ch. a * 16 + the (hex_value ch)) 0 ds
      in if ds = [] \<or> (\<exists>ch\<in>set ds. hex_value ch = None) \<or> v \<ge> 2 ^ 64 then None else Some (of_nat v))"

definition parse_ckpt_seq :: "string \<Rightarrow> u64 option" where
  "parse_ckpt_seq name =
     (case strip_prefix ''ckpt_'' name of None \<Rightarrow> None | Some s \<Rightarrow>
       (case strip_suffix ''.bin'' s of None \<Rightarrow> None | Some t \<Rightarrow> parse_hex_u64 t))"

definition list_ckpts :: "directory \<Rightarrow> u64 list" where
  "list_ckpts dir = remdups_adj (sort (List.map_filter (\<lambda>(name, _). parse_ckpt_seq name) dir))"

definition latest_seq :: "directory \<Rightarrow> u64 option" where
  "latest_seq dir = (if list_ckpts dir = [] then None else Some (last (list_ckpts dir)))"

definition ckpt_load :: "(bytes \<Rightarrow> u32) \<Rightarrow> directory \<Rightarrow> u64 \<Rightarrow> CkptError + CkptData" where
  "ckpt_load crc32c dir seq =
     (case hm_get dir (ckpt_file_name seq) of
        None \<Rightarrow> Inl CkNotFound
      | Some raw \<Rightarrow> ckpt_decode crc32c raw)"

definition is_future :: "u64 \<Rightarrow> CkptError + CkptData \<Rightarrow> bool" where
  "is_future max_lsn r =
     (case r of
        Inl _ \<Rightarrow> False
      | Inr d \<Rightarrow> (case cd_header d of Some h \<Rightarrow> ch_applied_lsn h | None \<Rightarrow> 0) > max_lsn)"

primrec remove_each :: "(bytes \<Rightarrow> u32) \<Rightarrow> u64 \<Rightarrow> u64 list \<Rightarrow> directory \<Rightarrow> directory \<times> u64 list" where
  "remove_each crc32c max_lsn [] dir = (dir, [])"
| "remove_each crc32c max_lsn (seq # seqs) dir =
     (if is_future max_lsn (ckpt_load crc32c dir seq)
      then (let (dir', removed) = remove_each crc32c max_lsn seqs (hm_remove (ckpt_file_name seq) dir)
            in (dir', seq # removed))
      else remove_each crc32c max_lsn seqs dir)"

definition remove_future_ckpts :: "(bytes \<Rightarrow> u32) \<Rightarrow> directory \<Rightarrow> u64 \<Rightarrow> directory \<times> u64 list" where
  "remove_future_ckpts crc32c dir max_lsn = remove_each crc32c max_lsn (list_ckpts dir) dir"

definition ckpt_build :: "CkptHeader \<Rightarrow> CkptSegEntry list \<Rightarrow> WalIndex \<Rightarrow> CkptData" where
  "ckpt_build header seg_entries index =
     (let st = stats index in
      \<lparr>cd_header = Some header, cd_segments = seg_entries, cd_needles = hm_values (needles index),
       cd_tombstones = hm_values (tombstones index), cd_dead = dead_copies index, cd_snapshots = [],
       cd_purged = purged index,
       cd_alloc_stats = \<lparr>ca_used = used_bytes st, ca_staging = staging_bytes st,
         ca_garbage = garbage_bytes st, ca_pinned = pinned_bytes st, ca_active_count = active_count st,
         ca_deleted_count = deleted_count st, ca_volume_size = volume_size index\<rparr>\<rparr>)"

text \<open>The file is written under a temporary name, synced and renamed over the final name.\<close>

definition ckpt_write :: "(bytes \<Rightarrow> u32) \<Rightarrow> directory \<Rightarrow> CkptData \<Rightarrow> CkptError + directory" where
  "ckpt_write crc32c dir d =
     (case cd_header d of
        None \<Rightarrow> Inl CkCountsMismatch
      | Some hdr \<Rightarrow>
          (let body = the (ckpt_encode crc32c d);
               final_path = ckpt_file_name (ch_ckpt_seq hdr);
               tmp_path = final_path @ ''.tmp'';
               dir1 = hm_insert tmp_path body dir
           in Inr (hm_insert final_path body (hm_remove tmp_path dir1))))"

definition into_index :: "CkptData \<Rightarrow> WalIndex" where
  "into_index d =
     set_volume_size (load_from WalIndex_new (cd_needles d) (cd_tombstones d) (cd_dead d) (cd_purged d))
       (ca_volume_size (cd_alloc_stats d))"

definition add_bytes :: "u64 \<Rightarrow> u64 \<times> u64 \<times> u64 \<Rightarrow> (u64, u64 \<times> u64 \<times> u64) hmap \<Rightarrow> (u64, u64 \<times> u64 \<times> u64) hmap" where
  "add_bytes sid b m =
     (let (l, s, d) = (case hm_get m sid of Some t \<Rightarrow> t | None \<Rightarrow> (0, 0, 0)); (l', s', d') = b
      in hm_insert sid (l + l', s + s', d + d') m)"

definition per_seg_bytes :: "WalIndex \<Rightarrow> (u64, u64 \<times> u64 \<times> u64) hmap" where
  "per_seg_bytes index =
     fold (\<lambda>d. add_bytes (dc_seg_id d) (0, 0, ucast (dc_data_len d))) (dead_copies index)
       (fold (\<lambda>t. add_bytes (te_seg_id t) (0, ucast (te_data_len t), 0)) (hm_values (tombstones index))
         (fold (\<lambda>n. add_bytes (ne_seg_id n) (ucast (ne_data_len n), 0, 0)) (hm_values (needles index)) []))"

section \<open>Reading a table back\<close>

text \<open>The bytes of \<open>raw\<close> from \<open>off\<close> on.\<close>

definition tail_at :: "bytes \<Rightarrow> nat \<Rightarrow> bytes \<Rightarrow> bool" where
  "tail_at raw off rest \<longleftrightarrow> off \<le> length raw \<and> drop off raw = rest"

lemma need_tail:
  assumes "tail_at raw off (s @ rest)" and "length s = n" and "4 \<le> length rest"
  shows "need raw off n = Inr (s, off + n)" and "tail_at raw (off + n) rest"
proof -
  have split: "off \<le> length raw" "drop off raw = s @ rest"
    using assms(1) by (simp_all add: tail_at_def)
  have len: "length raw = off + n + length rest"
    using split(1) arg_cong [OF split(2), of length] assms(2) by simp
  then show "need raw off n = Inr (s, off + n)"
    using assms split by (simp add: need_def subslice_def)
  have "drop n (drop off raw) = rest"
    using assms(2) split(2) by simp
  then show "tail_at raw (off + n) rest"
    using len by (simp add: tail_at_def add.commute)
qed

text \<open>What a record type with a fixed layout promises; then a table of such records is read back.\<close>

locale fixed_record =
  fixes width :: nat
    and enc :: "'a \<Rightarrow> bytes"
    and dec :: "bytes \<Rightarrow> 'a"
  assumes length_enc: "length (enc x) = width"
    and dec_enc: "dec (enc x) = x"
begin

lemma read_encoded:
  assumes "tail_at raw off (concat (map enc xs) @ rest)" and "4 \<le> length rest"
  shows "\<exists>off'. read_table width dec raw (length xs) off = Inr (xs, off') \<and> tail_at raw off' rest"
  using assms(1)
proof (induction xs arbitrary: off)
  case (Cons x xs)
  then have "tail_at raw off (enc x @ (concat (map enc xs) @ rest))" by simp
  note step = need_tail [OF this length_enc]
  with assms(2) have "tail_at raw (off + width) (concat (map enc xs) @ rest)" by simp
  from Cons.IH [OF this] obtain off' where
    "read_table width dec raw (length xs) (off + width) = Inr (xs, off')" "tail_at raw off' rest"
    by blast
  with step assms(2) show ?case by (simp add: dec_enc)
qed simp

lemma length_table: "length (concat (map enc xs)) = width * length xs"
  by (induction xs) (simp_all add: length_enc)

end

interpretation seg_record: fixed_record 49 enc_seg dec_seg
  by unfold_locales (simp_all add: enc_seg_def dec_seg_def codec_simps nth_append)

lemma take_le_bytes_ucast: "take 4 (u64_le (ucast (w :: u32))) = u32_le w"
proof -
  have byte: "ucast (drop_bit k (ucast w :: u64)) = (ucast (drop_bit k w) :: byte)" for k
    by (intro bit_word_eqI) (auto simp: bit_simps dest: bit_imp_le_length)
  show ?thesis
    using byte [of 0] byte [of 8] byte [of 16] byte [of 24]
    by (simp add: numeral_eq_Suc drop_bit_drop_bit)
qed

interpretation needle_record: fixed_record 61 enc_needle dec_needle
proof unfold_locales
  fix n :: NeedleEntry
  have "take 4 (le_bytes 8 (ucast (ne_crc n) :: u64)) = u32_le (ne_crc n)"
    by (rule take_le_bytes_ucast)
  then show "dec_needle (enc_needle n) = n"
    by (simp add: enc_needle_def dec_needle_def codec_simps subslice_def)
qed (simp add: enc_needle_def)

interpretation tomb_record: fixed_record 56 enc_tomb dec_tomb
  by unfold_locales (simp_all add: enc_tomb_def dec_tomb_def codec_simps)

interpretation dead_record: fixed_record 32 enc_dead dec_dead
  by unfold_locales (simp_all add: enc_dead_def dec_dead_def codec_simps)

interpretation marker_record: fixed_record 16 enc_marker dec_marker
  by unfold_locales (simp_all add: enc_marker_def dec_marker_def codec_simps)

interpretation alloc_record: fixed_record 56 enc_alloc dec_alloc
  by unfold_locales (simp_all add: enc_alloc_def dec_alloc_def codec_simps)

lemma read_snapshots_encoded:
  assumes "tail_at raw off (concat (map enc_snapshot xs) @ rest)" and "4 \<le> length rest"
    and "\<forall>s\<in>set xs. utf8_valid (cn_name s) \<and> length (cn_name s) < 2 ^ 16"
  shows "\<exists>off'. read_snapshots raw (length xs) off = Inr (xs, off') \<and> tail_at raw off' rest"
  using assms(1,3)
proof (induction xs arbitrary: off)
  case (Cons x xs)
  let ?head = "u64_le (cn_snapshot_id x) @ u64_le (cn_root_lsn x) @ u64_le (cn_created_ts x) @
    u16_le (of_nat (length (cn_name x)))"
  have at: "tail_at raw off (?head @ (cn_name x @ concat (map enc_snapshot xs) @ rest))"
    using Cons.prems(1) by (simp add: enc_snapshot_def [of x])
  note head = need_tail [OF at, of 26]
  then have at2: "tail_at raw (off + 26) (cn_name x @ (concat (map enc_snapshot xs) @ rest))"
    using assms(2) by simp
  note name = need_tail [OF at2 refl]
  then have "tail_at raw (off + 26 + length (cn_name x)) (concat (map enc_snapshot xs) @ rest)"
    using assms(2) by simp
  then obtain off' where
    "read_snapshots raw (length xs) (off + 26 + length (cn_name x)) = Inr (xs, off')" "tail_at raw off' rest"
    using Cons.IH Cons.prems(2) by (meson list.set_intros(2))
  with head(1) name(1) assms(2) Cons.prems(2) show ?case
    by (simp add: codec_simps)
qed simp

section \<open>Reading a checkpoint back\<close>

text \<open>What fits the file format: counts of 64 bits, snapshot names that are strings of less than 64 KiB.\<close>

definition ckpt_fits :: "CkptData \<Rightarrow> bool" where
  "ckpt_fits d \<longleftrightarrow>
     length (cd_segments d) < 2 ^ 64 \<and> length (cd_needles d) < 2 ^ 64 \<and> length (cd_tombstones d) < 2 ^ 64 \<and>
     length (cd_dead d) < 2 ^ 64 \<and> length (cd_snapshots d) < 2 ^ 64 \<and> length (cd_purged d) < 2 ^ 64 \<and>
     (\<forall>s\<in>set (cd_snapshots d). utf8_valid (cn_name s) \<and> length (cn_name s) < 2 ^ 16)"

lemma length_CKPT_MAGIC [simp]: "length CKPT_MAGIC = 8"
  by (simp add: CKPT_MAGIC_def)

lemma length_enc_header [simp]: "length (enc_header c h d) = 128"
  by (simp add: enc_header_def)

lemma enc_header_fields:
  "subslice 0 8 (enc_header c h d @ rest) = CKPT_MAGIC"
  "of_le (subslice 8 10 (enc_header c h d @ rest)) = CKPT_FORMAT_VER"
  "of_le (subslice 10 12 (enc_header c h d @ rest)) = (of_nat CKPT_HEADER_SIZE :: u16)"
  "of_le (subslice 124 128 (enc_header c h d @ rest)) = c (take 124 (enc_header c h d))"
  "g64 (enc_header c h d @ rest) 76 = of_nat (length (cd_segments d))"
  "g64 (enc_header c h d @ rest) 84 = of_nat (length (cd_needles d))"
  "g64 (enc_header c h d @ rest) 92 = of_nat (length (cd_tombstones d))"
  "g64 (enc_header c h d @ rest) 100 = of_nat (length (cd_dead d))"
  "g64 (enc_header c h d @ rest) 108 = of_nat (length (cd_snapshots d))"
  "g64 (enc_header c h d @ rest) 116 = of_nat (length (cd_purged d))"
  "dec_header (enc_header c h d @ rest) = h"
  by (simp_all add: enc_header_def dec_header_def Let_def codec_simps)

lemma ckpt_tables_encode:
  assumes fits: "ckpt_fits d" and h: "cd_header d = Some h" and f: "length f = 4"
  shows "ckpt_tables (ckpt_body c h d @ f) = Inr d"
proof -
  let ?raw = "ckpt_body c h d @ f"
  let ?snaps = "concat (map enc_snapshot (cd_snapshots d))"
  let ?tail = "concat (map enc_marker (cd_purged d)) @ enc_alloc (cd_alloc_stats d) @ f"
  have at: "tail_at ?raw 128 (concat (map enc_seg (cd_segments d)) @ concat (map enc_needle (cd_needles d)) @
     concat (map enc_tomb (cd_tombstones d)) @ concat (map enc_dead (cd_dead d)) @ ?snaps @ ?tail)"
    by (simp add: tail_at_def ckpt_body_def)
  obtain o1 where 1: "read_table 49 dec_seg ?raw (length (cd_segments d)) 128 = Inr (cd_segments d, o1)"
    and at1: "tail_at ?raw o1 (concat (map enc_needle (cd_needles d)) @
      concat (map enc_tomb (cd_tombstones d)) @ concat (map enc_dead (cd_dead d)) @ ?snaps @ ?tail)"
    using seg_record.read_encoded [OF at] f by auto
  obtain o2 where 2: "read_table 61 dec_needle ?raw (length (cd_needles d)) o1 = Inr (cd_needles d, o2)"
    and at2: "tail_at ?raw o2 (concat (map enc_tomb (cd_tombstones d)) @ concat (map enc_dead (cd_dead d)) @ ?snaps @ ?tail)"
    using needle_record.read_encoded [OF at1] f by auto
  obtain o3 where 3: "read_table 56 dec_tomb ?raw (length (cd_tombstones d)) o2 = Inr (cd_tombstones d, o3)"
    and at3: "tail_at ?raw o3 (concat (map enc_dead (cd_dead d)) @ ?snaps @ ?tail)"
    using tomb_record.read_encoded [OF at2] f by auto
  obtain o4 where 4: "read_table 32 dec_dead ?raw (length (cd_dead d)) o3 = Inr (cd_dead d, o4)"
    and at4: "tail_at ?raw o4 (?snaps @ ?tail)"
    using dead_record.read_encoded [OF at3] f by auto
  obtain o5 where 5: "read_snapshots ?raw (length (cd_snapshots d)) o4 = Inr (cd_snapshots d, o5)"
    and at5: "tail_at ?raw o5 ?tail"
    using read_snapshots_encoded [OF at4] f fits by (auto simp: ckpt_fits_def)
  obtain o6 where 6: "read_table 16 dec_marker ?raw (length (cd_purged d)) o5 = Inr (cd_purged d, o6)"
    and at6: "tail_at ?raw o6 (enc_alloc (cd_alloc_stats d) @ f)"
    using marker_record.read_encoded [OF at5] f by auto
  have 7: "need ?raw o6 56 = Inr (enc_alloc (cd_alloc_stats d), o6 + 56)" and at7: "tail_at ?raw (o6 + 56) f"
    using need_tail [OF at6 alloc_record.length_enc] f by auto
  have "o6 + 56 = length ?raw - 4"
    using at7 f unfolding tail_at_def by (metis diff_diff_cancel length_drop)
  moreover obtain body where raw: "?raw = enc_header c h d @ body"
    by (simp add: ckpt_body_def)
  note enc_header_fields [of c h d body, folded raw]
  ultimately show ?thesis
    using fits h 1 2 3 4 5 6 7
    by (simp add: ckpt_tables_def ckpt_fits_def alloc_record.dec_enc del: append_assoc)
qed

lemma ckpt_decode_encode:
  assumes "ckpt_fits d" and "ckpt_encode c d = Some raw"
  shows "ckpt_decode c raw = Inr d"
proof -
  obtain h where h: "cd_header d = Some h" and raw: "raw = ckpt_body c h d @ u32_le (c (ckpt_body c h d))"
    using assms(2) by (auto simp: ckpt_encode_def Let_def split: option.splits)
  obtain body where hd: "ckpt_body c h d = enc_header c h d @ body"
    by (simp add: ckpt_body_def)
  have len: "132 \<le> length raw"
    by (simp add: raw hd)
  have crc: "of_le (drop (length raw - 4) raw) = c (take (length raw - 4) raw)"
    by (simp add: raw codec_simps)
  obtain rest where rest: "raw = enc_header c h d @ rest"
    by (simp add: raw hd)
  have "take 124 raw = take 124 (enc_header c h d)"
    by (simp add: rest)
  with ckpt_tables_encode [OF assms(1) h, of "u32_le (c (ckpt_body c h d))" c]
    enc_header_fields [of c h d rest, folded rest] crc len
  show ?thesis
    by (simp add: ckpt_decode_def Let_def raw [symmetric])
qed

section \<open>Writing the file\<close>

lemma parse_hex_u64_hex16 [simp]: "parse_hex_u64 (hex16 w) = Some w"
proof -
  have "hex16 w \<noteq> []" using length_hex16 [of w] by (metis list.size(3) zero_neq_numeral)
  moreover from this have "hd (hex16 w) \<noteq> CHR ''+''"
    using hex16_digits [of "hd (hex16 w)" w] by (auto simp: hex_value_def)
  ultimately show ?thesis
    using unat_u64_bound [of w] by (auto simp: parse_hex_u64_def foldl_hex16 Let_def dest: hex16_digits)
qed

lemma parse_ckpt_file_name [simp]: "parse_ckpt_seq (ckpt_file_name s) = Some s"
  by (simp add: parse_ckpt_seq_def ckpt_file_name_def strip_prefix_def strip_suffix_def)

lemma ckpt_file_name_inject [simp]: "ckpt_file_name a = ckpt_file_name b \<longleftrightarrow> a = b"
  by (metis parse_ckpt_file_name option.inject)

lemma parse_ckpt_tmp [simp]: "parse_ckpt_seq (ckpt_file_name s @ ''.tmp'') = None"
  by (simp add: parse_ckpt_seq_def ckpt_file_name_def strip_prefix_def strip_suffix_def)

lemma tmp_not_ckpt [simp]: "ckpt_file_name s @ ''.tmp'' \<noteq> ckpt_file_name s'" "ckpt_file_name s' \<noteq> ckpt_file_name s @ ''.tmp''"
  by (metis option.distinct(1) parse_ckpt_file_name parse_ckpt_tmp)+

lemma map_filter_update_None:
  "parse_ckpt_seq n = None \<Longrightarrow>
     List.map_filter (\<lambda>(name, _). parse_ckpt_seq name) (hm_insert n v dir) =
     List.map_filter (\<lambda>(name, _). parse_ckpt_seq name) dir"
  by (induction dir) (simp_all add: map_filter_simps case_prod_unfold split: option.split)

lemma list_ckpts_other: "parse_ckpt_seq n = None \<Longrightarrow> list_ckpts (hm_insert n v dir) = list_ckpts dir"
  by (simp add: list_ckpts_def map_filter_update_None)

lemma set_list_ckpts: "set (list_ckpts dir) = {s. \<exists>n\<in>fst ` set dir. parse_ckpt_seq n = Some s}"
  by (force simp: list_ckpts_def List.map_filter_def)

lemma sorted_list_ckpts: "sorted (list_ckpts dir)"
  by (simp add: list_ckpts_def sorted_remdups_adj)

lemma latest_seq_max: "s \<in> set (list_ckpts dir) \<Longrightarrow> \<exists>m. latest_seq dir = Some m \<and> s \<le> m"
  using sorted_list_ckpts [of dir]
  by (cases "list_ckpts dir" rule: rev_cases) (auto simp: latest_seq_def sorted_append)

lemma list_ckpts_insert: "set (list_ckpts (hm_insert (ckpt_file_name s) v dir)) = insert s (set (list_ckpts dir))"
  unfolding set_list_ckpts dom_update by auto

lemma list_ckpts_remove: "parse_ckpt_seq n = None \<Longrightarrow> set (list_ckpts (hm_remove n dir)) = set (list_ckpts dir)"
  unfolding set_list_ckpts AList.delete_eq by force

lemma ckpt_write_files:
  assumes "cd_header d = Some h" and "ckpt_encode c d = Some body"
  shows "\<exists>dir'. ckpt_write c dir d = Inr dir' \<and>
    set (list_ckpts dir') = insert (ch_ckpt_seq h) (set (list_ckpts dir)) \<and>
    (\<forall>n. n \<noteq> ckpt_file_name (ch_ckpt_seq h) @ ''.tmp'' \<longrightarrow>
       hm_get dir' n = (if n = ckpt_file_name (ch_ckpt_seq h) then Some body else hm_get dir n))"
  using assms
  by (simp add: ckpt_write_def Let_def list_ckpts_insert list_ckpts_remove list_ckpts_other)

section \<open>The index of a checkpoint\<close>

abbreviation keyed_needles :: "NeedleEntry list \<Rightarrow> (u64, NeedleEntry) hmap" where
  "keyed_needles ns \<equiv> map (\<lambda>n. (ne_needle_id n, n)) ns"

abbreviation keyed_tombs :: "TombstoneEntry list \<Rightarrow> (u64, TombstoneEntry) hmap" where
  "keyed_tombs ts \<equiv> map (\<lambda>t. (te_needle_id t, t)) ts"

lemma load_needles:
  assumes "distinct (map fst (needles idx) @ map ne_needle_id ns)"
  shows "fold load_needle ns idx = idx\<lparr>
     max_needle_id := fold max (map ne_needle_id ns) (max_needle_id idx),
     last_lsn := fold max (map ne_version_lsn ns) (last_lsn idx),
     stats := (stats idx)\<lparr>used_bytes := used_bytes (stats idx) + (\<Sum>n\<leftarrow>ns. ucast (ne_data_len n)),
                          active_count := active_count (stats idx) + of_nat (length ns)\<rparr>,
     needles := needles idx @ keyed_needles ns\<rparr>"
  using assms
proof (induction ns arbitrary: idx)
  case (Cons n ns)
  have "hm_insert (ne_needle_id n) n (needles idx) = needles idx @ [(ne_needle_id n, n)]"
    using Cons.prems by (intro hm_insert_fresh) auto
  with Cons show ?case
    by (simp add: load_needle_def max.commute algebra_simps)
qed simp

lemma load_tombs:
  assumes "distinct (map fst (tombstones idx) @ map te_needle_id ts)"
  shows "fold load_tomb ts idx = idx\<lparr>
     last_lsn := fold max (map te_version_lsn ts) (last_lsn idx),
     stats := (stats idx)\<lparr>staging_bytes := staging_bytes (stats idx) + (\<Sum>t\<leftarrow>ts. ucast (te_data_len t)),
                          deleted_count := deleted_count (stats idx) + of_nat (length ts)\<rparr>,
     tombstones := tombstones idx @ keyed_tombs ts\<rparr>"
  using assms
proof (induction ts arbitrary: idx)
  case (Cons t ts)
  have "hm_insert (te_needle_id t) t (tombstones idx) = tombstones idx @ [(te_needle_id t, t)]"
    using Cons.prems by (intro hm_insert_fresh) auto
  with Cons show ?case
    by (simp add: load_tomb_def max.commute algebra_simps)
qed simp

lemma load_deads:
  "fold load_dead ds idx = idx\<lparr>
     stats := (stats idx)\<lparr>garbage_bytes := garbage_bytes (stats idx) + (\<Sum>d\<leftarrow>ds. ucast (dc_data_len d))\<rparr>,
     dead_copies := dead_copies idx @ ds\<rparr>"
  by (induction ds arbitrary: idx) (simp_all add: load_dead_def algebra_simps)

lemma load_markers:
  assumes "distinct (map fst (purged idx) @ map fst ms)"
  shows "fold load_marker ms idx = idx\<lparr>
     last_lsn := fold max (map snd ms) (last_lsn idx), purged := purged idx @ ms\<rparr>"
  using assms
proof (induction ms arbitrary: idx)
  case (Cons m ms)
  have "hm_get (purged idx) (fst m) = None"
    using Cons.prems by (auto simp: map_of_eq_None_iff)
  moreover have "hm_insert (fst m) (snd m) (purged idx) = purged idx @ [m]"
    using Cons.prems by (subst hm_insert_fresh) auto
  ultimately have "max_marker (fst m) (snd m) (purged idx) = purged idx @ [m]"
    by (cases "snd m = 0") (simp_all add: max_marker_def word_neq_0_conv)
  with Cons show ?case
    by (simp add: load_marker_def max.commute)
qed simp

lemma fold_max_le: "fold max xs (a :: u64) \<le> b \<longleftrightarrow> a \<le> b \<and> (\<forall>x\<in>set xs. x \<le> b)"
  by (induction xs arbitrary: a) auto

lemma load_from_new:
  assumes "distinct (map ne_needle_id ns)" and "distinct (map te_needle_id ts)" and "distinct (map fst ms)"
  shows "load_from WalIndex_new ns ts ds ms =
    \<lparr>needles = keyed_needles ns, tombstones = keyed_tombs ts, dead_copies = ds,
     stats = \<lparr>used_bytes = (\<Sum>n\<leftarrow>ns. ucast (ne_data_len n)), staging_bytes = (\<Sum>t\<leftarrow>ts. ucast (te_data_len t)),
              garbage_bytes = (\<Sum>d\<leftarrow>ds. ucast (dc_data_len d)), pinned_bytes = 0,
              active_count = of_nat (length ns), deleted_count = of_nat (length ts)\<rparr>,
     last_lsn = fold max (map snd ms) (fold max (map te_version_lsn ts) (fold max (map ne_version_lsn ns) 0)),
     max_needle_id = fold max (map ne_needle_id ns) 0, last_ckpt_anchor = None, purged = ms, volume_size = 0\<rparr>"
  using assms
  by (simp add: load_from_def load_needles load_tombs load_deads load_markers WalIndex_new_def stats_zero_def)

text \<open>Reading back the checkpoint of an index and setting the cursor to its LSN gives the index again, up
  to the highest needle id, the anchor and the (unused) pinned bytes.\<close>

lemma into_index_build:
  assumes inv: "index_inv idx"
  shows "advance_replay_cursor (into_index (ckpt_build h segs idx)) (last_lsn idx) =
    idx\<lparr>max_needle_id := fold max (map ne_needle_id (hm_values (needles idx))) 0,
        last_ckpt_anchor := None, stats := (stats idx)\<lparr>pinned_bytes := 0\<rparr>\<rparr>"
proof -
  have wf: "hm_wf (needles idx)" "hm_wf (tombstones idx)" "hm_wf (purged idx)"
    and ids: "\<And>k e. hm_get (needles idx) k = Some e \<Longrightarrow> ne_needle_id e = k"
      "\<And>k e. hm_get (tombstones idx) k = Some e \<Longrightarrow> te_needle_id e = k"
    and lsns: "\<And>k e. hm_get (needles idx) k = Some e \<Longrightarrow> ne_version_lsn e \<le> last_lsn idx"
      "\<And>k e. hm_get (tombstones idx) k = Some e \<Longrightarrow> te_version_lsn e \<le> last_lsn idx"
      "\<And>k l. hm_get (purged idx) k = Some l \<Longrightarrow> l \<le> last_lsn idx"
    using inv by (auto simp: index_inv_def index_wf_def lsn_ok_def)
  have keyed: "keyed_needles (hm_values (needles idx)) = needles idx" "keyed_tombs (hm_values (tombstones idx)) = tombstones idx"
    using wf ids by (auto simp: hm_wf_def intro!: map_idI)
  then have fsts: "map ne_needle_id (hm_values (needles idx)) = map fst (needles idx)"
    "map te_needle_id (hm_values (tombstones idx)) = map fst (tombstones idx)"
    by (metis (no_types, lifting) fst_conv map_eq_conv map_map o_apply)+
  have le: "fold max (map snd (purged idx)) (fold max (map te_version_lsn (hm_values (tombstones idx)))
      (fold max (map ne_version_lsn (hm_values (needles idx))) 0)) \<le> last_lsn idx"
    using wf lsns by (auto simp: fold_max_le hm_wf_def)
  have "assert_consistent idx" using inv by (rule index_inv_assert_consistent)
  moreover have "distinct (map ne_needle_id (hm_values (needles idx)))"
    "distinct (map te_needle_id (hm_values (tombstones idx)))" "distinct (map fst (purged idx))"
    using wf by (simp_all only: fsts hm_wf_def)
  note load_from_new [OF this, of "dead_copies idx"]
  ultimately show ?thesis
    using le
    by (simp add: into_index_def ckpt_build_def Let_def keyed set_volume_size_def
        advance_replay_cursor_def assert_consistent_def max_absorb2 del: map_map)
qed

section \<open>Recovery from a checkpoint\<close>

text \<open>The fields of the index that replay does not read.\<close>

definition forget :: "WalIndex \<Rightarrow> WalIndex" where
  "forget idx = idx\<lparr>max_needle_id := 0, last_ckpt_anchor := None, stats := (stats idx)\<lparr>pinned_bytes := 0\<rparr>\<rparr>"

lemma forget_sel [simp]:
  "needles (forget i) = needles i" "tombstones (forget i) = tombstones i" "dead_copies (forget i) = dead_copies i"
  "last_lsn (forget i) = last_lsn i" "purged (forget i) = purged i" "volume_size (forget i) = volume_size i"
  by (simp_all add: forget_def)

lemma forget_forget [simp]: "forget (forget i) = forget i"
  by (simp add: forget_def)

lemma forget_prims [simp]:
  "forget (bury_tomb n tb i) = bury_tomb n tb (forget i)" "forget (insert_fresh e i) = insert_fresh e (forget i)"
  "forget (overwrite old e i) = overwrite old e (forget i)" "forget (bump_lsn l i) = bump_lsn l (forget i)"
  "forget (bump_needle n i) = forget i" "forget (i\<lparr>purged := m\<rparr>) = (forget i)\<lparr>purged := m\<rparr>"
  "forget (i\<lparr>volume_size := z\<rparr>) = (forget i)\<lparr>volume_size := z\<rparr>"
  "forget (i\<lparr>last_ckpt_anchor := x\<rparr>) = forget i"
  by (simp_all add: forget_def bury_tomb_def insert_fresh_def overwrite_def bump_lsn_def bump_needle_def)

lemma forget_put_data [simp]: "forget (put_data e i) = put_data e (forget i)"
  by (simp add: put_data_def Let_def split: option.split)

lemma forget_data: "forget (data_effect e (forget i)) = forget (data_effect e i)"
  by (simp add: data_effect_def Let_def split: option.split)

lemma forget_delete: "forget (delete_effect l n a u (forget i)) = forget (delete_effect l n a u i)"
proof -
  have "forget (delete_effect l n a u i) = delete_effect l n a u (forget i)" for i
    by (simp add: delete_effect_def Let_def split: option.split) (simp add: forget_def bump_lsn_def)
  then show ?thesis by simp
qed

lemma forget_migrate: "forget (fst (migrate_effect e v (forget i))) = forget (fst (migrate_effect e v i))"
  by (simp add: migrate_effect_def Let_def split: option.split)

lemma forget_purge: "forget (purge_effect l n (forget i)) = forget (purge_effect l n i)"
  by (simp add: purge_effect_def Let_def split: option.split)

lemma forget_anchor: "forget (apply_ckpt_anchor (forget i) s a l) = forget (apply_ckpt_anchor i s a l)"
  by (simp add: apply_ckpt_anchor_def Let_def)

lemma forget_frame:
  "map_sum (\<lambda>e. e) forget (apply_frame clk (forget i) sid m p) = map_sum (\<lambda>e. e) forget (apply_frame clk i sid m p)"
  by (cases "fm_rtype m")
    (simp_all add: apply_frame_def apply_data_def apply_delete_def apply_gc_migrate_def apply_tomb_purge_def
      apply_volume_meta_def Let_def case_prod_unfold forget_data forget_delete forget_migrate forget_purge
      forget_anchor split: sum.split option.split)

lemma play_forget: "map_option forget (play clk fs (forget i)) = map_option forget (play clk fs i)"
proof (induction fs arbitrary: i)
  case (Cons sf fs)
  obtain sid f where sf: "sf = (sid, f)" by fastforce
  note F = forget_frame [of clk i sid "sf_meta f" "sf_payload f"]
  show ?case
  proof (cases "apply_frame clk i sid (sf_meta f) (sf_payload f)")
    case (Inl e)
    with F show ?thesis by (cases "apply_frame clk (forget i) sid (sf_meta f) (sf_payload f)") (auto simp: sf)
  next
    case (Inr a)
    with F obtain b where "apply_frame clk (forget i) sid (sf_meta f) (sf_payload f) = Inr b" "forget b = forget a"
      by (cases "apply_frame clk (forget i) sid (sf_meta f) (sf_payload f)") auto
    with Inr Cons.IH [of a] Cons.IH [of b] show ?thesis by (simp add: sf)
  qed
qed simp

fun idle_type :: "RecordType \<Rightarrow> bool" where
  "idle_type Pad = True"
| "idle_type Attr = True"
| "idle_type SnapTake = True"
| "idle_type SnapDrop = True"
| "idle_type _ = False"

lemma apply_frame_idle: "idle_type (fm_rtype m) \<Longrightarrow> apply_frame clk i sid m p = Inr i"
  by (cases "fm_rtype m") (simp_all add: apply_frame_def)

lemma apply_frame_lsn:
  assumes "apply_frame clk i sid m p = Inr j" and "\<not> idle_type (fm_rtype m)"
  shows "last_lsn j = max (fm_lsn m) (last_lsn i)"
proof -
  note cursor = op_step_cursor [of "OData e" for e, simplified] op_step_cursor [of "ODelete l n a u" for l n a u, simplified]
    op_step_cursor [of "OMigrate e v" for e v, simplified] op_step_cursor [of "OPurge l n" for l n, simplified]
  show ?thesis
    using assms
    by (cases "fm_rtype m")
      (auto simp: apply_frame_def apply_data_def apply_delete_def apply_gc_migrate_def apply_tomb_purge_def
        apply_volume_meta_def apply_ckpt_anchor_def Let_def cursor case_prod_unfold
        split: if_splits sum.splits option.splits)
qed

lemma play_lsn_mono: "play clk fs i = Some j \<Longrightarrow> last_lsn i \<le> last_lsn j"
proof (induction fs arbitrary: i)
  case (Cons sf fs)
  obtain sid f where sf: "sf = (sid, f)" by fastforce
  with Cons.prems obtain k where k: "apply_frame clk i sid (sf_meta f) (sf_payload f) = Inr k" "play clk fs k = Some j"
    by (auto split: if_splits sum.splits)
  have "last_lsn i \<le> last_lsn k"
    using apply_frame_lsn [OF k(1)] apply_frame_idle k(1) by (cases "idle_type (fm_rtype (sf_meta f))") auto
  with Cons.IH [OF k(2)] show ?case by simp
qed simp

lemma play_Cons:
  assumes "play clk ((sid, f) # fs) i = Some j"
  obtains k where "apply_frame clk i sid (sf_meta f) (sf_payload f) = Inr k" and "play clk fs k = Some j"
    and "fm_rtype (sf_meta f) = Pad \<or> last_lsn i < fm_lsn (sf_meta f)"
  using assms by (fastforce split: if_splits sum.splits)

lemma played_idle:
  "play clk xs i = Some j \<Longrightarrow> sf \<in> set xs \<Longrightarrow> beyond (last_lsn j) sf \<Longrightarrow> idle_type (fm_rtype (sf_meta (snd sf)))"
proof (induction xs arbitrary: i)
  case (Cons a xs)
  obtain sid f where a: "a = (sid, f)" by fastforce
  obtain k where k: "apply_frame clk i sid (sf_meta f) (sf_payload f) = Inr k" "play clk xs k = Some j"
    using Cons.prems(1) unfolding a by (rule play_Cons)
  have "idle_type (fm_rtype (sf_meta f)) \<or> fm_lsn (sf_meta f) \<le> last_lsn j"
    using apply_frame_lsn [OF k(1)] play_lsn_mono [OF k(2)]
    by (cases "idle_type (fm_rtype (sf_meta f))") auto
  then have "idle_type (fm_rtype (sf_meta f))" if "beyond (last_lsn j) (sid, f)"
    using that by (auto simp: beyond_def)
  with Cons.IH [OF k(2)] Cons.prems(2,3) show ?case
    unfolding a by (metis set_ConsD snd_conv)
qed simp

lemma play_idle:
  assumes "\<And>sf. sf \<in> set xs \<Longrightarrow> idle_type (fm_rtype (sf_meta (snd sf))) \<and> beyond (last_lsn i) sf"
  shows "play clk xs i = Some i"
  using assms
proof (induction xs)
  case (Cons a xs)
  then show ?case by (cases a) (force simp: apply_frame_idle beyond_def)
qed simp

lemma play_beyond: "play clk ys i = Some j \<Longrightarrow> l \<le> last_lsn i \<Longrightarrow> filter (beyond l) ys = ys"
proof (induction ys arbitrary: i)
  case (Cons a ys)
  obtain sid f where a: "a = (sid, f)" by fastforce
  obtain k where k: "apply_frame clk i sid (sf_meta f) (sf_payload f) = Inr k" "play clk ys k = Some j"
      "fm_rtype (sf_meta f) = Pad \<or> last_lsn i < fm_lsn (sf_meta f)"
    using Cons.prems(1) unfolding a by (rule play_Cons)
  have "l \<le> last_lsn k"
    using apply_frame_lsn [OF k(1)] apply_frame_idle k(1) Cons.prems(2)
    by (cases "idle_type (fm_rtype (sf_meta f))") (auto simp: le_max_iff_disj)
  with Cons.IH [OF k(2)] Cons.prems(2) k(3) show ?case
    by (auto simp: a beyond_def)
qed simp

text \<open>Starting again from the index of a prefix and skipping what its LSN covers replays exactly the rest.\<close>

lemma play_resume:
  assumes "play clk xs i0 = Some i" and "play clk ys i = Some j"
  shows "play clk (filter (beyond (last_lsn i)) (xs @ ys)) i = Some j"
proof -
  have "play clk (filter (beyond (last_lsn i)) xs) i = Some i"
    using played_idle [OF assms(1)] by (intro play_idle) auto
  with assms(2) play_beyond [OF assms(2) order_refl] show ?thesis
    by (simp add: play_append)
qed

lemma play_checkpoint:
  assumes "play clk xs WalIndex_new = Some i" and "play clk ys i = Some j" and "forget i' = forget i"
  shows "\<exists>j'. play clk (filter (beyond (last_lsn i)) (xs @ ys)) i' = Some j' \<and> forget j' = forget j"
proof -
  let ?fs = "filter (beyond (last_lsn i)) (xs @ ys)"
  have "map_option forget (play clk ?fs i') = map_option forget (play clk ?fs i)"
    by (metis assms(3) play_forget)
  then show ?thesis
    using play_resume [OF assms(1,2)] by auto
qed

section \<open>Properties\<close>


definition demo_ckpt_header :: "u64 \<Rightarrow> CkptHeader" where
  "demo_ckpt_header lsn =
     \<lparr>ch_ckpt_seq = 1, ch_applied_lsn = lsn, ch_volume_id = 2, ch_active_seg_id = 1, ch_next_seg_id = 2,
      ch_next_needle_id = 8, ch_next_snapshot_id = 1, ch_created_ts = 5\<rparr>"


text \<open>C8: Recovery through a checkpoint agrees with recovery from the log alone. Take a volume whose log plays,
  and a checkpoint of the index reached after any prefix of it, written to the volume's directory. Loading that
  checkpoint, setting the replay cursor to its LSN and replaying all segments while skipping what the LSN
  covers succeeds, and rebuilds the index of the whole log up to the highest needle id and the anchor (which
  recovery takes from the checkpoint header).\<close>

theorem checkpoint_recovery:
  assumes ids: "map sg_seg_id (mf_entries mf) = seg_ids vol" and disk: "\<forall>sg\<in>set vol. on_disk c dir sg"
    and log: "volume_frames c vol = xs @ ys"
    and prefix: "play clk xs WalIndex_new = Some idx" and rest: "play clk ys idx = Some full"
    and ckpt: "index_inv idx" "d = ckpt_build h segs idx" "ch_applied_lsn h = last_lsn idx" "ckpt_fits d"
    and written: "ckpt_write c dir0 d = Inr dir"
  shows "\<exists>d' res. ckpt_load c dir (ch_ckpt_seq h) = Inr d' \<and> cd_header d' = Some h \<and>
    replay_all c clk dir mf (advance_replay_cursor (into_index d') (ch_applied_lsn h)) mode (ch_applied_lsn h) = Inr res \<and>
    rr_stop res = None \<and> rr_abandoned res = [] \<and> forget (rr_index res) = forget full"
proof -
  let ?start = "advance_replay_cursor (into_index d) (last_lsn idx)"
  have h: "cd_header d = Some h" by (simp add: ckpt(2) ckpt_build_def Let_def)
  then obtain body where body: "ckpt_encode c d = Some body" by (simp add: ckpt_encode_def Let_def)
  have load: "ckpt_load c dir (ch_ckpt_seq h) = Inr d"
    using ckpt_write_files [OF h body, of dir0] written ckpt_decode_encode [OF ckpt(4) body]
    by (auto simp: ckpt_load_def)
  have "forget ?start = forget idx"
    using into_index_build [OF ckpt(1), of h segs] by (simp add: ckpt(2) forget_def)
  from play_checkpoint [OF prefix rest this] obtain j where
    j: "play clk (filter (beyond (last_lsn idx)) (volume_frames c vol)) ?start = Some j" "forget j = forget full"
    by (auto simp: log)
  let ?st = "\<lparr>rp_dir = dir, rp_index = ?start, rp_frames_replayed = 0, rp_frames_skipped = 0,
    rp_truncated = [], rp_stop = None\<rparr>"
  obtain n k where "replay_segments c clk mode (last_lsn idx) None (mf_entries mf @ []) ?st =
      replay_segments c clk mode (last_lsn idx) None [] (advance ?st j n k)"
    using replay_clean_volume [OF ids, of c ?st clk "last_lsn idx" j mode "[]"] disk j(1) by auto
  with load h j(2) ckpt(3) show ?thesis
    by (simp add: replay_all_def replay_with_def)
qed

theorem checkpoint_recovery_witness:
  "\<exists>idx dir d' res.
     play (\<lambda>_. 0) (take 1 (volume_frames sum_crc [(demo_header, demo_recs, 10)])) WalIndex_new = Some idx \<and>
     ckpt_write sum_crc [(seg_file_name 1, segment_image sum_crc demo_header demo_recs 10)]
       (ckpt_build (demo_ckpt_header 1) [] idx) = Inr dir \<and>
     ckpt_load sum_crc dir 1 = Inr d' \<and>
     replay_all sum_crc (\<lambda>_. 0) dir demo_mf (advance_replay_cursor (into_index d') 1) Absolute 1 = Inr res \<and>
     rr_stop res = None"
proof -
  let ?vol = "[(demo_header, demo_recs, 10)]"
  let ?xs = "take 1 (volume_frames sum_crc ?vol)" and ?ys = "drop 1 (volume_frames sum_crc ?vol)"
  have frames: "filter (beyond 0) (volume_frames sum_crc ?vol) = ?xs @ ?ys"
    by (simp add: volume_frames_def seg_frames_def tagged_def demo_recs_def beyond_def)
  obtain full where full: "play (\<lambda>_. 0) (?xs @ ?ys) WalIndex_new = Some full"
    using demo_play [of sum_crc] unfolding frames by blast
  define e where "e = \<lparr>ne_needle_id = 7, ne_seg_id = 1, ne_offset = 94, ne_data_len = 2,
    ne_crc = compute_frame_crc sum_crc (to_u8 Data) 0 1 (DataPayload_encode \<lparr>dp_needle_id = 7, dp_data = [1, 2]\<rparr>),
    ne_version_lsn = 1, ne_created_at = 0, ne_flags = 0\<rparr>"
  have "last_lsn WalIndex_new = 0" by (simp add: WalIndex_new_def)
  then have e: "play (\<lambda>_. 0) ?xs WalIndex_new = Some (op_step (OData e) WalIndex_new)"
      "ne_version_lsn e = 1" "ne_data_len e = 2"
    by (simp_all add: volume_frames_def seg_frames_def tagged_def demo_recs_def demo_header_def apply_frame_def
        codec_simps Let_def e_def)
  then have rest: "play (\<lambda>_. 0) ?ys (op_step (OData e) WalIndex_new) = Some full"
    using full by (simp only: play_append option.case)
  let ?idx = "op_step (OData e) WalIndex_new" and ?h = "demo_ckpt_header 1"
  have inv: "index_inv ?idx"
    using op_steps_inv [of WalIndex_new "[OData e]"] e by simp
  have lsn: "ch_applied_lsn ?h = last_lsn ?idx"
    using op_step_cursor [of "OData e" WalIndex_new] e by (simp add: demo_ckpt_header_def WalIndex_new_def)
  have fits: "ckpt_fits (ckpt_build ?h [] ?idx)"
    by (simp add: ckpt_fits_def ckpt_build_def Let_def data_effect_def put_data_def insert_fresh_def WalIndex_new_def)
  obtain body where body: "ckpt_encode sum_crc (ckpt_build ?h [] ?idx) = Some body"
    by (simp add: ckpt_encode_def ckpt_build_def Let_def)
  let ?dir0 = "[(seg_file_name 1, segment_image sum_crc demo_header demo_recs 10)]"
  obtain dir where dir: "ckpt_write sum_crc ?dir0 (ckpt_build ?h [] ?idx) = Inr dir"
      "hm_get dir (seg_file_name 1) = hm_get ?dir0 (seg_file_name 1)"
    using ckpt_write_files [OF _ body, of ?h ?dir0]
    by (auto simp: ckpt_build_def Let_def seg_file_name_def ckpt_file_name_def)
  have disk: "\<forall>sg\<in>set ?vol. on_disk sum_crc dir sg"
    using dir(2) by (auto simp: on_disk_def demo_header_def demo_recs_def DataPayload_encode_def DeletePayload_encode_def)
  have ids: "map sg_seg_id (mf_entries demo_mf) = seg_ids ?vol"
    by (simp add: demo_mf_def seg_ids_def demo_header_def)
  show ?thesis
    using checkpoint_recovery [OF ids disk _ e(1) rest inv refl lsn fits dir(1), where mode = Absolute] e(1) dir(1)
    by (auto simp: demo_ckpt_header_def)
qed

end
