(* ===== verification/Wal_Superblock.thy ===== *)
theory Wal_Superblock
  imports Wal_Manifest
begin

text \<open>
  The superblock (\<^verbatim>\<open>powerfs-core/src/wal/superblock.rs\<close>): 128 bytes kept in two files that are written in
  turn, the older one each time. The lemmas show that the block is read back, that a store interrupted
  anywhere leaves the old or the new block, and that losing the file being written never loses the old one.
  The result type of the decoder is an option: \<^const>\<open>None\<close> is the panic of the array conversion on a file longer
  than 128 bytes. Failures of file calls are not modelled.
\<close>

section \<open>The block\<close>

abbreviation SB_SIZE :: nat where "SB_SIZE \<equiv> 128"
abbreviation SB_CRC_OFF :: nat where "SB_CRC_OFF \<equiv> 124"
abbreviation SB_FORMAT_VER :: u16 where "SB_FORMAT_VER \<equiv> 1"
abbreviation COPY_A :: string where "COPY_A \<equiv> ''superblock.a''"
abbreviation COPY_B :: string where "COPY_B \<equiv> ''superblock.b''"

definition SB_MAGIC :: bytes where
  "SB_MAGIC = [0x50, 0x46, 0x57, 0x4C, 0x53, 0x42, 0, 0]"

record Superblock =
  sb_seq :: u64
  sb_volume_id :: u64
  sb_latest_ckpt_seq :: u64
  sb_active_seg_id :: u64
  sb_active_seg_size :: u64
  sb_volume_size :: u64
  sb_state :: byte
  sb_created_ts :: i64
  sb_last_mount_ts :: i64
  sb_min_live_snapshot_lsn :: u64

datatype SbError = SbNotFound | SbBothCorrupt

definition sb_encode :: "(bytes \<Rightarrow> u32) \<Rightarrow> Superblock \<Rightarrow> bytes" where
  "sb_encode crc32c sb =
     (let fields = SB_MAGIC @ u16_le SB_FORMAT_VER @ u64_le (sb_seq sb) @ u64_le (sb_volume_id sb) @
            u64_le (sb_latest_ckpt_seq sb) @ u64_le (sb_active_seg_id sb) @ u64_le (sb_active_seg_size sb) @
            u64_le (sb_volume_size sb) @ [sb_state sb] @ u64_le (sb_created_ts sb) @ u64_le (sb_last_mount_ts sb) @
            u64_le (sb_min_live_snapshot_lsn sb);
          buf = fields @ replicate (SB_CRC_OFF - length fields) 0
      in buf @ u32_le (crc32c buf))"

definition sb_decode :: "(bytes \<Rightarrow> u32) \<Rightarrow> bytes \<Rightarrow> (string + Superblock) option" where
  "sb_decode crc32c raw =
     (if length raw < SB_SIZE then Some (Inl ''truncated'')
      else if subslice 0 8 raw \<noteq> SB_MAGIC then Some (Inl ''bad magic'')
      else if (of_le (subslice 8 10 raw) :: u16) \<noteq> SB_FORMAT_VER then Some (Inl ''unsupported version'')
      else if length raw \<noteq> SB_SIZE then None
      else if of_le (drop SB_CRC_OFF raw) \<noteq> crc32c (take SB_CRC_OFF raw) then Some (Inl ''crc mismatch'')
      else Some (Inr
        \<lparr>sb_seq = of_le (subslice 10 18 raw), sb_volume_id = of_le (subslice 18 26 raw),
         sb_latest_ckpt_seq = of_le (subslice 26 34 raw), sb_active_seg_id = of_le (subslice 34 42 raw),
         sb_active_seg_size = of_le (subslice 42 50 raw), sb_volume_size = of_le (subslice 50 58 raw),
         sb_state = raw ! 58, sb_created_ts = of_le (subslice 59 67 raw),
         sb_last_mount_ts = of_le (subslice 67 75 raw), sb_min_live_snapshot_lsn = of_le (subslice 75 83 raw)\<rparr>))"

section \<open>The two copies\<close>

definition read_copy :: "(bytes \<Rightarrow> u32) \<Rightarrow> directory \<Rightarrow> string \<Rightarrow> Superblock option option" where
  "read_copy crc32c dir name =
     (case hm_get dir name of
        None \<Rightarrow> Some None
      | Some raw \<Rightarrow>
          (case sb_decode crc32c raw of
             None \<Rightarrow> None
           | Some (Inl _) \<Rightarrow> Some None
           | Some (Inr sb) \<Rightarrow> Some (Some sb)))"

definition pick_copy :: "directory \<Rightarrow> Superblock option \<Rightarrow> Superblock option \<Rightarrow> SbError + Superblock" where
  "pick_copy dir a b =
     (case (a, b) of
        (Some x, Some y) \<Rightarrow> Inr (if sb_seq x \<ge> sb_seq y then x else y)
      | (Some x, None) \<Rightarrow> Inr x
      | (None, Some y) \<Rightarrow> Inr y
      | (None, None) \<Rightarrow>
          if hm_get dir COPY_A \<noteq> None \<or> hm_get dir COPY_B \<noteq> None then Inl SbBothCorrupt else Inl SbNotFound)"

definition sb_load :: "(bytes \<Rightarrow> u32) \<Rightarrow> directory \<Rightarrow> (SbError + Superblock) option" where
  "sb_load crc32c dir =
     (case read_copy crc32c dir COPY_A of
        None \<Rightarrow> None
      | Some a \<Rightarrow>
          (case read_copy crc32c dir COPY_B of
             None \<Rightarrow> None
           | Some b \<Rightarrow> Some (pick_copy dir a b)))"

definition store_target :: "Superblock option \<Rightarrow> Superblock option \<Rightarrow> string" where
  "store_target cur_a cur_b =
     (case (cur_a, cur_b) of
        (Some a, Some b) \<Rightarrow> if sb_seq a > sb_seq b then COPY_B else COPY_A
      | (Some _, None) \<Rightarrow> COPY_B
      | (None, Some _) \<Rightarrow> COPY_A
      | (None, None) \<Rightarrow> COPY_A)"

definition sb_store :: "(bytes \<Rightarrow> u32) \<Rightarrow> directory \<Rightarrow> Superblock \<Rightarrow> directory option" where
  "sb_store crc32c dir sb =
     (case read_copy crc32c dir COPY_A of
        None \<Rightarrow> None
      | Some cur_a \<Rightarrow>
          (case read_copy crc32c dir COPY_B of
             None \<Rightarrow> None
           | Some cur_b \<Rightarrow>
               (let final_path = store_target cur_a cur_b;
                    tmp_path = final_path @ ''.tmp'';
                    dir1 = hm_insert tmp_path (sb_encode crc32c sb) dir
                in Some (hm_insert final_path (sb_encode crc32c sb) (hm_remove tmp_path dir1)))))"

section \<open>Laws\<close>

lemma length_SB_MAGIC [simp]: "length SB_MAGIC = 8"
  by (simp add: SB_MAGIC_def)

lemma length_sb_encode [simp]: "length (sb_encode c sb) = 128"
  by (simp add: sb_encode_def Let_def)

lemma sb_decode_encode [simp]: "sb_decode c (sb_encode c sb) = Some (Inr sb)"
  by (cases sb) (simp add: sb_decode_def sb_encode_def Let_def codec_simps nth_append)

text \<open>Every state the stores reach: no file panics the decoder, and two good copies differ in their sequence
  number.\<close>

definition sb_inv :: "(bytes \<Rightarrow> u32) \<Rightarrow> directory \<Rightarrow> bool" where
  "sb_inv c dir \<longleftrightarrow>
     (\<exists>a b. read_copy c dir COPY_A = Some a \<and> read_copy c dir COPY_B = Some b \<and>
        (\<forall>x y. a = Some x \<and> b = Some y \<longrightarrow> sb_seq x \<noteq> sb_seq y))"

definition sb_target :: "(bytes \<Rightarrow> u32) \<Rightarrow> directory \<Rightarrow> string" where
  "sb_target c dir = store_target (the (read_copy c dir COPY_A)) (the (read_copy c dir COPY_B))"

lemma sb_inv_empty [simp]: "sb_inv c []"
  by (simp add: sb_inv_def read_copy_def)

lemma read_copy_insert:
  "read_copy c (hm_insert n bs dir) m =
     (if m = n then (case sb_decode c bs of None \<Rightarrow> None | Some (Inl _) \<Rightarrow> Some None | Some (Inr sb) \<Rightarrow> Some (Some sb))
      else read_copy c dir m)"
  by (simp add: read_copy_def)

lemma read_copy_remove: "m \<noteq> n \<Longrightarrow> read_copy c (hm_remove n dir) m = read_copy c dir m"
  by (simp add: read_copy_def)

lemma sb_load_max:
  assumes "read_copy c dir COPY_A = Some a" and "read_copy c dir COPY_B = Some b" and "a = Some x \<or> b = Some x"
  shows "\<exists>old. sb_load c dir = Some (Inr old) \<and> sb_seq x \<le> sb_seq old"
  using assms by (cases a; cases b) (auto simp: sb_load_def pick_copy_def)

lemma sb_store_load:
  assumes "sb_inv c dir" and "\<And>old. sb_load c dir = Some (Inr old) \<Longrightarrow> sb_seq old < sb_seq sb"
  shows "\<exists>dir'. sb_store c dir sb = Some dir' \<and> sb_load c dir' = Some (Inr sb) \<and> sb_inv c dir'"
proof -
  obtain a b where ab: "read_copy c dir COPY_A = Some a" "read_copy c dir COPY_B = Some b"
      and ne: "\<And>x y. a = Some x \<Longrightarrow> b = Some y \<Longrightarrow> sb_seq x \<noteq> sb_seq y"
    using assms(1) by (auto simp: sb_inv_def)
  have new: "sb_seq x < sb_seq sb" if x: "a = Some x \<or> b = Some x" for x
  proof -
    obtain old where "sb_load c dir = Some (Inr old)" "sb_seq x \<le> sb_seq old"
      using sb_load_max [OF ab x] by blast
    with assms(2) show ?thesis by fastforce
  qed
  let ?t = "store_target a b"
  let ?d = "hm_insert ?t (sb_encode c sb) (hm_remove (?t @ ''.tmp'') (hm_insert (?t @ ''.tmp'') (sb_encode c sb) dir))"
  have "sb_store c dir sb = Some ?d" by (simp add: sb_store_def ab Let_def)
  moreover have t: "?t = COPY_A \<or> ?t = COPY_B"
    by (simp add: store_target_def split: option.split)
  then have "read_copy c ?d COPY_A = Some (if ?t = COPY_A then Some sb else a)"
    "read_copy c ?d COPY_B = Some (if ?t = COPY_B then Some sb else b)"
    by (auto simp: read_copy_insert read_copy_remove ab)
  moreover from this t new have "sb_load c ?d = Some (Inr sb)" "sb_inv c ?d"
    by (cases a; cases b; force simp: sb_load_def pick_copy_def sb_inv_def store_target_def)+
  ultimately show ?thesis by blast
qed

text \<open>The file being written is never the one that holds the current block.\<close>

lemma sb_load_without_target:
  assumes inv: "sb_inv c dir" and cur: "sb_load c dir = Some (Inr old)" and bad: "sb_decode c bs = Some (Inl e)"
  shows "sb_load c (hm_insert (sb_target c dir) bs dir) = Some (Inr old)"
proof -
  obtain a b where ab: "read_copy c dir COPY_A = Some a" "read_copy c dir COPY_B = Some b"
      and ne: "\<forall>x y. a = Some x \<and> b = Some y \<longrightarrow> sb_seq x \<noteq> sb_seq y"
    using inv by (auto simp: sb_inv_def)
  then show ?thesis
    using cur bad
    by (cases a; cases b)
      (auto simp: sb_load_def sb_target_def read_copy_insert store_target_def pick_copy_def split: if_splits)
qed

lemma sb_load_other: "n \<noteq> COPY_A \<Longrightarrow> n \<noteq> COPY_B \<Longrightarrow> sb_load c (hm_insert n bs dir) = sb_load c dir"
  by (auto simp: sb_load_def read_copy_insert pick_copy_def split: option.split)

lemma sb_target_cases: "sb_target c dir = COPY_A \<or> sb_target c dir = COPY_B"
  by (simp add: sb_target_def store_target_def split: option.split)

text \<open>A history of stores.\<close>

fun store_all :: "(bytes \<Rightarrow> u32) \<Rightarrow> directory \<Rightarrow> Superblock list \<Rightarrow> directory option" where
  "store_all c dir [] = Some dir"
| "store_all c dir (sb # sbs) = (case sb_store c dir sb of None \<Rightarrow> None | Some dir' \<Rightarrow> store_all c dir' sbs)"

lemma store_all_from:
  assumes "sb_inv c dir" and "sb_load c dir = Some (Inr old)" and "sorted_wrt (<) (map sb_seq (old # sbs))"
  shows "\<exists>dir'. store_all c dir sbs = Some dir' \<and> sb_load c dir' = Some (Inr (last (old # sbs)))"
  using assms
proof (induction sbs arbitrary: dir old)
  case (Cons sb sbs)
  then obtain dir1 where "sb_store c dir sb = Some dir1" "sb_load c dir1 = Some (Inr sb)" "sb_inv c dir1"
    using sb_store_load [of c dir sb] by auto
  with Cons show ?case by auto
qed simp

section \<open>Properties\<close>

text \<open>C27: The superblock survives a crash of its store. With a current block on disk and a new block of a higher
  sequence number: any prefix of the temporary file leaves the current block in force; so does any damage to the
  file the store replaces; and the completed store makes the new block current and keeps the invariant, so the
  next store has the same guarantee.\<close>

theorem superblock_store_crash_safe:
  assumes "sb_inv c dir" and "sb_load c dir = Some (Inr old)" and "sb_seq old < sb_seq sb"
  shows "(\<forall>n. sb_load c (hm_insert (sb_target c dir @ ''.tmp'') (take n (sb_encode c sb)) dir) = Some (Inr old)) \<and>
    (\<forall>bs e. sb_decode c bs = Some (Inl e) \<longrightarrow> sb_load c (hm_insert (sb_target c dir) bs dir) = Some (Inr old)) \<and>
    (\<exists>dir'. sb_store c dir sb = Some dir' \<and> sb_load c dir' = Some (Inr sb) \<and> sb_inv c dir')"
proof (intro conjI allI impI)
  fix n
  show "sb_load c (hm_insert (sb_target c dir @ ''.tmp'') (take n (sb_encode c sb)) dir) = Some (Inr old)"
    using assms(2) sb_target_cases [of c dir] by (subst sb_load_other) auto
next
  fix bs e assume "sb_decode c bs = Some (Inl e)"
  with assms(1,2) show "sb_load c (hm_insert (sb_target c dir) bs dir) = Some (Inr old)"
    by (rule sb_load_without_target)
next
  show "\<exists>dir'. sb_store c dir sb = Some dir' \<and> sb_load c dir' = Some (Inr sb) \<and> sb_inv c dir'"
    using assms by (intro sb_store_load) auto
qed

definition demo_sb :: "u64 \<Rightarrow> Superblock" where
  "demo_sb n = \<lparr>sb_seq = n, sb_volume_id = 2, sb_latest_ckpt_seq = 0, sb_active_seg_id = 1, sb_active_seg_size = 400,
     sb_volume_size = 0, sb_state = 0, sb_created_ts = 5, sb_last_mount_ts = 6, sb_min_live_snapshot_lsn = 0\<rparr>"

theorem superblock_store_crash_safe_witness:
  "\<exists>dir'. sb_store sum_crc [(COPY_A, sb_encode sum_crc (demo_sb 1))] (demo_sb 2) = Some dir' \<and>
     sb_load sum_crc dir' = Some (Inr (demo_sb 2))"
proof -
  let ?dir = "[(COPY_A, sb_encode sum_crc (demo_sb 1))]"
  have "sb_inv sum_crc ?dir" "sb_load sum_crc ?dir = Some (Inr (demo_sb 1))"
    by (auto simp: sb_inv_def sb_load_def read_copy_def pick_copy_def)
  moreover have "sb_seq (demo_sb 1) < sb_seq (demo_sb 2)" by (simp add: demo_sb_def)
  ultimately show ?thesis
    using superblock_store_crash_safe [of sum_crc ?dir "demo_sb 1" "demo_sb 2"] by auto
qed

text \<open>C30: Every sequence of stores with rising sequence numbers, starting from a fresh volume, succeeds and leaves
  the last block stored as the one a mount loads.\<close>

theorem superblock_last_store_wins:
  assumes "sorted_wrt (<) (map sb_seq sbs)" and "sbs \<noteq> []"
  shows "\<exists>dir. store_all c [] sbs = Some dir \<and> sb_load c dir = Some (Inr (last sbs))"
proof -
  obtain sb sbs' where sbs: "sbs = sb # sbs'" using assms(2) by (cases sbs) auto
  have "sb_load c [] = Some (Inl SbNotFound)" by (simp add: sb_load_def read_copy_def pick_copy_def)
  then obtain dir1 where "sb_store c [] sb = Some dir1" "sb_load c dir1 = Some (Inr sb)" "sb_inv c dir1"
    using sb_store_load [of c "[]" sb] by auto
  with assms(1) store_all_from [of c dir1 sb sbs'] show ?thesis by (simp add: sbs)
qed

theorem superblock_last_store_wins_witness:
  "\<exists>dir. store_all sum_crc [] [demo_sb 1, demo_sb 2, demo_sb 3] = Some dir \<and> sb_load sum_crc dir = Some (Inr (demo_sb 3))"
  using superblock_last_store_wins [of "[demo_sb 1, demo_sb 2, demo_sb 3]" sum_crc]
  by (simp add: demo_sb_def del: store_all.simps)

end
