(* ===== verification/Wal_Commit.thy ===== *)
theory Wal_Commit
  imports Wal_Writer "HOL-Library.Multiset"
begin

text \<open>
  Group commit (\<^verbatim>\<open>powerfs-core/src/wal/commit.rs\<close>): writers append under the queue's lock and a worker
  thread syncs the log for all of them. Each stretch of code between two waits on the lock is one
  definition; the threads' interleavings are the step relation \<open>qstep\<close>, in which a thread that waits on a
  condition variable sleeps until it is notified or wakes by chance. The sink the records go to
  is a parameter (\<^const>\<open>None\<close>: its append never returns); the locale \<open>commit_sink\<close> states its contract (the documentation of the trait
  \<^verbatim>\<open>CommitSink\<close>) and proves from it that a record acknowledged as durable is durable. Times are
  milliseconds of a monotonic clock.
\<close>

section \<open>Types\<close>

record Placement =
  pl_seg_id :: u64
  pl_offset :: u64
  pl_crc :: u32
  pl_payload_len :: u32

record CommitConfig =
  cc_async_interval :: nat
  cc_max_dirty_bytes :: u64

datatype CommitMode = Async | Strict

record CommitRequest =
  rq_rtype :: RecordType
  rq_flags :: byte
  rq_payload :: bytes
  rq_mode :: CommitMode

definition CommitRequest_new :: "RecordType \<Rightarrow> bytes \<Rightarrow> CommitRequest" where
  "CommitRequest_new rtype payload = \<lparr>rq_rtype = rtype, rq_flags = 0, rq_payload = payload, rq_mode = Async\<rparr>"

definition strict :: "CommitRequest \<Rightarrow> CommitRequest" where
  "strict r = r\<lparr>rq_mode := Strict\<rparr>"

definition barrier :: "CommitRequest \<Rightarrow> CommitRequest" where
  "barrier r = r\<lparr>rq_flags := rq_flags r OR FLAG_SYNC_BARRIER\<rparr>"

record CommitReceipt =
  rc_lsn :: u64
  rc_durable :: bool
  rc_placement :: Placement

datatype CommitError =
    PayloadTooLarge nat
  | ShuttingDown
  | Sink string

record CommitStats =
  cst_records :: u64
  cst_bytes :: u64
  cst_syncs :: u64

record Undurable =
  ud_lsn :: u64
  ud_bytes :: u64
  ud_enqueued_at :: nat

text \<open>The condition variables of \<^verbatim>\<open>Shared\<close>: the worker waits on the first, callers on the other two.\<close>

datatype Condvar = SyncCv | DurableCv | SpaceCv

text \<open>\<open>cq_notified\<close> are the condition variables notified by the thread that holds the lock. Whoever waits on them
  can go on only when the lock is free again, so the notifications take effect when it is released.\<close>

record CommitCore =
  cq_config :: CommitConfig
  cq_next_lsn :: u64
  cq_flushed_lsn :: u64
  cq_durable_lsn :: u64
  cq_dirty_bytes :: u64
  cq_undurable :: "Undurable list"
  cq_kick :: bool
  cq_waiters :: "(u64 \<times> u64) list"
  cq_shutting_down :: bool
  cq_error :: "CommitError option"
  cq_stats :: CommitStats
  cq_notified :: "Condvar list"

definition notify :: "Condvar list \<Rightarrow> CommitCore \<Rightarrow> CommitCore" where
  "notify cvs core = core\<lparr>cq_notified := cq_notified core @ cvs\<rparr>"

text \<open>\<^const>\<open>None\<close>: the assertion on the budget fails.\<close>

definition CommitQueue_new :: "CommitConfig \<Rightarrow> u64 \<Rightarrow> CommitCore option" where
  "CommitQueue_new config next_lsn =
     (if cc_max_dirty_bytes config = 0 then None
      else Some \<lparr>cq_config = config, cq_next_lsn = next_lsn, cq_flushed_lsn = saturating_sub next_lsn 1,
        cq_durable_lsn = saturating_sub next_lsn 1, cq_dirty_bytes = 0, cq_undurable = [], cq_kick = False,
        cq_waiters = [], cq_shutting_down = False, cq_error = None,
        cq_stats = \<lparr>cst_records = 0, cst_bytes = 0, cst_syncs = 0\<rparr>, cq_notified = []\<rparr>)"

section \<open>Enqueueing\<close>

type_synonym 's sink_append = "'s \<Rightarrow> u64 \<Rightarrow> RecordType \<Rightarrow> byte \<Rightarrow> bytes \<Rightarrow> ('s \<times> (string + Placement)) option"
type_synonym 's sink_sync = "'s \<Rightarrow> 's \<times> (string + unit)"

definition record_bytes :: "CommitRequest \<Rightarrow> u64" where
  "record_bytes req = of_nat (FRAME_HEADER_SIZE + length (rq_payload req))"

definition need_durable :: "CommitRequest \<Rightarrow> bool" where
  "need_durable req \<longleftrightarrow> rq_mode req = Strict \<or> rq_flags req AND FLAG_SYNC_BARRIER \<noteq> 0"

text \<open>How a stretch of \<^verbatim>\<open>enqueue\<close> ends: it returns, waits for budget, or waits for its record to be durable.\<close>

datatype EnqOutcome =
    EnqReturn "CommitError + CommitReceipt"
  | EnqBlocked
  | EnqWait u64 Placement

text \<open>From the append to the first wait.\<close>

definition enqueue_append ::
  "'s sink_append \<Rightarrow> nat \<Rightarrow> CommitCore \<Rightarrow> 's \<Rightarrow> CommitRequest \<Rightarrow>
     (CommitCore \<times> 's \<times> EnqOutcome) option" where
  "enqueue_append app now core sink req =
     (let lsn = cq_next_lsn core;
          core1 = core\<lparr>cq_next_lsn := cq_next_lsn core + 1\<rparr>
      in case app sink lsn (rq_rtype req) (rq_flags req) (rq_payload req) of
           None \<Rightarrow> None
         | Some (sink', Inl e) \<Rightarrow> 
             Some (notify [SyncCv, DurableCv, SpaceCv] (core1\<lparr>cq_error := Some (Sink e)\<rparr>), sink', EnqReturn (Inl (Sink e)))
         | Some (sink', Inr placement) \<Rightarrow>
             (let bytes = record_bytes req;
                  st = cq_stats core1;
                  core2 = core1\<lparr>cq_flushed_lsn := lsn, cq_dirty_bytes := cq_dirty_bytes core1 + bytes,
                    cq_undurable := cq_undurable core1 @
                      [\<lparr>ud_lsn = lsn, ud_bytes = bytes, ud_enqueued_at = now\<rparr>],
                    cq_stats := st\<lparr>cst_records := cst_records st + 1, cst_bytes := cst_bytes st + bytes\<rparr>\<rparr>
              in if need_durable req
                 then Some (notify [SyncCv] (core2\<lparr>cq_kick := True\<rparr>), sink', EnqWait lsn placement)
                 else Some (notify [SyncCv] core2, sink',
                   EnqReturn (Inr \<lparr>rc_lsn = lsn, rc_durable = False, rc_placement = placement\<rparr>))))"

text \<open>The loop on the dirty-byte budget; after a wait it is entered again here.\<close>

definition enqueue_retry ::
  "'s sink_append \<Rightarrow> nat \<Rightarrow> CommitCore \<Rightarrow> 's \<Rightarrow> CommitRequest \<Rightarrow>
     (CommitCore \<times> 's \<times> EnqOutcome) option" where
  "enqueue_retry app now core sink req =
     (if cq_dirty_bytes core + record_bytes req > cc_max_dirty_bytes (cq_config core) then
        (case cq_error core of
           Some e \<Rightarrow> Some (core, sink, EnqReturn (Inl e))
         | None \<Rightarrow>
             if cq_shutting_down core then Some (core, sink, EnqReturn (Inl ShuttingDown))
             else Some (core, sink, EnqBlocked))
      else enqueue_append app now core sink req)"

definition enqueue ::
  "'s sink_append \<Rightarrow> nat \<Rightarrow> CommitCore \<Rightarrow> 's \<Rightarrow> CommitRequest \<Rightarrow>
     (CommitCore \<times> 's \<times> EnqOutcome) option" where
  "enqueue app now core sink req =
     (if length (rq_payload req) > 2 ^ 32 - 1
      then Some (core, sink, EnqReturn (Inl (PayloadTooLarge (length (rq_payload req)))))
      else
        (case cq_error core of
           Some e \<Rightarrow> Some (core, sink, EnqReturn (Inl e))
         | None \<Rightarrow>
             if cq_shutting_down core then Some (core, sink, EnqReturn (Inl ShuttingDown))
             else enqueue_retry app now core sink req))"

text \<open>One round of a waiting loop; \<^const>\<open>None\<close>: wait on.\<close>

definition enqueue_poll :: "CommitCore \<Rightarrow> u64 \<Rightarrow> Placement \<Rightarrow> (CommitError + CommitReceipt) option" where
  "enqueue_poll core lsn placement =
     (case cq_error core of
        Some e \<Rightarrow> Some (Inl e)
      | None \<Rightarrow>
          if cq_durable_lsn core \<ge> lsn
          then Some (Inr \<lparr>rc_lsn = lsn, rc_durable = True, rc_placement = placement\<rparr>)
          else None)"

section \<open>Barriers\<close>

definition wait_poll :: "CommitCore \<Rightarrow> u64 \<Rightarrow> (CommitError + u64) option" where
  "wait_poll core target =
     (case cq_error core of
        Some e \<Rightarrow> Some (Inl e)
      | None \<Rightarrow> if cq_durable_lsn core \<ge> target then Some (Inr (cq_durable_lsn core)) else None)"

definition wait_for_durable ::
  "CommitCore \<Rightarrow> u64 \<Rightarrow> u64 \<Rightarrow> bool \<Rightarrow> CommitCore \<times> (CommitError + u64) option" where
  "wait_for_durable core token target force =
     (if cq_durable_lsn core \<ge> target then (core, Some (Inr (cq_durable_lsn core)))
      else
        (let core1 = (if force then notify [SyncCv] (core\<lparr>cq_kick := True\<rparr>) else core);
             core2 = notify [SyncCv] (core1\<lparr>cq_waiters := cq_waiters core1 @ [(token, target)]\<rparr>)
         in (core2, wait_poll core2 target)))"

definition wait_durable :: "CommitCore \<Rightarrow> u64 \<Rightarrow> u64 \<Rightarrow> CommitCore \<times> (CommitError + u64) option" where
  "wait_durable core token lsn = wait_for_durable core token lsn False"

definition flush_barrier :: "CommitCore \<Rightarrow> u64 \<Rightarrow> u64 \<Rightarrow> CommitCore \<times> (CommitError + u64) option" where
  "flush_barrier core token target = wait_for_durable core token target True"

definition deregister :: "CommitCore \<Rightarrow> u64 \<Rightarrow> CommitCore" where
  "deregister core token = core\<lparr>cq_waiters := filter (\<lambda>(t, _). t \<noteq> token) (cq_waiters core)\<rparr>"

definition close :: "CommitCore \<Rightarrow> CommitCore" where
  "close core = notify [SyncCv] (core\<lparr>cq_shutting_down := True, cq_kick := True\<rparr>)"

section \<open>The worker\<close>

datatype WorkerDecision = WkExit | WkSync bool | WkWait

definition waiter_due :: "CommitCore \<Rightarrow> bool" where
  "waiter_due core \<longleftrightarrow>
     (\<exists>(_, t)\<in>set (cq_waiters core). t > cq_durable_lsn core \<and> t \<le> cq_flushed_lsn core)"

definition interval_due :: "nat \<Rightarrow> CommitCore \<Rightarrow> bool" where
  "interval_due now core \<longleftrightarrow>
     (case cq_undurable core of
        [] \<Rightarrow> False
      | u # _ \<Rightarrow> now - ud_enqueued_at u \<ge> cc_async_interval (cq_config core))"

definition budget_due :: "CommitCore \<Rightarrow> bool" where
  "budget_due core \<longleftrightarrow> cq_dirty_bytes core \<ge> cc_max_dirty_bytes (cq_config core)"

definition worker_decide :: "nat \<Rightarrow> CommitCore \<Rightarrow> WorkerDecision" where
  "worker_decide now core =
     (if cq_error core \<noteq> None then WkExit
      else if cq_shutting_down core then WkSync True
      else if cq_kick core \<or> waiter_due core \<or> interval_due now core \<or> budget_due core then WkSync False
      else WkWait)"

definition sync_failed :: "string \<Rightarrow> CommitCore \<Rightarrow> CommitCore" where
  "sync_failed e core =
     notify [DurableCv, SpaceCv]
       (core\<lparr>cq_error := (case cq_error core of Some x \<Rightarrow> Some x | None \<Rightarrow> Some (Sink e))\<rparr>)"

definition sync_done :: "u64 \<Rightarrow> CommitCore \<Rightarrow> CommitCore" where
  "sync_done target core =
     (let core1 =
        (if target > cq_durable_lsn core then
           (let freed = (\<Sum>u\<leftarrow>takeWhile (\<lambda>u. ud_lsn u \<le> target) (cq_undurable core). ud_bytes u)
            in core\<lparr>cq_durable_lsn := target,
                    cq_undurable := dropWhile (\<lambda>u. ud_lsn u \<le> target) (cq_undurable core),
                    cq_dirty_bytes := saturating_sub (cq_dirty_bytes core) freed\<rparr>)
         else core)
      in notify [DurableCv, SpaceCv]
           (core1\<lparr>cq_stats := (cq_stats core1)\<lparr>cst_syncs := cst_syncs (cq_stats core1) + 1\<rparr>\<rparr>))"

section \<open>The threads\<close>

text \<open>Callers between two stretches of code, with the request each has on its stack, and the condition variable each
  waits on; the worker between its critical sections; and what a step returns to a caller. Steps of the worker
  are told apart.\<close>

datatype Caller =
    Blocked CommitRequest
  | Awaiting CommitRequest u64 Placement
  | AtBarrier u64 u64

fun sleeps_on :: "Caller \<Rightarrow> Condvar" where
  "sleeps_on (Blocked req) = SpaceCv"
| "sleeps_on (Awaiting req lsn p) = DurableCv"
| "sleeps_on (AtBarrier token target) = DurableCv"

text \<open>One round of a caller's loop on \<^verbatim>\<open>durable_cv\<close> ends in another wait.\<close>

fun waits_on :: "CommitCore \<Rightarrow> Caller \<Rightarrow> bool" where
  "waits_on core (Blocked req) = False"
| "waits_on core (Awaiting req lsn p) \<longleftrightarrow> enqueue_poll core lsn p = None"
| "waits_on core (AtBarrier token target) \<longleftrightarrow> wait_poll core target = None"

datatype WorkerPhase =
    WRunning
  | WAsleep
  | WSyncing u64 bool
  | WSynced u64 bool
  | WExited

datatype QEvent =
    EvNone
  | EvWorker
  | EvEnqueued CommitRequest "CommitError + CommitReceipt"
  | EvBarrier u64 "CommitError + u64"

text \<open>\<open>q_waiting\<close> are the callers asleep on a condition variable, \<open>q_ready\<close> those that woke and want the lock.\<close>

record 's QSys =
  q_core :: CommitCore
  q_sink :: 's
  q_worker :: WorkerPhase
  q_ready :: "Caller multiset"
  q_waiting :: "Caller multiset"

definition q_callers :: "'s QSys \<Rightarrow> Caller multiset" where
  "q_callers s = q_ready s + q_waiting s"

text \<open>The lock is released: whoever sleeps on a notified condition variable is woken. Only the worker sleeps on
  \<^verbatim>\<open>sync_cv\<close>, so \<^verbatim>\<open>notify_one\<close> wakes it.\<close>

definition release :: "'s QSys \<Rightarrow> 's QSys" where
  "release s =
     (let cvs = set (cq_notified (q_core s)) in
      s\<lparr>q_core := (q_core s)\<lparr>cq_notified := []\<rparr>,
        q_worker := (if q_worker s = WAsleep \<and> SyncCv \<in> cvs then WRunning else q_worker s),
        q_ready := q_ready s + filter_mset (\<lambda>c. sleeps_on c \<in> cvs) (q_waiting s),
        q_waiting := filter_mset (\<lambda>c. sleeps_on c \<notin> cvs) (q_waiting s)\<rparr>)"

definition fall_asleep :: "Caller \<Rightarrow> 's QSys \<Rightarrow> 's QSys" where
  "fall_asleep c s = s\<lparr>q_waiting := add_mset c (q_waiting s)\<rparr>"

definition leave :: "Caller \<Rightarrow> 's QSys \<Rightarrow> 's QSys" where
  "leave c s = s\<lparr>q_ready := q_ready s - {#c#}\<rparr>"

text \<open>The end of a stretch of \<^verbatim>\<open>enqueue\<close>; after the append of a strict record comes the first round of its loop.\<close>

definition settle :: "CommitRequest \<Rightarrow> CommitCore \<times> 's \<times> EnqOutcome \<Rightarrow> 's QSys \<Rightarrow> QEvent \<times> 's QSys" where
  "settle req r s =
     (case r of (core, sink, outcome) \<Rightarrow>
        (let s1 = release (s\<lparr>q_core := core, q_sink := sink\<rparr>) in
         case outcome of
           EnqReturn res \<Rightarrow> (EvEnqueued req res, s1)
         | EnqBlocked \<Rightarrow> (EvNone, fall_asleep (Blocked req) s1)
         | EnqWait lsn p \<Rightarrow>
             (case enqueue_poll core lsn p of
                Some res \<Rightarrow> (EvEnqueued req res, s1)
              | None \<Rightarrow> (EvNone, fall_asleep (Awaiting req lsn p) s1))))"

definition enter_barrier ::
  "u64 \<Rightarrow> u64 \<Rightarrow> CommitCore \<times> (CommitError + u64) option \<Rightarrow> 's QSys \<Rightarrow> QEvent \<times> 's QSys" where
  "enter_barrier token target r s =
     (case r of
        (core, Some res) \<Rightarrow> (EvBarrier target res, release (s\<lparr>q_core := deregister core token\<rparr>))
      | (core, None) \<Rightarrow> (EvNone, fall_asleep (AtBarrier token target) (release (s\<lparr>q_core := core\<rparr>))))"

text \<open>\<open>q_chance\<close> and \<open>q_timeout\<close>: a wait may end without a notification. The worker's also ends with its timeout, which
  may happen at any time here.\<close>

inductive qstep :: "'s sink_append \<Rightarrow> 's sink_sync \<Rightarrow> 's QSys \<Rightarrow> QEvent \<Rightarrow> 's QSys \<Rightarrow> bool" for app sync where
  q_call: "enqueue app now (q_core s) (q_sink s) req = Some r \<Longrightarrow> settle req r s = (ev, s') \<Longrightarrow> qstep app sync s ev s'"
| q_wake: "Blocked req \<in># q_ready s \<Longrightarrow> enqueue_retry app now (q_core s) (q_sink s) req = Some r \<Longrightarrow>
     settle req r (leave (Blocked req) s) = (ev, s') \<Longrightarrow> qstep app sync s ev s'"
| q_ack: "Awaiting req lsn p \<in># q_ready s \<Longrightarrow> enqueue_poll (q_core s) lsn p = Some res \<Longrightarrow>
     qstep app sync s (EvEnqueued req res) (leave (Awaiting req lsn p) s)"
| q_barrier: "enter_barrier token target (wait_for_durable (q_core s) token target force) s = (ev, s') \<Longrightarrow>
     qstep app sync s ev s'"
| q_barrier_ack: "AtBarrier token target \<in># q_ready s \<Longrightarrow> wait_poll (q_core s) target = Some res \<Longrightarrow>
     qstep app sync s (EvBarrier target res) (leave (AtBarrier token target) (s\<lparr>q_core := deregister (q_core s) token\<rparr>))"
| q_wait: "c \<in># q_ready s \<Longrightarrow> waits_on (q_core s) c \<Longrightarrow> qstep app sync s EvNone (fall_asleep c (leave c s))"
| q_chance: "c \<in># q_waiting s \<Longrightarrow>
     qstep app sync s EvNone (s\<lparr>q_ready := add_mset c (q_ready s), q_waiting := q_waiting s - {#c#}\<rparr>)"
| q_close: "qstep app sync s EvNone (release (s\<lparr>q_core := close (q_core s)\<rparr>))"
| q_timeout: "q_worker s = WAsleep \<Longrightarrow> qstep app sync s EvNone (s\<lparr>q_worker := WRunning\<rparr>)"
| q_work: "q_worker s = WRunning \<Longrightarrow> worker_decide now (q_core s) = WkSync final \<Longrightarrow>
     qstep app sync s EvWorker
       (s\<lparr>q_worker := WSyncing (cq_flushed_lsn (q_core s)) final, q_core := (q_core s)\<lparr>cq_kick := False\<rparr>\<rparr>)"
| q_rest: "q_worker s = WRunning \<Longrightarrow> worker_decide now (q_core s) = WkWait \<Longrightarrow>
     qstep app sync s EvWorker (s\<lparr>q_worker := WAsleep\<rparr>)"
| q_exit: "q_worker s = WRunning \<Longrightarrow> worker_decide now (q_core s) = WkExit \<Longrightarrow>
     qstep app sync s EvWorker (s\<lparr>q_worker := WExited\<rparr>)"
| q_sync_ok: "q_worker s = WSyncing target final \<Longrightarrow> sync (q_sink s) = (sink', Inr u) \<Longrightarrow>
     qstep app sync s EvWorker (s\<lparr>q_worker := WSynced target final, q_sink := sink'\<rparr>)"
| q_sync_err: "q_worker s = WSyncing target final \<Longrightarrow> sync (q_sink s) = (sink', Inl e) \<Longrightarrow>
     qstep app sync s EvWorker
       (release (s\<lparr>q_worker := WExited, q_sink := sink', q_core := sync_failed e (q_core s)\<rparr>))"
| q_finish: "q_worker s = WSynced target final \<Longrightarrow>
     qstep app sync s EvWorker
       (release (s\<lparr>q_worker := (if final then WExited else WRunning), q_core := sync_done target (q_core s)\<rparr>))"

text \<open>The states reached from \<open>s0\<close> in \<open>n\<close> steps, and the events of a run.\<close>

inductive qreach :: "'s sink_append \<Rightarrow> 's sink_sync \<Rightarrow> 's QSys \<Rightarrow> nat \<Rightarrow> 's QSys \<Rightarrow> bool" for app sync s0 where
  reach_init: "qreach app sync s0 0 s0"
| reach_step: "qreach app sync s0 n s \<Longrightarrow> qstep app sync s ev s' \<Longrightarrow> qreach app sync s0 (Suc n) s'"

inductive qrun :: "'s sink_append \<Rightarrow> 's sink_sync \<Rightarrow> 's QSys \<Rightarrow> QEvent list \<Rightarrow> 's QSys \<Rightarrow> bool" for app sync s0 where
  run_init: "qrun app sync s0 [] s0"
| run_step: "qrun app sync s0 evs s \<Longrightarrow> qstep app sync s ev s' \<Longrightarrow> qrun app sync s0 (evs @ [ev]) s'"

definition q_start :: "CommitCore \<Rightarrow> 's \<Rightarrow> 's QSys" where
  "q_start core sink = \<lparr>q_core = core, q_sink = sink, q_worker = WRunning, q_ready = {#}, q_waiting = {#}\<rparr>"

lemma notify_sel [simp]:
  "cq_config (notify cvs core) = cq_config core" "cq_next_lsn (notify cvs core) = cq_next_lsn core"
  "cq_flushed_lsn (notify cvs core) = cq_flushed_lsn core" "cq_durable_lsn (notify cvs core) = cq_durable_lsn core"
  "cq_dirty_bytes (notify cvs core) = cq_dirty_bytes core" "cq_undurable (notify cvs core) = cq_undurable core"
  "cq_kick (notify cvs core) = cq_kick core" "cq_waiters (notify cvs core) = cq_waiters core"
  "cq_shutting_down (notify cvs core) = cq_shutting_down core" "cq_error (notify cvs core) = cq_error core"
  "cq_stats (notify cvs core) = cq_stats core" "cq_notified (notify cvs core) = cq_notified core @ cvs"
  by (simp_all add: notify_def)

lemma release_sel [simp]:
  "q_core (release s) = (q_core s)\<lparr>cq_notified := []\<rparr>" "q_sink (release s) = q_sink s"
  "q_worker (release s) = (if q_worker s = WAsleep \<and> SyncCv \<in> set (cq_notified (q_core s)) then WRunning else q_worker s)"
  "q_ready (release s) = q_ready s + filter_mset (\<lambda>c. sleeps_on c \<in> set (cq_notified (q_core s))) (q_waiting s)"
  "q_waiting (release s) = filter_mset (\<lambda>c. sleeps_on c \<notin> set (cq_notified (q_core s))) (q_waiting s)"
  by (simp_all add: release_def Let_def)

lemma moved_sel [simp]:
  "q_core (fall_asleep c s) = q_core s" "q_sink (fall_asleep c s) = q_sink s" "q_worker (fall_asleep c s) = q_worker s"
  "q_ready (fall_asleep c s) = q_ready s" "q_waiting (fall_asleep c s) = add_mset c (q_waiting s)"
  "q_core (leave c s) = q_core s" "q_sink (leave c s) = q_sink s" "q_worker (leave c s) = q_worker s"
  "q_ready (leave c s) = q_ready s - {#c#}" "q_waiting (leave c s) = q_waiting s"
  by (simp_all add: fall_asleep_def leave_def)

lemma callers_release [simp]: "q_callers (release s) = q_callers s"
  using multiset_partition [of "q_waiting s" "\<lambda>c. sleeps_on c \<in> set (cq_notified (q_core s))"]
  by (simp add: q_callers_def)

lemma callers_moved:
  "q_callers (fall_asleep c s) = add_mset c (q_callers s)"
  "c \<in># q_ready s \<Longrightarrow> q_callers (leave c s) = q_callers s - {#c#}"
  "c \<in># q_ready s \<Longrightarrow> q_callers (fall_asleep c (leave c s)) = q_callers s"
  "c \<in># q_waiting s \<Longrightarrow> q_callers (s\<lparr>q_ready := add_mset c (q_ready s), q_waiting := q_waiting s - {#c#}\<rparr>) = q_callers s"
  by (simp_all add: q_callers_def)

lemma callers_update [simp]:
  "q_callers (s\<lparr>q_core := core\<rparr>) = q_callers s" "q_callers (s\<lparr>q_sink := k\<rparr>) = q_callers s"
  "q_callers (s\<lparr>q_worker := w\<rparr>) = q_callers s"
  by (simp_all add: q_callers_def)

section \<open>The queue's invariant\<close>

definition core_inv :: "CommitCore \<Rightarrow> bool" where
  "core_inv core \<longleftrightarrow>
     cq_durable_lsn core \<le> cq_flushed_lsn core \<and> cq_flushed_lsn core < cq_next_lsn core \<and>
     (\<forall>u\<in>set (cq_undurable core). cq_durable_lsn core < ud_lsn u \<and> ud_lsn u \<le> cq_flushed_lsn core) \<and>
     sorted_wrt (<) (map ud_lsn (cq_undurable core)) \<and>
     unat (cq_dirty_bytes core) = (\<Sum>u\<leftarrow>cq_undurable core. unat (ud_bytes u)) \<and>
     cq_dirty_bytes core \<le> cc_max_dirty_bytes (cq_config core)"

text \<open>The budget is not within one record of wrapping \<^verbatim>\<open>u64\<close>.\<close>

definition config_ok :: "CommitCore \<Rightarrow> bool" where
  "config_ok core \<longleftrightarrow> unat (cc_max_dirty_bytes (cq_config core)) + 2 ^ 33 < 2 ^ 64"

definition rec_lsn :: "log_rec \<Rightarrow> u64" where
  "rec_lsn r = fst (snd (snd r))"

lemma enqueue_append_core:
  assumes "enqueue_append app now core sink req = Some (core', sink', out)"
  shows "cq_next_lsn core' = cq_next_lsn core + 1" and "cq_durable_lsn core' = cq_durable_lsn core"
    and "cq_config core' = cq_config core"
    and "(\<exists>p. app sink (cq_next_lsn core) (rq_rtype req) (rq_flags req) (rq_payload req) = Some (sink', Inr p) \<and>
            cq_flushed_lsn core' = cq_next_lsn core \<and>
            cq_dirty_bytes core' = cq_dirty_bytes core + record_bytes req \<and>
            cq_undurable core' = cq_undurable core @
              [\<lparr>ud_lsn = cq_next_lsn core, ud_bytes = record_bytes req, ud_enqueued_at = now\<rparr>] \<and>
            (if need_durable req then out = EnqWait (cq_next_lsn core) p
             else out = EnqReturn (Inr \<lparr>rc_lsn = cq_next_lsn core, rc_durable = False, rc_placement = p\<rparr>))) \<or>
         (\<exists>e. app sink (cq_next_lsn core) (rq_rtype req) (rq_flags req) (rq_payload req) = Some (sink', Inl e) \<and>
            cq_flushed_lsn core' = cq_flushed_lsn core \<and> cq_dirty_bytes core' = cq_dirty_bytes core \<and>
            cq_undurable core' = cq_undurable core \<and> out = EnqReturn (Inl (Sink e)))"
  using assms by (auto simp: enqueue_append_def Let_def split: option.splits sum.splits prod.splits if_splits)

lemma unat_record_bytes:
  "length (rq_payload req) < 2 ^ 32 \<Longrightarrow> unat (record_bytes req) = FRAME_HEADER_SIZE + length (rq_payload req)"
  unfolding record_bytes_def by (rule unat_of_nat_u64) simp

lemma enqueue_append_inv:
  assumes inv: "core_inv core" and cfg: "config_ok core" and len: "length (rq_payload req) < 2 ^ 32"
    and budget: "\<not> cc_max_dirty_bytes (cq_config core) < cq_dirty_bytes core + record_bytes req"
    and room: "cq_next_lsn core < - 1"
    and step: "enqueue_append app now core sink req = Some (core', sink', out)"
  shows "core_inv core'"
proof -
  have "unat (cq_dirty_bytes core) \<le> unat (cc_max_dirty_bytes (cq_config core))"
    using inv by (simp add: core_inv_def word_le_nat_alt)
  then have dirty: "unat (cq_dirty_bytes core + record_bytes req) = unat (cq_dirty_bytes core) + unat (record_bytes req)"
    using cfg len by (intro unat_add_u64) (simp add: config_ok_def unat_record_bytes)
  have nxt: "cq_next_lsn core < cq_next_lsn core + 1"
    using room by (rule less_plus_one_u64)
  have below: "ud_lsn u < cq_next_lsn core" if "u \<in> set (cq_undurable core)" for u
    using inv that by (auto simp: core_inv_def dest: order_le_less_trans)
  have order: "cq_durable_lsn core < cq_next_lsn core"
    using inv by (auto simp: core_inv_def)
  from enqueue_append_core(4) [OF step] show ?thesis
  proof
    assume "\<exists>p. app sink (cq_next_lsn core) (rq_rtype req) (rq_flags req) (rq_payload req) = Some (sink', Inr p) \<and>
            cq_flushed_lsn core' = cq_next_lsn core \<and>
            cq_dirty_bytes core' = cq_dirty_bytes core + record_bytes req \<and>
            cq_undurable core' = cq_undurable core @
              [\<lparr>ud_lsn = cq_next_lsn core, ud_bytes = record_bytes req, ud_enqueued_at = now\<rparr>] \<and>
            (if need_durable req then out = EnqWait (cq_next_lsn core) p
             else out = EnqReturn (Inr \<lparr>rc_lsn = cq_next_lsn core, rc_durable = False, rc_placement = p\<rparr>))"
    then show ?thesis
      using inv budget dirty nxt below order enqueue_append_core(1-3) [OF step]
      by (auto simp: core_inv_def sorted_wrt_append less_imp_le)
  next
    assume "\<exists>e. app sink (cq_next_lsn core) (rq_rtype req) (rq_flags req) (rq_payload req) = Some (sink', Inl e) \<and>
            cq_flushed_lsn core' = cq_flushed_lsn core \<and> cq_dirty_bytes core' = cq_dirty_bytes core \<and>
            cq_undurable core' = cq_undurable core \<and> out = EnqReturn (Inl (Sink e))"
    then show ?thesis
      using inv nxt order enqueue_append_core(1-3) [OF step]
      by (auto simp: core_inv_def dest: order_less_trans)
  qed
qed

lemma dropWhile_above:
  "u \<in> set (dropWhile (\<lambda>u. f u \<le> t) us) \<Longrightarrow> sorted_wrt (\<lambda>a b. f a < f b) us \<Longrightarrow> (t :: 'b::linorder) < f u"
  by (induction us) (auto split: if_splits)

lemma unat_sum_list_u64:
  "(\<Sum>x\<leftarrow>xs. unat (f x :: u64)) < 2 ^ 64 \<Longrightarrow> unat (\<Sum>x\<leftarrow>xs. f x) = (\<Sum>x\<leftarrow>xs. unat (f x))"
  by (induction xs) (auto simp: unat_add_u64)

lemma sync_done_inv:
  assumes inv: "core_inv core" and t: "target \<le> cq_flushed_lsn core"
  shows "core_inv (sync_done target core)" and "cq_durable_lsn (sync_done target core) = max target (cq_durable_lsn core)"
proof -
  let ?P = "\<lambda>u. ud_lsn u \<le> target" and ?us = "cq_undurable core"
  have split: "(\<Sum>u\<leftarrow>?us. unat (ud_bytes u)) =
      (\<Sum>u\<leftarrow>takeWhile ?P ?us. unat (ud_bytes u)) + (\<Sum>u\<leftarrow>dropWhile ?P ?us. unat (ud_bytes u))"
    by (simp flip: sum_list_append map_append)
  have sorted: "sorted_wrt (\<lambda>a b. ud_lsn a < ud_lsn b) ?us"
    using inv by (simp add: core_inv_def sorted_wrt_map)
  have rest: "target < ud_lsn u" if "u \<in> set (dropWhile ?P ?us)" for u
    using that sorted by (rule dropWhile_above)
  let ?freed = "\<Sum>u\<leftarrow>takeWhile ?P ?us. ud_bytes u"
  have "(\<Sum>u\<leftarrow>takeWhile ?P ?us. unat (ud_bytes u)) < 2 ^ 64"
    using inv split unat_u64_bound [of "cq_dirty_bytes core"] by (simp add: core_inv_def)
  then have freed: "unat ?freed = (\<Sum>u\<leftarrow>takeWhile ?P ?us. unat (ud_bytes u))"
    by (rule unat_sum_list_u64)
  have dirty: "unat (saturating_sub (cq_dirty_bytes core) ?freed) = (\<Sum>u\<leftarrow>dropWhile ?P ?us. unat (ud_bytes u))"
    using inv split freed by (simp add: core_inv_def unat_saturating_sub)
  then have "saturating_sub (cq_dirty_bytes core) ?freed \<le> cc_max_dirty_bytes (cq_config core)"
    using inv split by (simp add: core_inv_def word_le_nat_alt)
  moreover have "sorted_wrt (\<lambda>a b. ud_lsn a < ud_lsn b) (dropWhile ?P ?us)"
    using sorted sorted_wrt_append [of "\<lambda>a b. ud_lsn a < ud_lsn b" "takeWhile ?P ?us" "dropWhile ?P ?us"] by simp
  ultimately show "core_inv (sync_done target core)"
    using inv t rest dirty
    by (auto simp: core_inv_def sync_done_def Let_def sorted_wrt_map dest: set_dropWhileD)
  show "cq_durable_lsn (sync_done target core) = max target (cq_durable_lsn core)"
    by (auto simp: sync_done_def Let_def max_def)
qed

text \<open>A stretch of \<^verbatim>\<open>enqueue\<close> either leaves queue and sink alone, or appends within the budget.\<close>

definition passes :: "'s sink_append \<Rightarrow> nat \<Rightarrow> CommitCore \<Rightarrow> 's \<Rightarrow> CommitRequest \<Rightarrow> CommitCore \<times> 's \<times> EnqOutcome \<Rightarrow> bool" where
  "passes app now core sink req r \<longleftrightarrow>
     (\<exists>out. r = (core, sink, out) \<and> (out = EnqBlocked \<or> (\<exists>e. out = EnqReturn (Inl e)))) \<or>
     \<not> cc_max_dirty_bytes (cq_config core) < cq_dirty_bytes core + record_bytes req \<and>
     enqueue_append app now core sink req = Some r"

lemma retry_passes: "enqueue_retry app now core sink req = Some r \<Longrightarrow> passes app now core sink req r"
  by (auto simp: enqueue_retry_def passes_def split: option.splits if_splits)

lemma enqueue_passes:
  "enqueue app now core sink req = Some r \<Longrightarrow>
     passes app now core sink req r \<and> (\<not> length (rq_payload req) < 2 ^ 32 \<longrightarrow> (\<exists>e. r = (core, sink, EnqReturn (Inl e))))"
  using retry_passes [of app now core sink req r]
  by (auto simp: enqueue_def passes_def split: option.splits if_splits)

definition record_of :: "CommitRequest \<Rightarrow> u64 \<Rightarrow> log_rec" where
  "record_of req lsn = (rq_rtype req, rq_flags req, lsn, rq_payload req)"

text \<open>The records of the log up to an LSN are among its first \<open>n\<close>.\<close>

definition covered :: "log_rec list \<Rightarrow> nat \<Rightarrow> u64 \<Rightarrow> bool" where
  "covered log n l \<longleftrightarrow> (\<forall>i < length log. rec_lsn (log ! i) \<le> l \<longrightarrow> i < n)"

lemma covered_all [simp]: "covered log (length log) l"
  by (simp add: covered_def)

lemma covered_mono: "covered log n l \<Longrightarrow> n \<le> m \<Longrightarrow> covered log m l"
  by (auto simp: covered_def)

lemma covered_append:
  assumes "covered log n l" and "n \<le> m" and "\<forall>r\<in>set new. l < rec_lsn r"
  shows "covered (log @ new) m l"
  unfolding covered_def
proof (intro allI impI)
  fix i assume i: "i < length (log @ new)" "rec_lsn ((log @ new) ! i) \<le> l"
  then have "i < length log"
    using assms(3) by (metis leD length_append nat_add_left_cancel_less not_less nth_append nth_mem ordered_cancel_comm_monoid_diff_class.add_diff_inverse)
  with assms(1,2) i show "i < m" by (auto simp: covered_def nth_append)
qed

lemma covered_mem: "covered log n l \<Longrightarrow> r \<in> set log \<Longrightarrow> rec_lsn r \<le> l \<Longrightarrow> r \<in> set (take n log)"
  by (fastforce simp: covered_def in_set_conv_nth)

lemma unat_next_lsn:
  "enqueue_append app now core sink req = Some (core', sink', out) \<Longrightarrow> cq_next_lsn core < - 1 \<Longrightarrow>
     unat (cq_next_lsn core') = unat (cq_next_lsn core) + 1"
  using enqueue_append_core(1) [of app now core sink req core' sink' out]
  by (simp add: unat_add_u64 less_max_u64)

lemma passes_next:
  "passes app now core sink req (core', sink', out) \<Longrightarrow> cq_next_lsn core < - 1 \<Longrightarrow>
     unat (cq_next_lsn core') \<le> unat (cq_next_lsn core) + 1"
  by (auto simp: passes_def dest: unat_next_lsn)

text \<open>The core after a stretch of \<^verbatim>\<open>enqueue\<close>.\<close>

lemma settle_core:
  "settle req (core, sink, out) s = (ev, s') \<Longrightarrow> q_core s' = core\<lparr>cq_notified := []\<rparr> \<and> q_sink s' = sink \<and>
     q_worker s' = (if q_worker s = WAsleep \<and> SyncCv \<in> set (cq_notified core) then WRunning else q_worker s)"
  by (auto simp: settle_def Let_def split: EnqOutcome.splits option.splits)

lemma qstep_next:
  assumes "qstep app sync s ev s'" and "cq_next_lsn (q_core s) < - 1"
  shows "unat (cq_next_lsn (q_core s')) \<le> unat (cq_next_lsn (q_core s)) + 1"
  using assms
proof (induction rule: qstep.induct)
  case (q_call now s req r ev s')
  then show ?case
    using enqueue_passes [OF q_call(1)] by (cases r) (auto dest!: settle_core dest: passes_next)
next
  case (q_wake req s now r ev s')
  then show ?case
    using retry_passes [OF q_wake(2)] by (cases r) (auto dest!: settle_core dest: passes_next)
qed (auto simp: enter_barrier_def wait_for_durable_def deregister_def close_def sync_failed_def sync_done_def Let_def
    split: if_splits option.splits prod.splits)

lemma settle_not_durable:
  assumes pass: "passes app now core sink req' r" and st: "settle req' r s = (EvEnqueued req (Inr rc), s')"
    and lsn: "cq_durable_lsn core < cq_next_lsn core"
  shows "\<not> rc_durable rc"
proof -
  obtain core' sink' out where r: "r = (core', sink', out)" by (cases r) auto
  show ?thesis
  proof (cases "enqueue_append app now core sink req' = Some r")
    case True
    note C = enqueue_append_core [OF True [unfolded r]]
    from C(2,4) lsn st show ?thesis
      by (auto simp: r settle_def Let_def enqueue_poll_def split: if_splits option.splits)
  next
    case False
    with pass st show ?thesis by (auto simp: passes_def settle_def Let_def)
  qed
qed

text \<open>The fields the invariant speaks of.\<close>

definition core_view :: "CommitCore \<Rightarrow> CommitConfig \<times> u64 \<times> u64 \<times> u64 \<times> u64 \<times> Undurable list" where
  "core_view core = (cq_config core, cq_next_lsn core, cq_flushed_lsn core, cq_durable_lsn core,
     cq_dirty_bytes core, cq_undurable core)"

lemma core_view_barrier [simp]:
  "core_view (fst (wait_for_durable core token target force)) = core_view core"
  "core_view (deregister core token) = core_view core" "core_view (close core) = core_view core"
  "core_view (core\<lparr>cq_kick := k\<rparr>) = core_view core" "core_view (sync_failed e core) = core_view core"
  "core_view (core\<lparr>cq_notified := x\<rparr>) = core_view core"
  by (simp_all add: core_view_def wait_for_durable_def deregister_def close_def sync_failed_def Let_def)

section \<open>The contract of the sink\<close>

text \<open>\<open>rep s log n\<close>: the sink in state \<open>s\<close> holds the records \<open>log\<close>, the first \<open>n\<close> of them durable. An append adds
  the record, after padding with its LSN; a sync makes all of them durable; no call loses durability.\<close>

locale commit_sink =
  fixes app :: "'s sink_append"
    and sync :: "'s sink_sync"
    and rep :: "'s \<Rightarrow> log_rec list \<Rightarrow> nat \<Rightarrow> bool"
  assumes append_ok: "rep s log n \<Longrightarrow> app s lsn t f pl = Some (s', Inr p) \<Longrightarrow>
      \<exists>pad m. rep s' (log @ pad @ [(t, f, lsn, pl)]) m \<and> n \<le> m \<and> (\<forall>r\<in>set pad. rec_lsn r = lsn)"
    and append_err: "rep s log n \<Longrightarrow> app s lsn t f pl = Some (s', Inl e) \<Longrightarrow>
      \<exists>pad m. rep s' (log @ pad) m \<and> n \<le> m \<and> (\<forall>r\<in>set pad. rec_lsn r = lsn)"
    and sync_ok: "rep s log n \<Longrightarrow> sync s = (s', Inr u) \<Longrightarrow> rep s' log (length log)"
    and sync_err: "rep s log n \<Longrightarrow> sync s = (s', Inl e) \<Longrightarrow> \<exists>m. rep s' log m \<and> n \<le> m"
begin

definition worker_ok :: "WorkerPhase \<Rightarrow> CommitCore \<Rightarrow> log_rec list \<Rightarrow> nat \<Rightarrow> bool" where
  "worker_ok w core log n \<longleftrightarrow>
     (case w of
        WSyncing t _ \<Rightarrow> t \<le> cq_flushed_lsn core
      | WSynced t _ \<Rightarrow> t \<le> cq_flushed_lsn core \<and> covered log n t
      | _ \<Rightarrow> True)"

definition callers_ok :: "Caller multiset \<Rightarrow> log_rec list \<Rightarrow> bool" where
  "callers_ok cs log \<longleftrightarrow>
     (\<forall>req. Blocked req \<in># cs \<longrightarrow> length (rq_payload req) < 2 ^ 32) \<and>
     (\<forall>req lsn p. Awaiting req lsn p \<in># cs \<longrightarrow> record_of req lsn \<in> set log)"

definition sys_ok :: "'s QSys \<Rightarrow> log_rec list \<Rightarrow> nat \<Rightarrow> bool" where
  "sys_ok s log n \<longleftrightarrow>
     rep (q_sink s) log n \<and> core_inv (q_core s) \<and> config_ok (q_core s) \<and>
     covered log n (cq_durable_lsn (q_core s)) \<and> worker_ok (q_worker s) (q_core s) log n \<and>
     callers_ok (q_callers s) log"

lemma worker_ok_grow:
  assumes "worker_ok w core log n" and "cq_flushed_lsn core \<le> cq_flushed_lsn core'" and "n \<le> m"
    and "\<forall>r\<in>set new. cq_flushed_lsn core < rec_lsn r"
  shows "worker_ok w core' (log @ new) m"
  using assms
  by (auto simp: worker_ok_def split: WorkerPhase.splits intro!: covered_append intro: order_trans order_le_less_trans)

lemma callers_ok_grow: "callers_ok cs log \<Longrightarrow> callers_ok cs (log @ new)"
  by (auto simp: callers_ok_def)

lemma callers_ok_add [simp]:
  "callers_ok {#} log"
  "callers_ok (add_mset (Blocked req) cs) log \<longleftrightarrow> length (rq_payload req) < 2 ^ 32 \<and> callers_ok cs log"
  "callers_ok (add_mset (Awaiting req lsn p) cs) log \<longleftrightarrow> record_of req lsn \<in> set log \<and> callers_ok cs log"
  "callers_ok (add_mset (AtBarrier k t) cs) log \<longleftrightarrow> callers_ok cs log"
  by (auto simp: callers_ok_def)

lemma callers_ok_diff: "callers_ok cs log \<Longrightarrow> callers_ok (cs - {#c#}) log"
  unfolding callers_ok_def by (meson in_diffD)

text \<open>What only wakes threads or empties the list of notifications does not matter here.\<close>

lemma sys_ok_release [simp]: "sys_ok (release s) log n \<longleftrightarrow> sys_ok s log n"
  by (auto simp: sys_ok_def core_inv_def config_ok_def worker_ok_def split: WorkerPhase.splits)

lemma sys_ok_asleep:
  "sys_ok (fall_asleep c s) log n \<longleftrightarrow> sys_ok s log n \<and> callers_ok {#c#} log"
  by (auto simp: sys_ok_def callers_moved callers_ok_def worker_ok_def)

lemma sys_ok_leave: "sys_ok s log n \<Longrightarrow> c \<in># q_ready s \<Longrightarrow> sys_ok (leave c s) log n"
  by (auto simp: sys_ok_def callers_moved callers_ok_diff worker_ok_def)

lemma sys_ok_enqueue_append:
  assumes ok: "sys_ok s log n" and len: "length (rq_payload req) < 2 ^ 32"
    and room: "cq_next_lsn (q_core s) < - 1"
    and budget: "\<not> cc_max_dirty_bytes (cq_config (q_core s)) < cq_dirty_bytes (q_core s) + record_bytes req"
    and step: "enqueue_append app now (q_core s) (q_sink s) req = Some (core', sink', out)"
  shows "\<exists>log' m. sys_ok (s\<lparr>q_core := core', q_sink := sink'\<rparr>) log' m \<and>
    (\<forall>lsn p. out = EnqWait lsn p \<longrightarrow> record_of req lsn \<in> set log') \<and> out \<noteq> EnqBlocked"
proof -
  let ?core = "q_core s" and ?lsn = "cq_next_lsn (q_core s)"
  have S: "rep (q_sink s) log n" "core_inv ?core" "config_ok ?core" "covered log n (cq_durable_lsn ?core)"
    "worker_ok (q_worker s) ?core log n" "callers_ok (q_callers s) log"
    using ok by (auto simp: sys_ok_def)
  have inv: "core_inv core'"
    by (rule enqueue_append_inv [OF S(2,3) len budget room step])
  have ord: "cq_durable_lsn ?core < ?lsn" "cq_flushed_lsn ?core < ?lsn"
    using S(2) by (auto simp: core_inv_def)
  have cfg: "config_ok core'"
    using S(3) enqueue_append_core(3) [OF step] by (simp add: config_ok_def)
  note C = enqueue_append_core [OF step]
  have grown: "sys_ok (s\<lparr>q_core := core', q_sink := sink'\<rparr>) (log @ new) m"
    if "rep sink' (log @ new) m" "n \<le> m" "\<forall>r\<in>set new. rec_lsn r = ?lsn" "cq_flushed_lsn ?core \<le> cq_flushed_lsn core'"
    for new m
    using that inv cfg S ord C(2)
    by (auto simp: sys_ok_def callers_ok_grow intro!: covered_append worker_ok_grow)
  from C(4) show ?thesis
  proof (elim disjE exE conjE)
    fix p assume A: "app (q_sink s) ?lsn (rq_rtype req) (rq_flags req) (rq_payload req) = Some (sink', Inr p)"
      and flushed: "cq_flushed_lsn core' = ?lsn"
      and out: "if need_durable req then out = EnqWait ?lsn p
        else out = EnqReturn (Inr \<lparr>rc_lsn = ?lsn, rc_durable = False, rc_placement = p\<rparr>)"
    obtain pad m where m: "rep sink' (log @ pad @ [record_of req ?lsn]) m" "n \<le> m" "\<forall>r\<in>set pad. rec_lsn r = ?lsn"
      using append_ok [OF S(1) A] by (auto simp: record_of_def)
    then have "sys_ok (s\<lparr>q_core := core', q_sink := sink'\<rparr>) (log @ (pad @ [record_of req ?lsn])) m"
      using flushed ord by (intro grown) (auto simp: record_of_def rec_lsn_def)
    with out show ?thesis by (intro exI conjI) (auto split: if_splits)
  next
    fix e assume "app (q_sink s) ?lsn (rq_rtype req) (rq_flags req) (rq_payload req) = Some (sink', Inl e)"
      and "cq_flushed_lsn core' = cq_flushed_lsn ?core" and out: "out = EnqReturn (Inl (Sink e))"
    then obtain pad m where "sys_ok (s\<lparr>q_core := core', q_sink := sink'\<rparr>) (log @ pad) m"
      using append_err [OF S(1)] grown by (metis order_refl)
    with out show ?thesis by auto
  qed
qed

lemma sys_ok_settle:
  assumes ok: "sys_ok s log n" and len: "length (rq_payload req) < 2 ^ 32 \<or> (\<exists>e. r = (q_core s, q_sink s, EnqReturn (Inl e)))"
    and room: "cq_next_lsn (q_core s) < - 1"
    and pass: "passes app now (q_core s) (q_sink s) req r" and st: "settle req r s = (ev, s')"
  shows "\<exists>log' m. sys_ok s' log' m"
proof (cases "\<exists>out. r = (q_core s, q_sink s, out) \<and> (out = EnqBlocked \<or> (\<exists>e. out = EnqReturn (Inl e)))")
  case True
  then have "sys_ok s' log n"
    using ok len st by (auto simp: settle_def Let_def sys_ok_asleep)
  then show ?thesis by blast
next
  case False
  obtain core' sink' out where r: "r = (core', sink', out)" by (cases r) auto
  have len': "length (rq_payload req) < 2 ^ 32" using False len by auto
  have budget: "\<not> cc_max_dirty_bytes (cq_config (q_core s)) < cq_dirty_bytes (q_core s) + record_bytes req"
    and step: "enqueue_append app now (q_core s) (q_sink s) req = Some (core', sink', out)"
    using pass False by (auto simp: passes_def r)
  obtain log' m where L: "sys_ok (s\<lparr>q_core := core', q_sink := sink'\<rparr>) log' m"
      "\<forall>lsn p. out = EnqWait lsn p \<longrightarrow> record_of req lsn \<in> set log'" "out \<noteq> EnqBlocked"
    using sys_ok_enqueue_append [OF ok len' room budget step] by blast
  then have "sys_ok s' log' m"
    using st by (cases out) (auto simp: r settle_def Let_def sys_ok_asleep split: option.splits)
  then show ?thesis by blast
qed

lemma sys_ok_same:
  assumes "sys_ok s log n" and "core_view core = core_view (q_core s)"
  shows "sys_ok (s\<lparr>q_core := core\<rparr>) log n"
  using assms by (auto simp: sys_ok_def core_inv_def config_ok_def worker_ok_def core_view_def split: WorkerPhase.split)

lemma sys_ok_finish:
  assumes ok: "sys_ok s log n" and w: "q_worker s = WSynced target final"
  shows "sys_ok (s\<lparr>q_worker := (if final then WExited else WRunning), q_core := sync_done target (q_core s)\<rparr>) log n"
proof -
  have t: "target \<le> cq_flushed_lsn (q_core s)" "covered log n target"
    using ok w by (auto simp: sys_ok_def worker_ok_def)
  have "config_ok (sync_done target (q_core s))" if "config_ok (q_core s)"
    using that by (simp add: config_ok_def sync_done_def Let_def)
  with ok t show ?thesis
    using sync_done_inv [of "q_core s" target] by (auto simp: sys_ok_def worker_ok_def max_def)
qed

lemma sys_ok_step:
  assumes "qstep app sync s ev s'" and "sys_ok s log n" and "cq_next_lsn (q_core s) < - 1"
  shows "\<exists>log' m. sys_ok s' log' m"
  using assms
proof (induction arbitrary: log n rule: qstep.induct)
  case (q_call now s req r ev s')
  from q_call enqueue_passes [OF q_call(1)] show ?case
    by (intro sys_ok_settle [OF q_call(3) _ q_call(4) _ q_call(2)]) auto
next
  case (q_wake req s now r ev s')
  have "length (rq_payload req) < 2 ^ 32"
    using q_wake(1,4) by (auto simp: sys_ok_def callers_ok_def q_callers_def)
  with q_wake retry_passes [OF q_wake(2)] show ?case
    by (intro sys_ok_settle [OF sys_ok_leave [OF q_wake(4,1)] _ _ _ q_wake(3)]) auto
next
  case (q_ack req lsn p s res)
  then show ?case using sys_ok_leave by blast
next
  case (q_barrier token target s force ev s')
  obtain core out where w: "wait_for_durable (q_core s) token target force = (core, out)" by fastforce
  then have "core_view core = core_view (q_core s)" by (metis core_view_barrier(1) fst_conv)
  with q_barrier w have "sys_ok s' log n"
    by (auto simp: enter_barrier_def sys_ok_asleep callers_ok_def intro!: sys_ok_same split: option.splits)
  then show ?case by blast
next
  case (q_barrier_ack token target s res)
  then have "sys_ok (s\<lparr>q_core := deregister (q_core s) token\<rparr>) log n" by (intro sys_ok_same) simp_all
  with q_barrier_ack(1) show ?case using sys_ok_leave by fastforce
next
  case (q_wait c s)
  then show ?case by (intro exI) (auto simp: sys_ok_def callers_moved(3) worker_ok_def)
next
  case (q_chance c s)
  then show ?case by (intro exI) (auto simp: sys_ok_def callers_moved)
next
  case (q_close s)
  then show ?case by (intro exI) (auto intro!: sys_ok_same)
next
  case (q_timeout s)
  then show ?case by (intro exI) (auto simp: sys_ok_def worker_ok_def)
next
  case (q_work s now final)
  then have "sys_ok (s\<lparr>q_worker := WSyncing (cq_flushed_lsn (q_core s)) final, q_core := (q_core s)\<lparr>cq_kick := False\<rparr>\<rparr>) log n"
    by (simp add: sys_ok_def core_inv_def config_ok_def worker_ok_def)
  then show ?case by blast
next
  case (q_rest s now)
  then show ?case by (intro exI) (auto simp: sys_ok_def worker_ok_def)
next
  case (q_exit s now)
  then show ?case by (intro exI) (auto simp: sys_ok_def worker_ok_def)
next
  case (q_sync_ok s target final sink' u)
  then have "sys_ok (s\<lparr>q_worker := WSynced target final, q_sink := sink'\<rparr>) log (length log)"
    using sync_ok by (auto simp: sys_ok_def worker_ok_def)
  then show ?case by blast
next
  case (q_sync_err s target final sink' e)
  then have "rep (q_sink s) log n" by (simp add: sys_ok_def)
  then obtain m where "rep sink' log m" "n \<le> m" using sync_err q_sync_err(2) by blast
  with q_sync_err have "sys_ok (s\<lparr>q_worker := WExited, q_sink := sink', q_core := sync_failed e (q_core s)\<rparr>) log m"
    by (auto simp: sys_ok_def worker_ok_def sync_failed_def core_inv_def config_ok_def intro: covered_mono)
  then show ?case by (intro exI) simp
next
  case (q_finish s target final)
  then show ?case using sys_ok_finish [OF q_finish(2,1)] sys_ok_release by blast
qed

lemma sys_ok_reach:
  assumes "qreach app sync s0 k s" and "sys_ok s0 log0 n0" and "unat (cq_next_lsn (q_core s0)) + k < 2 ^ 64 - 1"
  shows "(\<exists>log n. sys_ok s log n) \<and> unat (cq_next_lsn (q_core s)) \<le> unat (cq_next_lsn (q_core s0)) + k"
  using assms
proof (induction rule: qreach.induct)
  case (reach_step k s ev s')
  then obtain log n where ok: "sys_ok s log n" and le: "unat (cq_next_lsn (q_core s)) \<le> unat (cq_next_lsn (q_core s0)) + k"
    by auto
  have room: "cq_next_lsn (q_core s) < - 1"
    using le reach_step.prems(2) by (simp add: less_max_u64)
  show ?case
    using sys_ok_step [OF reach_step.hyps(2) ok room] qstep_next [OF reach_step.hyps(2) room] le by auto
qed auto

text \<open>A record acknowledged as durable is durable, and a barrier that returns covers its target.\<close>

lemma durable_ack:
  assumes "sys_ok s log n" and "qstep app sync s (EvEnqueued req (Inr rc)) s'" and "rc_durable rc"
  shows "record_of req (rc_lsn rc) \<in> set (take n log) \<and> q_sink s' = q_sink s"
proof -
  have lsn: "cq_durable_lsn (q_core s) < cq_next_lsn (q_core s)" using assms(1) by (auto simp: sys_ok_def core_inv_def)
  from assms(2) show ?thesis
  proof (cases rule: qstep.cases)
    case (q_ack lsn p)
    then have rc: "rc_lsn rc = lsn" "lsn \<le> cq_durable_lsn (q_core s)"
      by (auto simp: enqueue_poll_def split: option.splits if_splits)
    with q_ack assms(1) have "record_of req lsn \<in> set log" "covered log n (cq_durable_lsn (q_core s))"
      by (auto simp: sys_ok_def callers_ok_def q_callers_def)
    then have "record_of req lsn \<in> set (take n log)"
      using rc(2) by (intro covered_mem) (auto simp: record_of_def rec_lsn_def)
    with rc q_ack show ?thesis by simp
  next
    case (q_call now req' r)
    then show ?thesis
      using settle_not_durable [OF conjunct1 [OF enqueue_passes [OF q_call(1)]] q_call(2) lsn] assms(3) by simp
  next
    case (q_wake req' now r)
    then show ?thesis
      using settle_not_durable [OF retry_passes [OF q_wake(2)] q_wake(3) lsn] assms(3) by simp
  next
    case (q_barrier token target force)
    then show ?thesis by (auto simp: enter_barrier_def split: prod.splits option.splits)
  qed
qed

lemma barrier_covers:
  assumes "sys_ok s log n" and "qstep app sync s (EvBarrier target (Inr d)) s'"
  shows "covered log n target \<and> q_sink s' = q_sink s"
proof -
  have D: "covered log n (cq_durable_lsn (q_core s))" using assms(1) by (simp add: sys_ok_def)
  have "target \<le> cq_durable_lsn (q_core s) \<and> q_sink s' = q_sink s"
    using assms(2)
  proof (cases rule: qstep.cases)
    case (q_barrier token target' force)
    then show ?thesis
      by (auto simp: enter_barrier_def wait_for_durable_def wait_poll_def Let_def
          split: prod.splits option.splits if_splits)
  next
    case (q_barrier_ack token)
    then show ?thesis by (auto simp: wait_poll_def split: option.splits if_splits)
  qed (auto simp: settle_def Let_def split: prod.splits EnqOutcome.splits option.splits)
  with D show ?thesis by (auto simp: covered_def)
qed

lemma start_ok:
  assumes "rep sink log (length log)" and "CommitQueue_new config next_lsn = Some core" and "next_lsn \<noteq> 0"
    and "unat (cc_max_dirty_bytes config) + 2 ^ 33 < 2 ^ 64"
  shows "sys_ok (q_start core sink) log (length log)"
proof -
  have "saturating_sub next_lsn 1 < next_lsn"
    using assms(3) by (rule saturating_sub_less)
  with assms show ?thesis
    by (auto simp: sys_ok_def q_start_def CommitQueue_new_def core_inv_def config_ok_def worker_ok_def callers_ok_def
        q_callers_def split: if_splits)
qed

end

section \<open>Progress\<close>

lemma sync_done_sel [simp]:
  "cq_durable_lsn (sync_done target core) = max target (cq_durable_lsn core)"
  "cq_kick (sync_done target core) = cq_kick core" "cq_flushed_lsn (sync_done target core) = cq_flushed_lsn core"
  "cq_next_lsn (sync_done target core) = cq_next_lsn core" "cq_error (sync_done target core) = cq_error core"
  "cq_shutting_down (sync_done target core) = cq_shutting_down core"
  "cq_config (sync_done target core) = cq_config core"
  by (auto simp: sync_done_def Let_def max_def)

lemma sync_done_notifies: "cq_notified (sync_done target core) = cq_notified core @ [DurableCv, SpaceCv]"
  by (simp add: sync_done_def Let_def)

text \<open>A strict writer whose record is not yet durable finds the kick flag set or a sync under way that covers its
  record, unless the worker is gone.\<close>

definition kicked :: "'s QSys \<Rightarrow> u64 \<Rightarrow> bool" where
  "kicked s lsn \<longleftrightarrow>
     lsn \<le> cq_durable_lsn (q_core s) \<or> cq_kick (q_core s) \<or>
     (case q_worker s of WSyncing t _ \<Rightarrow> lsn \<le> t | WSynced t _ \<Rightarrow> lsn \<le> t | WExited \<Rightarrow> True | _ \<Rightarrow> False)"

text \<open>No wake-up is lost: the worker does not sleep while the kick flag is set, and no caller sleeps on \<^verbatim>\<open>durable_cv\<close>
  when its loop would end, except while a notification is still to take effect.\<close>

definition no_lost_wakeup :: "'s QSys \<Rightarrow> bool" where
  "no_lost_wakeup s \<longleftrightarrow>
     (q_worker s = WAsleep \<and> SyncCv \<notin> set (cq_notified (q_core s)) \<longrightarrow> \<not> cq_kick (q_core s)) \<and>
     (DurableCv \<notin> set (cq_notified (q_core s)) \<longrightarrow>
        (\<forall>c. c \<in># q_waiting s \<and> sleeps_on c = DurableCv \<longrightarrow> waits_on (q_core s) c))"

definition worker_knows :: "'s QSys \<Rightarrow> bool" where
  "worker_knows s \<longleftrightarrow>
     (\<forall>t. q_worker s = WSyncing t True \<or> q_worker s = WSynced t True \<longrightarrow> cq_shutting_down (q_core s)) \<and>
     (q_worker s = WExited \<longrightarrow> cq_error (q_core s) \<noteq> None \<or> cq_shutting_down (q_core s))"

definition progress_inv :: "'s QSys \<Rightarrow> bool" where
  "progress_inv s \<longleftrightarrow>
     (\<forall>req lsn p. Awaiting req lsn p \<in># q_callers s \<longrightarrow> lsn \<le> cq_flushed_lsn (q_core s) \<and> kicked s lsn) \<and>
     cq_flushed_lsn (q_core s) < cq_next_lsn (q_core s) \<and> worker_knows s \<and> no_lost_wakeup s"

lemmas progress_defs = progress_inv_def worker_knows_def no_lost_wakeup_def kicked_def

lemma waits_on_core:
  "cq_error core' = cq_error core \<Longrightarrow> cq_durable_lsn core' = cq_durable_lsn core \<Longrightarrow> waits_on core' c = waits_on core c"
  by (cases c) (simp_all add: enqueue_poll_def wait_poll_def split: option.split)

lemma waits_on_kick: "waits_on (core\<lparr>cq_kick := k\<rparr>) c = waits_on core c"
  by (rule waits_on_core) simp_all

lemma progress_release:
  assumes "progress_inv s"
  shows "progress_inv (release s)"
proof -
  have k: "kicked (release s) lsn = kicked s lsn" for lsn
    by (auto simp: kicked_def split: WorkerPhase.splits)
  have w: "waits_on ((q_core s)\<lparr>cq_notified := []\<rparr>) c = waits_on (q_core s) c" for c by (rule waits_on_core) simp_all
  have "no_lost_wakeup (release s)"
    using assms by (auto simp: progress_inv_def no_lost_wakeup_def w)
  with assms k show ?thesis by (auto simp: progress_inv_def worker_knows_def)
qed

lemma progressD:
  "progress_inv s \<Longrightarrow> Awaiting req lsn p \<in># q_callers s \<Longrightarrow> lsn \<le> cq_flushed_lsn (q_core s) \<and> kicked s lsn"
  "progress_inv s \<Longrightarrow> c \<in># q_waiting s \<Longrightarrow> sleeps_on c = DurableCv \<Longrightarrow>
     DurableCv \<notin> set (cq_notified (q_core s)) \<Longrightarrow> waits_on (q_core s) c"
  unfolding progress_inv_def no_lost_wakeup_def by blast+

text \<open>Callers that come, go, sleep or wake.\<close>

lemma progress_callers:
  assumes inv: "progress_inv s" and "q_core s' = q_core s" and "q_worker s' = q_worker s"
    and c1: "\<And>req lsn p. Awaiting req lsn p \<in># q_callers s' \<Longrightarrow> lsn \<le> cq_flushed_lsn (q_core s) \<and> kicked s lsn"
    and c2: "\<And>c. c \<in># q_waiting s' \<Longrightarrow> sleeps_on c = DurableCv \<Longrightarrow> DurableCv \<notin> set (cq_notified (q_core s)) \<Longrightarrow>
      waits_on (q_core s) c"
  shows "progress_inv s'"
proof -
  have "kicked s' lsn = kicked s lsn" for lsn using assms(2,3) by (simp add: kicked_def)
  moreover have "worker_knows s' = worker_knows s" using assms(2,3) by (simp add: worker_knows_def)
  moreover have "no_lost_wakeup s'"
    using inv assms(2,3) c2 unfolding progress_inv_def no_lost_wakeup_def by auto
  ultimately show ?thesis using inv c1 assms(2) unfolding progress_inv_def by auto
qed

lemma progress_asleep:
  assumes "progress_inv s" and "sleeps_on c = DurableCv \<Longrightarrow> waits_on (q_core s) c"
    and "\<And>req lsn p. c = Awaiting req lsn p \<Longrightarrow> lsn \<le> cq_flushed_lsn (q_core s) \<and> kicked s lsn"
  shows "progress_inv (fall_asleep c s)"
  using assms(2,3) progressD [OF assms(1)]
  by (intro progress_callers [OF assms(1)]) (auto simp: callers_moved(1))

lemma progress_leave: "progress_inv s \<Longrightarrow> c \<in># q_ready s \<Longrightarrow> progress_inv (leave c s)"
  by (rule progress_callers, assumption) (auto simp: callers_moved(2) dest!: in_diffD dest: progressD)

text \<open>A change of the core that keeps the kick flag and the wake-ups.\<close>

lemma progress_core:
  assumes inv: "progress_inv s" and "core_view core = core_view (q_core s)" and "cq_error core = cq_error (q_core s)"
    and "cq_shutting_down (q_core s) \<Longrightarrow> cq_shutting_down core" and "cq_kick (q_core s) \<Longrightarrow> cq_kick core"
    and "set (cq_notified (q_core s)) \<subseteq> set (cq_notified core)"
    and "cq_kick core \<Longrightarrow> cq_kick (q_core s) \<or> SyncCv \<in> set (cq_notified core)"
  shows "progress_inv (s\<lparr>q_core := core\<rparr>)"
proof -
  have w: "waits_on core c = waits_on (q_core s) c" for c
    using assms(2,3) by (intro waits_on_core) (simp_all add: core_view_def)
  have "no_lost_wakeup (s\<lparr>q_core := core\<rparr>)"
    using assms(1,6,7) by (auto simp: progress_inv_def no_lost_wakeup_def w)
  moreover have "kicked (s\<lparr>q_core := core\<rparr>) lsn" if "kicked s lsn" for lsn
    using that assms(2,5) by (auto simp: kicked_def core_view_def)
  ultimately show ?thesis
    using assms(1-4) by (auto simp: progress_inv_def worker_knows_def core_view_def)
qed

lemma enqueue_append_wakes:
  assumes "enqueue_append app now core sink req = Some (core', sink', out)"
  shows "cq_kick core' \<longleftrightarrow> cq_kick core \<or> (\<exists>l p. out = EnqWait l p)" and "cq_shutting_down core' = cq_shutting_down core"
    and "SyncCv \<in> set (cq_notified core')" and "set (cq_notified core) \<subseteq> set (cq_notified core')"
    and "DurableCv \<in> set (cq_notified core') \<or> cq_error core' = cq_error core"
    and "cq_error core \<noteq> None \<Longrightarrow> cq_error core' \<noteq> None"
  using assms by (auto simp: enqueue_append_def Let_def split: option.splits sum.splits prod.splits if_splits)

lemma progress_append:
  assumes inv: "progress_inv s" and room: "cq_next_lsn (q_core s) < - 1"
    and step: "enqueue_append app now (q_core s) (q_sink s) req = Some (core', sink', out)"
  shows "progress_inv (s\<lparr>q_core := core', q_sink := sink'\<rparr>)"
    and "out = EnqWait lsn p \<Longrightarrow> lsn \<le> cq_flushed_lsn core' \<and> cq_kick core'"
proof -
  let ?s' = "s\<lparr>q_core := core', q_sink := sink'\<rparr>"
  note C = enqueue_append_core [OF step] and K = enqueue_append_wakes [OF step]
  have nxt: "cq_next_lsn (q_core s) < cq_next_lsn core'"
    using room by (simp add: C(1) less_plus_one_u64)
  have mono: "cq_flushed_lsn (q_core s) \<le> cq_flushed_lsn core'" "cq_flushed_lsn core' < cq_next_lsn core'"
    using C(4) inv nxt by (auto simp: progress_inv_def)
  have kick: "kicked ?s' l" if "kicked s l" for l
    using that C(2) K(1) by (auto simp: kicked_def)
  have "no_lost_wakeup ?s'"
    using inv K(3-5) waits_on_core [OF _ C(2)] by (auto simp: progress_inv_def no_lost_wakeup_def)
  moreover have "worker_knows ?s'"
    using inv K(2,6) by (auto simp: progress_inv_def worker_knows_def)
  ultimately show "progress_inv ?s'"
    using inv mono kick by (fastforce simp: progress_inv_def)
  show "out = EnqWait lsn p \<Longrightarrow> lsn \<le> cq_flushed_lsn core' \<and> cq_kick core'"
    using C(4) K(1) by (auto split: if_splits)
qed

lemma progress_settle:
  assumes inv: "progress_inv s" and room: "cq_next_lsn (q_core s) < - 1"
    and pass: "passes app now (q_core s) (q_sink s) req r" and st: "settle req r s = (ev, s')"
  shows "progress_inv s'"
proof -
  consider (idle) out where "r = (q_core s, q_sink s, out)" "out = EnqBlocked \<or> (\<exists>e. out = EnqReturn (Inl e))"
    | (append) "enqueue_append app now (q_core s) (q_sink s) req = Some r"
    using pass unfolding passes_def by blast
  then show ?thesis
  proof cases
    case idle
    with st inv show ?thesis
      by (auto simp: settle_def Let_def intro!: progress_asleep progress_release)
  next
    case append
    obtain core' sink' out where r: "r = (core', sink', out)" by (cases r) auto
    note A = progress_append [OF inv room append [unfolded r]]
    have "progress_inv (release (s\<lparr>q_core := core', q_sink := sink'\<rparr>))" by (rule progress_release [OF A(1)])
    moreover have "enqueue_poll (core'\<lparr>cq_notified := []\<rparr>) l p = enqueue_poll core' l p" for l p
      by (simp add: enqueue_poll_def)
    moreover have "out \<noteq> EnqBlocked" using enqueue_append_core(4) [OF append [unfolded r]] by (auto split: if_splits)
    ultimately show ?thesis
      using st A(2) by (auto simp: r settle_def Let_def kicked_def intro!: progress_asleep split: EnqOutcome.splits option.splits)
  qed
qed

lemma progress_worker:
  assumes inv: "progress_inv s" and "cq_flushed_lsn (q_core s') = cq_flushed_lsn (q_core s)"
    and "cq_next_lsn (q_core s') = cq_next_lsn (q_core s)" and "q_callers s' = q_callers s" and "worker_knows s'"
    and "no_lost_wakeup s'" and k: "\<And>lsn. lsn \<le> cq_flushed_lsn (q_core s) \<Longrightarrow> kicked s lsn \<Longrightarrow> kicked s' lsn"
  shows "progress_inv s'"
  using assms unfolding progress_inv_def by metis

lemma progress_step:
  assumes "qstep app sync s ev s'" and "progress_inv s" and "cq_next_lsn (q_core s) < - 1"
  shows "progress_inv s'"
  using assms
proof (induction rule: qstep.induct)
  case (q_call now s req r ev s')
  then show ?case using enqueue_passes [OF q_call(1)] by (intro progress_settle [OF q_call(3,4) _ q_call(2)]) auto
next
  case (q_wake req s now r ev s')
  then show ?case
    using retry_passes [OF q_wake(2)] by (intro progress_settle [OF progress_leave [OF q_wake(4,1)] _ _ q_wake(3)]) auto
next
  case (q_ack req lsn p s res)
  then show ?case by (intro progress_leave)
next
  case (q_barrier token target s force ev s')
  obtain core out where w: "wait_for_durable (q_core s) token target force = (core, out)" by fastforce
  have core: "progress_inv (s\<lparr>q_core := core\<rparr>)" "progress_inv (s\<lparr>q_core := deregister core token\<rparr>)"
    using w by (auto intro!: progress_core [OF q_barrier(2)]
        simp: wait_for_durable_def deregister_def core_view_def Let_def split: if_splits)
  have "wait_poll core target = None" if "out = None"
    using that w by (auto simp: wait_for_durable_def Let_def split: if_splits)
  moreover have "wait_poll (core\<lparr>cq_notified := []\<rparr>) target = wait_poll core target"
    by (simp add: wait_poll_def split: option.split)
  ultimately show ?case
    using q_barrier(1) w core
    by (auto simp: enter_barrier_def intro!: progress_release progress_asleep split: option.splits)
next
  case (q_barrier_ack token target s res)
  have "progress_inv (s\<lparr>q_core := deregister (q_core s) token\<rparr>)"
    by (rule progress_core [OF q_barrier_ack(3)]) (auto simp: deregister_def core_view_def)
  with q_barrier_ack(1) show ?case by (intro progress_leave) simp_all
next
  case (q_wait c s)
  have "progress_inv (leave c s)" using q_wait by (intro progress_leave)
  with q_wait progressD(1) [OF q_wait(3), of _ _ _] show ?case
    by (intro progress_asleep) (auto simp: kicked_def q_callers_def)
next
  case (q_chance c s)
  then show ?case
    by (intro progress_callers [OF q_chance(2)]) (auto simp: callers_moved(4) dest: progressD in_diffD)
next
  case (q_close s)
  show ?case
    by (intro progress_release progress_core [OF q_close(1)]) (auto simp: close_def core_view_def)
next
  case (q_timeout s)
  then show ?case by (intro progress_worker [OF q_timeout(2)]) (auto simp: progress_defs)
next
  case (q_work s now final)
  then show ?case
    by (intro progress_worker [OF q_work(3)])
      (auto simp: progress_defs worker_decide_def waits_on_kick split: if_splits)
next
  case (q_rest s now)
  then show ?case
    by (intro progress_worker [OF q_rest(3)]) (auto simp: progress_defs worker_decide_def split: if_splits)
next
  case (q_exit s now)
  then show ?case
    by (intro progress_worker [OF q_exit(3)]) (auto simp: progress_defs worker_decide_def split: if_splits)
next
  case (q_sync_ok s target final sink' u)
  then show ?case by (intro progress_worker [OF q_sync_ok(3)]) (auto simp: progress_defs)
next
  case (q_sync_err s target final sink' e)
  then show ?case
    by (intro progress_release progress_worker [OF q_sync_err(3)])
      (auto simp: progress_defs sync_failed_def split: option.splits)
next
  case (q_finish s target final)
  then show ?case
    by (intro progress_release progress_worker [OF q_finish(2)])
      (auto simp: progress_defs sync_done_notifies le_max_iff_disj)
qed

lemma qstep_released:
  assumes "qstep app sync s ev s'" and "cq_notified (q_core s) = []"
  shows "cq_notified (q_core s') = []"
  using assms
  by (induction rule: qstep.induct)
    (auto simp: settle_def enter_barrier_def deregister_def Let_def split: prod.splits EnqOutcome.splits option.splits)

lemma progress_reach:
  assumes "qreach app sync s0 k s" and "progress_inv s0" and "cq_notified (q_core s0) = []"
    and "unat (cq_next_lsn (q_core s0)) + k < 2 ^ 64 - 1"
  shows "progress_inv s \<and> cq_notified (q_core s) = [] \<and>
    unat (cq_next_lsn (q_core s)) \<le> unat (cq_next_lsn (q_core s0)) + k"
  using assms
proof (induction rule: qreach.induct)
  case (reach_step k s ev s')
  then have inv: "progress_inv s" "cq_notified (q_core s) = []"
      and le: "unat (cq_next_lsn (q_core s)) \<le> unat (cq_next_lsn (q_core s0)) + k"
    by auto
  moreover have room: "cq_next_lsn (q_core s) < - 1"
    using le reach_step.prems(3) by (simp add: less_max_u64)
  ultimately show ?case
    using progress_step [OF reach_step.hyps(2)] qstep_released [OF reach_step.hyps(2)] qstep_next [OF reach_step.hyps(2)]
    by fastforce
qed auto

text \<open>An error and a shutdown are for ever.\<close>

definition is_open :: "'s QSys \<Rightarrow> bool" where
  "is_open s \<longleftrightarrow> cq_error (q_core s) = None \<and> \<not> cq_shutting_down (q_core s)"

lemma settle_open:
  assumes "passes app now (q_core s) (q_sink s) req r" and "settle req r s = (ev, s')" and "is_open s'"
  shows "is_open s"
proof -
  obtain core sink out where r: "r = (core, sink, out)" by (cases r) auto
  have core: "cq_error core = None" "\<not> cq_shutting_down core"
    using settle_core [OF assms(2) [unfolded r]] assms(3) by (simp_all add: is_open_def)
  show ?thesis
  proof (cases "enqueue_append app now (q_core s) (q_sink s) req = Some (core, sink, out)")
    case True
    from enqueue_append_wakes(2,6) [OF True] core show ?thesis by (cases "cq_error (q_core s)") (auto simp: is_open_def)
  next
    case False
    with assms(1) core show ?thesis by (auto simp: is_open_def passes_def r)
  qed
qed

lemma qstep_open: "qstep app sync s ev s' \<Longrightarrow> is_open s' \<Longrightarrow> is_open s"
proof (induction rule: qstep.induct)
  case (q_call now s req r ev s')
  then show ?case using settle_open [OF conjunct1 [OF enqueue_passes [OF q_call(1)]]] by blast
next
  case (q_wake req s now r ev s')
  then have "is_open (leave (Blocked req) s)" using settle_open [OF _ q_wake(3)] retry_passes [OF q_wake(2)] by simp
  then show ?case by (simp add: is_open_def)
qed (auto simp: is_open_def enter_barrier_def wait_for_durable_def deregister_def close_def sync_failed_def Let_def
    split: prod.splits option.splits if_splits)

text \<open>How many steps the worker still needs before the record \<open>lsn\<close> is durable.\<close>

definition rounds_left :: "'s QSys \<Rightarrow> u64 \<Rightarrow> nat" where
  "rounds_left s lsn =
     (if lsn \<le> cq_durable_lsn (q_core s) then 0
      else case q_worker s of
             WSyncing t _ \<Rightarrow> (if lsn \<le> t then 2 else 5)
           | WSynced t _ \<Rightarrow> (if lsn \<le> t then 1 else 4)
           | _ \<Rightarrow> 3)"

lemma rounds_left_same:
  assumes "cq_durable_lsn (q_core s') = cq_durable_lsn (q_core s)"
    and "q_worker s' = q_worker s \<or> q_worker s = WAsleep \<and> q_worker s' = WRunning"
  shows "rounds_left s' lsn = rounds_left s lsn"
  using assms by (auto simp: rounds_left_def)

lemma rounds_left_settle:
  assumes "passes app now (q_core s) (q_sink s) req r" and "settle req r s = (ev, s')"
  shows "rounds_left s' lsn = rounds_left s lsn" and "ev \<noteq> EvWorker"
proof -
  obtain core sink out where r: "r = (core, sink, out)" by (cases r) auto
  have "cq_durable_lsn core = cq_durable_lsn (q_core s)"
    using assms(1) enqueue_append_core(2) [of app now "q_core s" "q_sink s" req core sink out] by (auto simp: r passes_def)
  then show "rounds_left s' lsn = rounds_left s lsn"
    using settle_core [OF assms(2) [unfolded r]] by (intro rounds_left_same) auto
  show "ev \<noteq> EvWorker" using assms(2) by (auto simp: r settle_def Let_def split: EnqOutcome.splits option.splits)
qed

text \<open>A step of the worker comes closer to durability, a step of any other thread does not undo that.\<close>

lemma rounds_left_step:
  assumes "qstep app sync s ev s'" and "progress_inv s" and "Awaiting req lsn p \<in># q_callers s" and "is_open s'"
    and ok: "\<And>x. \<exists>x' u. sync x = (x', Inr u)"
  shows "rounds_left s' lsn = 0 \<or> rounds_left s' lsn + (if ev = EvWorker then 1 else 0) \<le> rounds_left s lsn"
proof -
  have op: "is_open s" by (rule qstep_open [OF assms(1,4)])
  have P: "lsn \<le> cq_flushed_lsn (q_core s)" "kicked s lsn" "worker_knows s"
    using progressD(1) [OF assms(2,3)] assms(2) by (auto simp: progress_inv_def)
  from assms(1) op P show ?thesis
  proof (induction rule: qstep.induct)
    case (q_call now s rq r ev s')
    then show ?case using rounds_left_settle [OF conjunct1 [OF enqueue_passes [OF q_call(1)]] q_call(2)] by simp
  next
    case (q_wake rq s now r ev s')
    have "rounds_left s' lsn = rounds_left (leave (Blocked rq) s) lsn" "ev \<noteq> EvWorker"
      using rounds_left_settle [OF _ q_wake(3)] retry_passes [OF q_wake(2)] by simp_all
    then show ?case by (simp add: rounds_left_def)
  next
    case (q_barrier token target s force ev s')
    then have "rounds_left s' lsn = rounds_left s lsn" "ev \<noteq> EvWorker"
      by (auto intro!: rounds_left_same simp: enter_barrier_def wait_for_durable_def deregister_def Let_def
          split: option.splits if_splits)
    then show ?case by simp
  next
    case (q_sync_err s target final sink' e)
    with ok show ?case by (metis Inl_Inr_False prod.inject)
  next
    case (q_finish s target final)
    then show ?case by (auto simp: rounds_left_def le_max_iff_disj is_open_def worker_knows_def)
  qed (auto simp: rounds_left_def is_open_def kicked_def worker_decide_def deregister_def close_def split: if_splits)
qed

lemma waiting_stays:
  assumes "qstep app sync s ev s'" and "Awaiting req lsn p \<in># q_callers s" and "is_open s'"
  shows "Awaiting req lsn p \<in># q_callers s' \<or>
    ev = EvEnqueued req (Inr \<lparr>rc_lsn = lsn, rc_durable = True, rc_placement = p\<rparr>)"
  using assms
proof (induction rule: qstep.induct)
  case (q_call now s rq r ev s')
  then show ?case by (auto simp: settle_def Let_def callers_moved(1) split: prod.splits EnqOutcome.splits option.splits)
next
  case (q_wake rq s now r ev s')
  then have "Awaiting req lsn p \<in># q_callers (leave (Blocked rq) s)"
    by (auto simp: callers_moved(2) in_diff_count)
  with q_wake(3) show ?case
    by (auto simp: settle_def Let_def callers_moved(1) split: prod.splits EnqOutcome.splits option.splits)
next
  case (q_ack rq l q s res)
  have "enqueue_poll (q_core s) l q = Some (Inr \<lparr>rc_lsn = l, rc_durable = True, rc_placement = q\<rparr>)"
    using q_ack(2,4) by (auto simp: enqueue_poll_def is_open_def split: if_splits)
  with q_ack show ?case
    by (cases "Awaiting rq l q = Awaiting req lsn p") (auto simp: callers_moved(2) in_diff_count)
next
  case (q_barrier token target s force ev s')
  then show ?case by (auto simp: enter_barrier_def callers_moved(1) split: prod.splits option.splits)
next
  case (q_barrier_ack token target s res)
  then show ?case using callers_moved(2) [of "AtBarrier token target" "s\<lparr>q_core := deregister (q_core s) token\<rparr>"]
    by (auto simp: in_diff_count)
qed (auto simp: callers_moved(3,4))

lemma run_reach: "qrun app sync s0 evs s \<Longrightarrow> qreach app sync s0 (length evs) s"
  by (induction rule: qrun.induct) (auto intro: reach_init reach_step)

text \<open>Along a run the writer is answered, or its record comes closer to durability with every step of the worker.\<close>

lemma run_progress:
  assumes "qrun app sync s evs s'" and "progress_inv s" and "cq_notified (q_core s) = []"
    and "unat (cq_next_lsn (q_core s)) + length evs < 2 ^ 64 - 1"
    and "Awaiting req lsn p \<in># q_callers s" and "is_open s'" and ok: "\<And>x. \<exists>x' u. sync x = (x', Inr u)"
  shows "EvEnqueued req (Inr \<lparr>rc_lsn = lsn, rc_durable = True, rc_placement = p\<rparr>) \<in> set evs \<or>
    Awaiting req lsn p \<in># q_callers s' \<and>
    (rounds_left s' lsn = 0 \<or> rounds_left s' lsn + count_list evs EvWorker \<le> rounds_left s lsn)"
  using assms(1-6)
proof (induction rule: qrun.induct)
  case (run_step evs s1 ev s2)
  have op: "is_open s1" by (rule qstep_open [OF run_step.hyps(2) run_step.prems(5)])
  have inv: "progress_inv s1"
    using progress_reach [OF run_reach [OF run_step.hyps(1)] run_step.prems(1,2)] run_step.prems(3) by simp
  show ?case
  proof (cases "EvEnqueued req (Inr \<lparr>rc_lsn = lsn, rc_durable = True, rc_placement = p\<rparr>) \<in> set (evs @ [ev])")
    case False
    then have IH: "Awaiting req lsn p \<in># q_callers s1"
        "rounds_left s1 lsn = 0 \<or> rounds_left s1 lsn + count_list evs EvWorker \<le> rounds_left s lsn"
      using run_step.IH run_step.prems op by auto
    have "Awaiting req lsn p \<in># q_callers s2"
      using waiting_stays [OF run_step.hyps(2) IH(1) run_step.prems(5)] False by auto
    moreover note rounds_left_step [OF run_step.hyps(2) inv IH(1) run_step.prems(5) ok]
    ultimately show ?thesis using IH(2) by (auto split: if_splits)
  qed simp
qed simp

text \<open>As long as the record is not durable the worker can take a step.\<close>

lemma worker_enabled:
  assumes inv: "progress_inv s" "cq_notified (q_core s) = []" and c: "Awaiting req lsn p \<in># q_callers s"
    and op: "is_open s" and lsn: "cq_durable_lsn (q_core s) < lsn" and ok: "\<And>x. \<exists>x' u. sync x = (x', Inr u)"
  shows "\<exists>s'. qstep app sync s EvWorker s'"
proof -
  have k: "kicked s lsn" "worker_knows s" "no_lost_wakeup s"
    using progressD(1) [OF inv(1) c] inv(1) by (auto simp: progress_inv_def)
  show ?thesis
  proof (cases "q_worker s")
    case WRunning
    then have "worker_decide 0 (q_core s) = WkSync False"
      using k(1) lsn op by (auto simp: kicked_def worker_decide_def is_open_def)
    with WRunning show ?thesis by (blast intro: q_work)
  next
    case WAsleep
    then show ?thesis using k lsn inv(2) by (auto simp: kicked_def no_lost_wakeup_def)
  next
    case (WSyncing t final)
    then show ?thesis using ok [of "q_sink s"] by (blast intro: q_sync_ok)
  next
    case (WSynced t final)
    then show ?thesis by (blast intro: q_finish)
  next
    case WExited
    then show ?thesis using k(2) op by (simp add: worker_knows_def is_open_def)
  qed
qed

lemma durable_answer:
  assumes "progress_inv s" and "cq_notified (q_core s) = []" and "Awaiting req lsn p \<in># q_callers s" and "is_open s"
    and "lsn \<le> cq_durable_lsn (q_core s)"
  shows "Awaiting req lsn p \<in># q_ready s \<and>
    enqueue_poll (q_core s) lsn p = Some (Inr \<lparr>rc_lsn = lsn, rc_durable = True, rc_placement = p\<rparr>)"
proof -
  have poll: "enqueue_poll (q_core s) lsn p = Some (Inr \<lparr>rc_lsn = lsn, rc_durable = True, rc_placement = p\<rparr>)"
    using assms(4,5) by (simp add: enqueue_poll_def is_open_def)
  then have "Awaiting req lsn p \<notin># q_waiting s"
    using progressD(2) [OF assms(1), of "Awaiting req lsn p"] assms(2) by auto
  with poll assms(3) show ?thesis by (auto simp: q_callers_def)
qed

section \<open>Writers caught by a shutdown\<close>

text \<open>The worker has gone after its last sync and a caller still waits for a later record.\<close>

definition hung :: "CommitRequest \<Rightarrow> u64 \<Rightarrow> Placement \<Rightarrow> 's QSys \<Rightarrow> bool" where
  "hung req lsn p s \<longleftrightarrow>
     q_worker s = WExited \<and> cq_shutting_down (q_core s) \<and> cq_error (q_core s) = None \<and>
     cq_durable_lsn (q_core s) < lsn \<and> Awaiting req lsn p \<in># q_callers s \<and> (\<forall>r. Blocked r \<notin># q_callers s)"

lemma hung_poll: "hung req lsn p s \<Longrightarrow> enqueue_poll (q_core s) lsn p = None"
  by (auto simp: hung_def enqueue_poll_def)

lemma hung_step:
  assumes "qstep app sync s ev s'" and "hung req lsn p s"
  shows "hung req lsn p s'"
  using assms
proof (induction rule: qstep.induct)
  case (q_call now s rq r ev s')
  then obtain e where "r = (q_core s, q_sink s, EnqReturn (Inl e))"
    by (auto simp: hung_def enqueue_def split: if_splits)
  with q_call show ?case by (auto simp: settle_def Let_def hung_def)
next
  case (q_wake rq s now r ev s')
  then show ?case by (simp add: hung_def q_callers_def)
next
  case (q_ack rq l q s res)
  then have "Awaiting rq l q \<noteq> Awaiting req lsn p" using hung_poll by force
  with q_ack show ?case by (auto simp: hung_def callers_moved(2) in_diff_count dest: in_diffD)
next
  case (q_barrier token target s force ev s')
  then show ?case
    by (auto simp: enter_barrier_def wait_for_durable_def deregister_def hung_def callers_moved(1) Let_def
        split: if_splits option.splits)
next
  case (q_barrier_ack token target s res)
  then show ?case using callers_moved(2) [of "AtBarrier token target" "s\<lparr>q_core := deregister (q_core s) token\<rparr>"]
    by (auto simp: hung_def deregister_def in_diff_count dest: in_diffD)
next
  case (q_wait c s)
  then show ?case by (simp add: hung_def callers_moved(3))
next
  case (q_chance c s)
  then show ?case by (simp add: hung_def callers_moved(4))
qed (auto simp: hung_def close_def)

lemma hung_forever: "qreach app sync s k s' \<Longrightarrow> hung req lsn p s \<Longrightarrow> hung req lsn p s'"
  by (induction rule: qreach.induct) (auto intro: hung_step)

section \<open>Properties\<close>

definition demo_app :: "unit sink_append" where
  "demo_app s lsn t f pl = Some ((), Inr \<lparr>pl_seg_id = 1, pl_offset = 68, pl_crc = 0, pl_payload_len = of_nat (length pl)\<rparr>)"

definition demo_sync :: "unit sink_sync" where
  "demo_sync s = (s, Inr ())"

definition demo_config :: CommitConfig where
  "demo_config = \<lparr>cc_async_interval = 5, cc_max_dirty_bytes = 60\<rparr>"

definition demo_core :: CommitCore where
  "demo_core = the (CommitQueue_new demo_config 1)"

definition demo_req :: "CommitMode \<Rightarrow> CommitRequest" where
  "demo_req m = \<lparr>rq_rtype = Data, rq_flags = 0, rq_payload = replicate 10 0, rq_mode = m\<rparr>"

text \<open>C28: No wake-up is lost, and a strict write is acknowledged. Take any reachable state of the queue in which a
  strict writer waits, and any run that continues it, with whatever other callers, time-outs and chance wake-ups,
  during which the sink's syncs succeed and the queue neither fails nor shuts down. At the end the writer has had its
  durable receipt; or it has been woken and its next look at the queue yields that receipt; or the worker has taken
  fewer than five steps in that run and is able to take another one, without waiting for any notification.\<close>

theorem strict_write_progress:
  assumes "CommitQueue_new config next_lsn = Some core" and "next_lsn \<noteq> 0"
    and "qreach app sync (q_start core sink) k s" and "Awaiting req lsn p \<in># q_callers s"
    and "qrun app sync s evs s'" and "unat next_lsn + k + length evs < 2 ^ 64 - 1"
    and "cq_error (q_core s') = None" and "\<not> cq_shutting_down (q_core s')"
    and "\<And>x. \<exists>x' u. sync x = (x', Inr u)"
  shows "EvEnqueued req (Inr \<lparr>rc_lsn = lsn, rc_durable = True, rc_placement = p\<rparr>) \<in> set evs \<or>
    Awaiting req lsn p \<in># q_ready s' \<and>
      enqueue_poll (q_core s') lsn p = Some (Inr \<lparr>rc_lsn = lsn, rc_durable = True, rc_placement = p\<rparr>) \<or>
    Awaiting req lsn p \<in># q_callers s' \<and> count_list evs EvWorker < 5 \<and> (\<exists>s''. qstep app sync s' EvWorker s'')"
proof -
  let ?s0 = "q_start core sink"
  have core: "cq_next_lsn core = next_lsn" "cq_notified core = []" "progress_inv ?s0"
    using assms(1,2) saturating_sub_less [OF assms(2)]
    by (auto simp: CommitQueue_new_def progress_defs q_start_def q_callers_def split: if_splits)
  then have inv: "progress_inv s" "cq_notified (q_core s) = []" "unat (cq_next_lsn (q_core s)) \<le> unat next_lsn + k"
    using progress_reach [OF assms(3)] assms(6) by (simp_all add: q_start_def)
  have op: "is_open s'" using assms(7,8) by (simp add: is_open_def)
  have inv': "progress_inv s'" "cq_notified (q_core s') = []"
    using progress_reach [OF run_reach [OF assms(5)] inv(1,2)] inv(3) assms(6) by simp_all
  have "rounds_left s lsn \<le> 5" by (simp add: rounds_left_def split: WorkerPhase.split)
  moreover have "cq_durable_lsn (q_core s') < lsn \<longleftrightarrow> rounds_left s' lsn \<noteq> 0"
    by (auto simp: rounds_left_def split: WorkerPhase.splits)
  moreover note run_progress [OF assms(5) inv(1,2) _ assms(4) op assms(9)]
  ultimately show ?thesis
    using worker_enabled [OF inv' _ op _ assms(9), of req lsn p app] durable_answer [OF inv' _ op, of req lsn p] inv(3) assms(6)
    by fastforce
qed

lemma demo_core_new: "CommitQueue_new demo_config 1 = Some demo_core"
  by (simp add: demo_core_def CommitQueue_new_def demo_config_def)

lemma demo_core_eq:
  "demo_core = \<lparr>cq_config = demo_config, cq_next_lsn = 1, cq_flushed_lsn = 0, cq_durable_lsn = 0, cq_dirty_bytes = 0,
     cq_undurable = [], cq_kick = False, cq_waiters = [], cq_shutting_down = False, cq_error = None,
     cq_stats = \<lparr>cst_records = 0, cst_bytes = 0, cst_syncs = 0\<rparr>, cq_notified = []\<rparr>"
  by (simp add: demo_core_def CommitQueue_new_def demo_config_def saturating_sub_def)

lemmas demo_defs = demo_core_eq demo_config_def demo_req_def demo_app_def demo_sync_def q_start_def settle_def
  enqueue_def enqueue_retry_def enqueue_append_def enqueue_poll_def record_bytes_def need_durable_def notify_def release_def

text \<open>A run with a strict write: the writer falls asleep, the worker syncs, wakes it, rests, wakes by chance and rests
  again, while the writer has not yet taken the lock.\<close>

definition demo_p :: Placement where
  "demo_p = \<lparr>pl_seg_id = 1, pl_offset = 68, pl_crc = 0, pl_payload_len = 10\<rparr>"

definition calm_c1 :: CommitCore where
  "calm_c1 = demo_core\<lparr>cq_next_lsn := 2, cq_flushed_lsn := 1, cq_dirty_bytes := 36, cq_kick := True,
     cq_undurable := [\<lparr>ud_lsn = 1, ud_bytes = 36, ud_enqueued_at = 0\<rparr>],
     cq_stats := \<lparr>cst_records = 1, cst_bytes = 36, cst_syncs = 0\<rparr>\<rparr>"

definition calm_c2 :: CommitCore where
  "calm_c2 = calm_c1\<lparr>cq_kick := False\<rparr>"

definition calm_c3 :: CommitCore where
  "calm_c3 = (sync_done 1 calm_c2)\<lparr>cq_notified := []\<rparr>"

lemmas calm_defs = calm_c3_def calm_c2_def calm_c1_def sync_done_def saturating_sub_def worker_decide_def waiter_due_def
  interval_due_def budget_due_def

definition demo_sys :: "CommitCore \<Rightarrow> WorkerPhase \<Rightarrow> Caller multiset \<Rightarrow> Caller multiset \<Rightarrow> unit QSys" where
  "demo_sys core w ready waiting = \<lparr>q_core = core, q_sink = (), q_worker = w, q_ready = ready, q_waiting = waiting\<rparr>"

lemma calm_start:
  "qreach demo_app demo_sync (q_start demo_core ()) 1 (demo_sys calm_c1 WRunning {#} {#Awaiting (demo_req Strict) 1 demo_p#})"
proof -
  let ?core = "calm_c1\<lparr>cq_notified := [SyncCv]\<rparr>" and ?s = "q_start demo_core ()"
  have "enqueue demo_app 0 (q_core ?s) (q_sink ?s) (demo_req Strict) = Some (?core, (), EnqWait 1 demo_p)"
    by (simp add: calm_c1_def demo_p_def demo_defs Let_def)
  moreover have "enqueue_poll ?core 1 demo_p = None" by (simp add: calm_c1_def enqueue_poll_def demo_core_eq)
  then have "settle (demo_req Strict) (?core, (), EnqWait 1 demo_p) ?s =
      (EvNone, demo_sys calm_c1 WRunning {#} {#Awaiting (demo_req Strict) 1 demo_p#})"
    by (simp add: settle_def release_def fall_asleep_def demo_sys_def q_start_def) (simp add: calm_c1_def demo_core_eq)
  ultimately have "qstep demo_app demo_sync ?s EvNone
      (demo_sys calm_c1 WRunning {#} {#Awaiting (demo_req Strict) 1 demo_p#})"
    by (rule q_call)
  then show ?thesis using reach_step [OF reach_init] by fastforce
qed

lemma calm_run:
  "qrun demo_app demo_sync (demo_sys calm_c1 WRunning {#} {#Awaiting (demo_req Strict) 1 demo_p#})
     [EvWorker, EvWorker, EvWorker, EvWorker, EvNone, EvWorker]
     (demo_sys calm_c3 WAsleep {#Awaiting (demo_req Strict) 1 demo_p#} {#})"
proof -
  let ?c = "{#Awaiting (demo_req Strict) 1 demo_p#}" and ?step = "qstep demo_app demo_sync"
  have s: "?step (demo_sys calm_c1 WRunning {#} ?c) EvWorker (demo_sys calm_c2 (WSyncing 1 False) {#} ?c)"
    "?step (demo_sys calm_c2 (WSyncing 1 False) {#} ?c) EvWorker (demo_sys calm_c2 (WSynced 1 False) {#} ?c)"
    "?step (demo_sys calm_c2 (WSynced 1 False) {#} ?c) EvWorker (demo_sys calm_c3 WRunning ?c {#})"
    "?step (demo_sys calm_c3 WRunning ?c {#}) EvWorker (demo_sys calm_c3 WAsleep ?c {#})"
    "?step (demo_sys calm_c3 WAsleep ?c {#}) EvNone (demo_sys calm_c3 WRunning ?c {#})"
    subgoal using q_work [of "demo_sys calm_c1 WRunning {#} ?c" 0 False demo_app demo_sync]
      by (simp add: demo_sys_def calm_defs demo_core_eq)
    subgoal using q_sync_ok [of "demo_sys calm_c2 (WSyncing 1 False) {#} ?c" 1 False demo_sync "()" "()" demo_app]
      by (simp add: demo_sys_def demo_sync_def)
    subgoal using q_finish [of "demo_sys calm_c2 (WSynced 1 False) {#} ?c" 1 False demo_app demo_sync]
      by (simp add: demo_sys_def calm_c3_def release_def sync_done_notifies)
    subgoal using q_rest [of "demo_sys calm_c3 WRunning ?c {#}" 0 demo_app demo_sync]
      by (simp add: demo_sys_def calm_defs demo_core_eq demo_config_def)
    subgoal using q_timeout [of "demo_sys calm_c3 WAsleep ?c {#}" demo_app demo_sync] by (simp add: demo_sys_def)
    done
  note r3 = run_step [OF run_step [OF run_step [OF run_init s(1)] s(2)] s(3)]
  from run_step [OF run_step [OF run_step [OF r3 s(4)] s(5)] s(4)] show ?thesis by simp
qed

theorem strict_write_progress_witness:
  "Awaiting (demo_req Strict) 1 demo_p \<in># q_ready (demo_sys calm_c3 WAsleep {#Awaiting (demo_req Strict) 1 demo_p#} {#}) \<and>
   enqueue_poll calm_c3 1 demo_p = Some (Inr \<lparr>rc_lsn = 1, rc_durable = True, rc_placement = demo_p\<rparr>)"
proof -
  have "cq_error calm_c3 = None" "\<not> cq_shutting_down calm_c3" by (simp_all add: calm_defs demo_core_eq)
  then show ?thesis
    using strict_write_progress [OF demo_core_new _ calm_start _ calm_run, of "demo_req Strict" 1 demo_p]
    by (simp add: demo_sys_def demo_sync_def q_callers_def)
qed

text \<open>A run: an asynchronous write fills the budget, a strict one blocks, the queue is closed, the worker syncs a
  last time and exits, and the strict writer wakes.\<close>

definition race_c1 :: CommitCore where
  "race_c1 = calm_c1\<lparr>cq_kick := False\<rparr>"

definition race_c2 :: CommitCore where "race_c2 = (close race_c1)\<lparr>cq_notified := []\<rparr>"

definition race_c3 :: CommitCore where "race_c3 = race_c2\<lparr>cq_kick := False\<rparr>"

definition race_c6 :: CommitCore where "race_c6 = (sync_done 1 race_c3)\<lparr>cq_notified := []\<rparr>"

definition race_c7 :: CommitCore where
  "race_c7 = (fst (the (enqueue_retry demo_app 0 race_c6 () (demo_req Strict))))\<lparr>cq_notified := []\<rparr>"

lemmas race_defs = race_c7_def race_c6_def race_c3_def race_c2_def race_c1_def calm_c1_def sync_done_def close_def
  saturating_sub_def

lemma race_wake:
  "enqueue_retry demo_app 0 race_c6 () (demo_req Strict) =
     Some (race_c7\<lparr>cq_notified := [SyncCv]\<rparr>, (), EnqWait 2 demo_p)"
  by (simp add: race_defs demo_p_def demo_defs Let_def)

lemma race_hung: "hung (demo_req Strict) 2 demo_p (demo_sys race_c7 WExited {#} {#Awaiting (demo_req Strict) 2 demo_p#})"
  by (simp add: hung_def demo_sys_def q_callers_def race_defs demo_defs Let_def)

lemma race_run:
  "qreach demo_app demo_sync (q_start demo_core ()) 7 (demo_sys race_c7 WExited {#} {#Awaiting (demo_req Strict) 2 demo_p#})"
proof -
  let ?step = "\<lambda>a ev b. qstep demo_app demo_sync a ev b" and ?req = "demo_req Strict"
  let ?b = "{#Blocked ?req#}" and ?a = "{#Awaiting ?req 2 demo_p#}"
  have "\<exists>ev. ?step (q_start demo_core ()) ev (demo_sys race_c1 WRunning {#} {#})"
    by (intro exI q_call [where now = 0 and req = "demo_req Async"])
      (auto simp: demo_sys_def race_c1_def calm_c1_def demo_defs Let_def)
  then obtain ev where s1: "?step (q_start demo_core ()) ev (demo_sys race_c1 WRunning {#} {#})" by blast
  have s: "?step (demo_sys race_c1 WRunning {#} {#}) EvNone (demo_sys race_c1 WRunning {#} ?b)"
    "?step (demo_sys race_c1 WRunning {#} ?b) EvNone (demo_sys race_c2 WRunning {#} ?b)"
    "?step (demo_sys race_c2 WRunning {#} ?b) EvWorker (demo_sys race_c3 (WSyncing 1 True) {#} ?b)"
    "?step (demo_sys race_c3 (WSyncing 1 True) {#} ?b) EvWorker (demo_sys race_c3 (WSynced 1 True) {#} ?b)"
    "?step (demo_sys race_c3 (WSynced 1 True) {#} ?b) EvWorker (demo_sys race_c6 WExited ?b {#})"
    "?step (demo_sys race_c6 WExited ?b {#}) EvNone (demo_sys race_c7 WExited {#} ?a)"
    subgoal by (intro q_call [where now = 0 and req = ?req])
      (auto simp: demo_sys_def race_c1_def calm_c1_def fall_asleep_def demo_defs Let_def)
    subgoal using q_close [of demo_app demo_sync "demo_sys race_c1 WRunning {#} ?b"]
      by (simp add: demo_sys_def release_def race_defs demo_core_eq)
    subgoal using q_work [of "demo_sys race_c2 WRunning {#} ?b" 0 True demo_app demo_sync]
      by (simp add: demo_sys_def worker_decide_def race_defs demo_core_eq)
    subgoal using q_sync_ok [of "demo_sys race_c3 (WSyncing 1 True) {#} ?b" 1 True demo_sync "()" "()" demo_app]
      by (simp add: demo_sys_def demo_sync_def)
    subgoal using q_finish [of "demo_sys race_c3 (WSynced 1 True) {#} ?b" 1 True demo_app demo_sync]
      by (simp add: demo_sys_def race_c6_def release_def sync_done_notifies)
    subgoal by (intro q_wake [where now = 0 and req = ?req and r = "(race_c7\<lparr>cq_notified := [SyncCv]\<rparr>, (), EnqWait 2 demo_p)"])
      (simp_all add: demo_sys_def race_wake settle_def leave_def release_def fall_asleep_def Let_def,
        simp add: enqueue_poll_def race_defs demo_defs Let_def not_le)
    done
  note r4 = reach_step [OF reach_step [OF reach_step [OF reach_step [OF reach_init s1] s(1)] s(2)] s(3)]
  show ?thesis
    using reach_step [OF reach_step [OF reach_step [OF r4 s(4)] s(5)] s(6)] by (simp add: numeral_eq_Suc)
qed

text \<open>C35: A strict write can hang across a shutdown. A writer blocked on the dirty-byte budget re-tests only the
  budget when it wakes, not the shutdown flag: after the worker's final sync has freed the budget and the worker
  has exited, such a writer appends its record and then waits for a durability that no step can bring, whatever
  happens later.\<close>

theorem strict_write_hangs_across_close:
  "\<exists>s req lsn p. qreach demo_app demo_sync (q_start demo_core ()) 7 s \<and> rq_mode req = Strict \<and>
     Awaiting req lsn p \<in># q_callers s \<and>
     (\<forall>k s'. qreach demo_app demo_sync s k s' \<longrightarrow>
        Awaiting req lsn p \<in># q_callers s' \<and> enqueue_poll (q_core s') lsn p = None)"
proof -
  let ?req = "demo_req Strict" and ?s7 = "demo_sys race_c7 WExited {#} {#Awaiting (demo_req Strict) 2 demo_p#}"
  have "Awaiting ?req 2 demo_p \<in># q_callers s' \<and> enqueue_poll (q_core s') 2 demo_p = None"
    if "qreach demo_app demo_sync ?s7 k s'" for k s'
    using hung_forever [OF that race_hung] hung_poll [of ?req 2 demo_p s'] by (simp add: hung_def)
  moreover have "rq_mode ?req = Strict" "Awaiting ?req 2 demo_p \<in># q_callers ?s7"
    by (simp_all add: demo_req_def demo_sys_def q_callers_def)
  ultimately show ?thesis using race_run by blast
qed

theorem strict_write_hangs_across_close_witness:
  "\<exists>s req lsn p. qreach demo_app demo_sync (q_start demo_core ()) 7 s \<and> Awaiting req lsn p \<in># q_callers s \<and>
     enqueue_poll (q_core s) lsn p = None"
  using strict_write_hangs_across_close reach_init by metis

end
