(* ===== verification/Wal_Sink.thy ===== *)
theory Wal_Sink
  imports Wal_Commit Wal_Replay
begin

text \<open>
  The segment sink (\<^verbatim>\<open>SegSink\<close> in \<^verbatim>\<open>powerfs-core/src/wal/engine.rs\<close>): it appends to the active
  segment and rolls to a new one when that is full. It provides the contract of group commit, so the
  locale's lemmas hold of the log on disk. The operating system's part of the state is the directory as the
  process sees it and \<open>sk_synced\<close>, how much of the active segment's file the last fsync covered. The clock is
  the parameter \<open>clk\<close>, read once per new segment. Error texts are shortened.
\<close>

section \<open>State and operations\<close>

record SegSink =
  sk_writer :: SegWriter
  sk_manifest :: SegManifest
  sk_dir :: directory
  sk_synced :: nat
  sk_volume_id :: u64
  sk_seg_size :: nat
  sk_preallocate :: bool

abbreviation writer_id :: "SegWriter \<Rightarrow> u64" where "writer_id w \<equiv> sh_seg_id (sw_header w)"

text \<open>Nothing is synced here: \<open>synced\<close> is what the operating system had on disk before.\<close>

definition SegSink_new :: "SegWriter \<Rightarrow> SegManifest \<Rightarrow> directory \<Rightarrow> nat \<Rightarrow> nat \<Rightarrow> bool \<Rightarrow> SegSink" where
  "SegSink_new writer manifest dir synced seg_size preallocate =
     \<lparr>sk_writer = writer, sk_manifest = manifest, sk_dir = dir, sk_synced = synced,
      sk_volume_id = sh_volume_id (sw_header writer), sk_seg_size = seg_size, sk_preallocate = preallocate\<rparr>"

text \<open>The writer works on its file in place.\<close>

definition put_writer :: "SegSink \<Rightarrow> SegWriter \<Rightarrow> SegSink" where
  "put_writer s w = s\<lparr>sk_writer := w, sk_dir := hm_insert (seg_file_name (writer_id w)) (sw_file w) (sk_dir s)\<rparr>"

definition sink_roll :: "(bytes \<Rightarrow> u32) \<Rightarrow> (u64 \<Rightarrow> i64) \<Rightarrow> SegSink \<Rightarrow> u64 \<Rightarrow> SegSink \<times> (SegmentError + unit)" where
  "sink_roll c clk s next_lsn =
     (let w = seal c (sk_writer s);
          s1 = (put_writer s w)\<lparr>sk_synced := sw_write_pos w\<rparr>;
          seg_id = next_seg_id (sk_manifest s1)
      in case SegWriter_create c (clk seg_id) (hm_get (sk_dir s1) (seg_file_name seg_id) \<noteq> None) seg_id
                (sk_volume_id s1) next_lsn (sk_seg_size s1) (sk_preallocate s1) of
           Inl e \<Rightarrow> (s1, Inl e)
         | Inr new_w \<Rightarrow>
             ((put_writer s1 new_w)\<lparr>sk_manifest := mf_register (sk_manifest s1) seg_id next_lsn (sk_volume_id s1),
                sk_synced := SEG_HEADER_SIZE\<rparr>, Inr ()))"

text \<open>The loop of \<^verbatim>\<open>append\<close>; \<^const>\<open>None\<close>: it never ends.\<close>

partial_function (option) sink_append :: "(bytes \<Rightarrow> u32) \<Rightarrow> (u64 \<Rightarrow> i64) \<Rightarrow> SegSink sink_append" where
  "sink_append c clk s lsn rtype flags payload =
     (case SegWriter_append c (sk_writer s) rtype flags lsn payload of
        (w, Inr meta) \<Rightarrow>
          Some (put_writer s w, Inr \<lparr>pl_seg_id = writer_id w, pl_offset = of_nat (fm_offset meta),
                                     pl_crc = fm_crc meta, pl_payload_len = fm_payload_len meta\<rparr>)
      | (w, Inl e) \<Rightarrow>
          (let s1 = put_writer s w in
           case e of
             SegmentFull need got \<Rightarrow>
               if sw_write_pos w = SEG_HEADER_SIZE then Some (s1, Inl ''record exceeds segment capacity'')
               else
                 (case sink_roll c clk s1 lsn of
                    (s2, Inl _) \<Rightarrow> Some (s2, Inl ''roll failed'')
                  | (s2, Inr _) \<Rightarrow> sink_append c clk s2 lsn rtype flags payload)
           | _ \<Rightarrow> Some (s1, Inl ''append failed'')))"

definition sink_sync :: "SegSink sink_sync" where
  "sink_sync s = (s\<lparr>sk_synced := sw_write_pos (sk_writer s)\<rparr>, Inr ())"

section \<open>The invariant\<close>

definition vol_log :: "volume \<Rightarrow> log_rec list" where
  "vol_log vol = concat (map (fst \<circ> snd) vol)"

text \<open>The directory holds the earlier segments \<open>vol\<close> and the active one with the records \<open>rs\<close>.\<close>

definition sink_inv :: "(bytes \<Rightarrow> u32) \<Rightarrow> SegSink \<Rightarrow> volume \<Rightarrow> log_rec list \<Rightarrow> bool" where
  "sink_inv c s vol rs \<longleftrightarrow>
     map sg_seg_id (mf_entries (sk_manifest s)) = seg_ids vol @ [writer_id (sk_writer s)] \<and>
     distinct (seg_ids vol @ [writer_id (sk_writer s)]) \<and> sg_state (last (mf_entries (sk_manifest s))) = StActive \<and>
     (\<forall>sg\<in>set vol. on_disk c (sk_dir s) sg) \<and>
     writer_inv c (sk_writer s) rs \<and>
     hm_get (sk_dir s) (seg_file_name (writer_id (sk_writer s))) = Some (sw_file (sk_writer s)) \<and>
     sw_seg_size (sk_writer s) = sk_seg_size s \<and> SEG_HEADER_SIZE + FRAME_HEADER_SIZE \<le> sk_seg_size s \<and>
     SEG_HEADER_SIZE \<le> sk_synced s \<and> sk_synced s \<le> sw_write_pos (sk_writer s)"

definition sink_rep :: "(bytes \<Rightarrow> u32) \<Rightarrow> SegSink \<Rightarrow> log_rec list \<Rightarrow> nat \<Rightarrow> bool" where
  "sink_rep c s log n \<longleftrightarrow>
     (\<exists>vol rs. sink_inv c s vol rs \<and> log = vol_log vol @ rs \<and>
        n = length (vol_log vol) + whole_recs (sk_synced s - SEG_HEADER_SIZE) rs)"

lemma whole_recs_append: "whole_recs n rs \<le> whole_recs n (rs @ xs)"
  by (induction rs arbitrary: n) auto

lemma vol_log_append [simp]: "vol_log (v @ w) = vol_log v @ vol_log w"
  by (simp add: vol_log_def)

lemma vol_log_single [simp]: "vol_log [(h, rs, z)] = rs"
  by (simp add: vol_log_def)

lemma writer_image:
  assumes "writer_inv c w rs" and "hm_get dir (seg_file_name (writer_id w)) = Some (sw_file w)"
  shows "\<exists>z. on_disk c dir (sw_header w, rs, z)"
  using assms by (auto simp: writer_inv_def on_disk_def)

lemma sink_inv_put:
  assumes "sink_inv c s vol rs" and "writer_inv c w rs'" and "sw_header w = (sw_header (sk_writer s))\<lparr>sh_flags := f\<rparr>"
    and "sw_seg_size w = sk_seg_size s" and "sk_synced s \<le> sw_write_pos w"
  shows "sink_inv c (put_writer s w) vol rs'"
proof -
  have "on_disk c (hm_insert (seg_file_name (writer_id w)) (sw_file w) (sk_dir s)) sg" if "sg \<in> set vol" for sg
    using assms(1,3) that by (intro on_disk_other) (auto simp: sink_inv_def seg_ids_def image_iff)
  with assms show ?thesis by (simp add: sink_inv_def put_writer_def)
qed

lemma append_pos: "writer_inv c w rs \<Longrightarrow> writer_inv c w' (rs @ xs) \<Longrightarrow> sw_write_pos w \<le> sw_write_pos w'"
  by (simp add: writer_inv_def)

lemma seal_header: "sw_header (seal c w) = (sw_header w)\<lparr>sh_flags := sh_flags (sw_header (seal c w))\<rparr>"
  by (simp add: seal_def Let_def)

lemma seal_sel [simp]: "sw_seg_size (seal c w) = sw_seg_size w" "sw_write_pos (seal c w) = sw_write_pos w"
  "writer_id (seal c w) = writer_id w"
  by (simp_all add: seal_def Let_def)

lemma header_flags_same: "h = h\<lparr>sh_flags := sh_flags h\<rparr>"
  by simp

lemma next_seg_id_other:
  assumes "manifest_ids = map sg_seg_id (mf_entries m)" and "manifest_ids \<noteq> []"
  shows "next_seg_id m = last manifest_ids + 1"
  using assms by (auto simp: next_seg_id_def last_map)

lemma register_ids:
  "map sg_seg_id (mf_entries (mf_register m sid b v)) = map sg_seg_id (mf_entries m) @ [sid]"
  by (cases "mf_entries m" rule: rev_cases) (auto simp: mf_register_def Let_def)

lemma register_active: "sg_state (last (mf_entries (mf_register m sid b v))) = StActive"
  by (simp add: mf_register_def Let_def)

lemma create_sel:
  "SegWriter_create c now ex sid vid base sz pre = Inr w \<Longrightarrow>
     writer_id w = sid \<and> sw_seg_size w = sz \<and> sw_write_pos w = SEG_HEADER_SIZE \<and> \<not> ex"
  by (auto simp: SegWriter_create_def Let_def split: if_splits)

lemma sink_roll_inv:
  assumes inv: "sink_inv c s vol rs" and roll: "sink_roll c clk s lsn = (s', res)"
  shows "(\<exists>e. res = Inl e \<and> sink_inv c s' vol rs \<and> sk_synced s' = sw_write_pos (sk_writer s) \<and>
       writer_id (sk_writer s') = writer_id (sk_writer s)) \<or>
    (\<exists>h z. res = Inr () \<and> sh_seg_id h = writer_id (sk_writer s) \<and> sink_inv c s' (vol @ [(h, rs, z)]) [] \<and> sw_write_pos (sk_writer s') = SEG_HEADER_SIZE \<and>
       sk_seg_size s' = sk_seg_size s \<and> \<not> is_sealed (sw_header (sk_writer s')))"
proof -
  define w where "w = seal c (sk_writer s)"
  define s1 where "s1 = (put_writer s w)\<lparr>sk_synced := sw_write_pos w\<rparr>"
  have W: "writer_inv c w rs" using inv by (simp add: w_def sink_inv_def seal_inv)
  have "sink_inv c (put_writer s w) vol rs"
    using inv W seal_header [of c "sk_writer s"]
    by (intro sink_inv_put) (auto simp: w_def sink_inv_def)
  then have s1: "sink_inv c s1 vol rs"
    using inv W by (simp add: s1_def sink_inv_def put_writer_def w_def writer_inv_def)
  have name: "writer_id w = writer_id (sk_writer s)" by (simp add: w_def)
  define sid where "sid = next_seg_id (sk_manifest s1)"
  define cr where "cr = SegWriter_create c (clk sid) (hm_get (sk_dir s1) (seg_file_name sid) \<noteq> None) sid
    (sk_volume_id s1) lsn (sk_seg_size s1) (sk_preallocate s1)"
  have roll': "sink_roll c clk s lsn = (case cr of Inl e \<Rightarrow> (s1, Inl e) | Inr new_w \<Rightarrow>
      ((put_writer s1 new_w)\<lparr>sk_manifest := mf_register (sk_manifest s1) sid lsn (sk_volume_id s1),
        sk_synced := SEG_HEADER_SIZE\<rparr>, Inr ()))"
    unfolding sink_roll_def Let_def cr_def sid_def s1_def w_def by (rule refl)
  show ?thesis
  proof (cases cr)
    case (Inl e)
    then have "s' = s1" "res = Inl e" using roll by (simp_all add: roll')
    moreover have "sk_synced s1 = sw_write_pos (sk_writer s)" "writer_id (sk_writer s1) = writer_id (sk_writer s)"
      by (simp_all add: s1_def w_def put_writer_def)
    ultimately show ?thesis using s1 by simp
  next
    case (Inr nw)
    note sel = create_sel [OF Inr [unfolded cr_def]]
    have files: "hm_get (sk_dir s1) (seg_file_name (writer_id w)) = Some (sw_file w)"
      by (simp add: s1_def put_writer_def)
    then obtain z where z: "on_disk c (sk_dir s1) (sw_header w, rs, z)" using writer_image [OF W] by blast
    have all: "\<forall>sg\<in>set (vol @ [(sw_header w, rs, z)]). on_disk c (sk_dir s1) sg"
      using s1 z by (simp add: sink_inv_def)
    then have fresh: "sid \<notin> set (seg_ids (vol @ [(sw_header w, rs, z)]))"
      using sel by (fastforce simp: seg_ids_def on_disk_def)
    have "writer_inv c nw []"
      using Inr s1 W by (intro create_inv [OF Inr [unfolded cr_def]]) (auto simp: sink_inv_def writer_inv_def)
    moreover have "\<forall>sg\<in>set (vol @ [(sw_header w, rs, z)]). on_disk c (hm_insert (seg_file_name sid) (sw_file nw) (sk_dir s1)) sg"
      using all fresh by (intro ballI on_disk_other) (auto simp: seg_ids_def image_iff)
    moreover have "\<not> is_sealed (sw_header nw)"
      using Inr by (auto simp: cr_def SegWriter_create_def is_sealed_def Let_def split: if_splits)
    moreover have "map sg_seg_id (mf_entries (sk_manifest s1)) = seg_ids (vol @ [(sw_header w, rs, z)])"
      "distinct (seg_ids (vol @ [(sw_header w, rs, z)]))" "SEG_HEADER_SIZE + FRAME_HEADER_SIZE \<le> sk_seg_size s1"
      using s1 by (auto simp: sink_inv_def seg_ids_def s1_def put_writer_def)
    moreover have "s' = (put_writer s1 nw)\<lparr>sk_manifest := mf_register (sk_manifest s1) sid lsn (sk_volume_id s1),
        sk_synced := SEG_HEADER_SIZE\<rparr>" "res = Inr ()"
      using roll by (simp_all add: roll' Inr)
    moreover have "sk_seg_size s1 = sk_seg_size s" by (simp add: s1_def put_writer_def)
    ultimately have "sink_inv c s' (vol @ [(sw_header w, rs, z)]) [] \<and> sw_write_pos (sk_writer s') = SEG_HEADER_SIZE \<and>
        sk_seg_size s' = sk_seg_size s \<and> \<not> is_sealed (sw_header (sk_writer s'))"
      using sel fresh by (simp add: sink_inv_def put_writer_def register_ids register_active)
    with \<open>res = Inr ()\<close> name show ?thesis by blast
  qed
qed

lemma append_header:
  "SegWriter_append c w t f l pl = (w', res) \<Longrightarrow> sw_header w' = sw_header w"
  by (auto simp: SegWriter_append_def pad_to_end_def put_frame_def Let_def split: if_splits prod.splits)

lemma sink_inv_append:
  assumes inv: "sink_inv c s vol rs" and step: "SegWriter_append c (sk_writer s) t f l pl = (w, res)"
    and w: "writer_inv c w (rs @ xs)"
  shows "sink_inv c (put_writer s w) vol (rs @ xs)"
proof (rule sink_inv_put [OF inv w])
  show "sw_header w = (sw_header (sk_writer s))\<lparr>sh_flags := sh_flags (sw_header (sk_writer s))\<rparr>"
    using append_header [OF step] by simp
  show "sw_seg_size w = sk_seg_size s" using inv append_seg_size [OF step] by (simp add: sink_inv_def)
  show "sk_synced s \<le> sw_write_pos w"
    using inv append_pos [OF _ w] by (force simp: sink_inv_def)
qed

section \<open>How the sink sink_grows\<close>

text \<open>Record \<open>r\<close> has its frame at \<open>off\<close> in segment \<open>sid\<close>.\<close>

definition in_log :: "(bytes \<Rightarrow> u32) \<Rightarrow> volume \<Rightarrow> u64 \<Rightarrow> log_rec list \<Rightarrow> u64 \<Rightarrow> nat \<Rightarrow> log_rec \<Rightarrow> bool" where
  "in_log c vol wid rs sid off r \<longleftrightarrow>
     (\<exists>h rs0 z. (h, rs0, z) \<in> set vol \<and> sh_seg_id h = sid \<and> rec_frame c off r \<in> set (frames_of c SEG_HEADER_SIZE rs0)) \<or>
     sid = wid \<and> rec_frame c off r \<in> set (frames_of c SEG_HEADER_SIZE rs)"

definition synced_recs :: "SegSink \<Rightarrow> volume \<Rightarrow> log_rec list \<Rightarrow> nat" where
  "synced_recs s vol rs = length (vol_log vol) + whole_recs (sk_synced s - SEG_HEADER_SIZE) rs"

definition placed :: "(bytes \<Rightarrow> u32) \<Rightarrow> volume \<Rightarrow> u64 \<Rightarrow> log_rec list \<Rightarrow> log_rec \<Rightarrow> string + Placement \<Rightarrow> bool" where
  "placed c vol wid rs r res \<longleftrightarrow>
     (\<forall>p. res = Inr p \<longrightarrow> pl_seg_id p = wid \<and> in_log c vol wid rs (pl_seg_id p) (unat (pl_offset p)) r \<and>
        unat (pl_offset p) < 2 ^ 32 \<and> pl_crc p = rec_crc c r)"

definition new_recs :: "log_rec \<Rightarrow> string + Placement \<Rightarrow> log_rec list" where
  "new_recs r res = (case res of Inl _ \<Rightarrow> [] | Inr _ \<Rightarrow> [r])"

text \<open>A step of the sink for record \<open>r\<close> keeps every record where it is, adds padding and, on success, \<open>r\<close>.\<close>

definition grown :: "(bytes \<Rightarrow> u32) \<Rightarrow> SegSink \<Rightarrow> volume \<Rightarrow> log_rec list \<Rightarrow> SegSink \<Rightarrow> log_rec \<Rightarrow> string + Placement \<Rightarrow> volume \<Rightarrow> log_rec list \<Rightarrow> log_rec list \<Rightarrow> bool" where
  "grown c s vol rs s' r res vol' rs' pad \<longleftrightarrow>
     sink_inv c s' vol' rs' \<and> vol_log vol' @ rs' = vol_log vol @ rs @ pad @ new_recs r res \<and>
     (\<forall>x\<in>set pad. fst x = Pad \<and> rec_lsn x = rec_lsn r) \<and> synced_recs s vol rs \<le> synced_recs s' vol' rs' \<and>
     (\<forall>sid off x. in_log c vol (writer_id (sk_writer s)) rs sid off x \<longrightarrow>
        in_log c vol' (writer_id (sk_writer s')) rs' sid off x) \<and>
     set (seg_ids vol) \<subseteq> set (seg_ids vol') \<and> placed c vol' (writer_id (sk_writer s')) rs' r res"

definition sink_grows :: "(bytes \<Rightarrow> u32) \<Rightarrow> SegSink \<Rightarrow> SegSink \<Rightarrow> log_rec \<Rightarrow> string + Placement \<Rightarrow> bool" where
  "sink_grows c s s' r res \<longleftrightarrow> (\<forall>vol rs. sink_inv c s vol rs \<longrightarrow> (\<exists>vol' rs' pad. grown c s vol rs s' r res vol' rs' pad))"

lemma sink_growsD:
  assumes "sink_grows c s s' r res" and "sink_inv c s vol rs"
  obtains vol' rs' pad where "grown c s vol rs s' r res vol' rs' pad"
  using assms unfolding sink_grows_def by blast

lemma grows_trans:
  assumes "sink_grows c s s1 r (Inl e)" and "sink_grows c s1 s2 r res"
  shows "sink_grows c s s2 r res"
  unfolding sink_grows_def
proof (intro allI impI)
  fix vol rs assume "sink_inv c s vol rs"
  then obtain vol1 rs1 pad1 where g1: "grown c s vol rs s1 r (Inl e) vol1 rs1 pad1" by (rule sink_growsD [OF assms(1)])
  then have "sink_inv c s1 vol1 rs1" by (simp add: grown_def)
  then obtain vol2 rs2 pad2 where g2: "grown c s1 vol1 rs1 s2 r res vol2 rs2 pad2" by (rule sink_growsD [OF assms(2)])
  have log: "vol_log vol1 @ rs1 = vol_log vol @ rs @ pad1" "vol_log vol2 @ rs2 = vol_log vol1 @ rs1 @ pad2 @ new_recs r res"
    using g1 g2 by (simp_all add: grown_def new_recs_def)
  then have "vol_log vol2 @ rs2 = vol_log vol @ rs @ (pad1 @ pad2) @ new_recs r res" by (metis append.assoc)
  with g1 g2 have "grown c s vol rs s2 r res vol2 rs2 (pad1 @ pad2)" by (auto simp: grown_def)
  then show "\<exists>vol' rs' pad. grown c s vol rs s2 r res vol' rs' pad" by blast
qed

lemma frames_of_mono: "x \<in> set (frames_of c p rs) \<Longrightarrow> x \<in> set (frames_of c p (rs @ rs'))"
  by (simp add: frames_of_append)

lemma rec_frame_at_end: "rec_frame c (p + log_size rs) r \<in> set (frames_of c p (rs @ [r]))"
  by (simp add: frames_of_append)

lemma in_log_mono: "in_log c vol wid rs sid off r \<Longrightarrow> in_log c vol wid (rs @ rs') sid off r"
  by (auto simp: in_log_def intro: frames_of_mono)

lemma grows_ok:
  assumes step: "SegWriter_append c (sk_writer s) t f lsn pl = (w, Inr m)"
  shows "sink_grows c s (put_writer s w) (t, f, lsn, pl)
    (Inr \<lparr>pl_seg_id = writer_id w, pl_offset = of_nat (fm_offset m), pl_crc = fm_crc m, pl_payload_len = fm_payload_len m\<rparr>)"
  unfolding sink_grows_def
proof (intro allI impI)
  fix vol rs assume inv: "sink_inv c s vol rs"
  then have W: "writer_inv c (sk_writer s) rs" by (simp add: sink_inv_def)
  note A = append_ok_inv [OF W step]
  have small: "SEG_HEADER_SIZE + log_size rs < 2 ^ 32" using W by (simp add: writer_inv_def)
  then have off: "unat (of_nat (fm_offset m) :: u64) = SEG_HEADER_SIZE + log_size rs"
    using W A(2) unat_of_nat_u64 [of "SEG_HEADER_SIZE + log_size rs"] by (simp add: writer_inv_def)
  have "grown c s vol rs (put_writer s w) (t, f, lsn, pl)
      (Inr \<lparr>pl_seg_id = writer_id w, pl_offset = of_nat (fm_offset m), pl_crc = fm_crc m, pl_payload_len = fm_payload_len m\<rparr>)
      vol (rs @ [(t, f, lsn, pl)]) []"
    using sink_inv_append [OF inv step A(1)] A(2,3) off small whole_recs_append rec_frame_at_end [of c SEG_HEADER_SIZE rs "(t, f, lsn, pl)"]
    by (auto simp: grown_def new_recs_def synced_recs_def placed_def put_writer_def in_log_def intro: frames_of_mono)
  then show "\<exists>vol' rs' pad. grown c s vol rs (put_writer s w) (t, f, lsn, pl)
      (Inr \<lparr>pl_seg_id = writer_id w, pl_offset = of_nat (fm_offset m), pl_crc = fm_crc m, pl_payload_len = fm_payload_len m\<rparr>)
      vol' rs' pad" by blast
qed

lemma grows_err:
  assumes step: "SegWriter_append c (sk_writer s) t f lsn pl = (w, Inl e)"
  shows "sink_grows c s (put_writer s w) (t, f, lsn, pl) (Inl x)"
  unfolding sink_grows_def
proof (intro allI impI)
  fix vol rs assume inv: "sink_inv c s vol rs"
  then have W: "writer_inv c (sk_writer s) rs" by (simp add: sink_inv_def)
  obtain pad where pad: "writer_inv c w (rs @ pad)" "\<forall>r\<in>set pad. fst r = Pad \<and> rec_lsn r = lsn"
    using append_err_inv [OF W step] W by (auto simp: rec_lsn_def intro: that [of "[]"])
  have "grown c s vol rs (put_writer s w) (t, f, lsn, pl) (Inl x) vol (rs @ pad) pad"
    using sink_inv_append [OF inv step pad(1)] pad(2) append_header [OF step] whole_recs_append
    by (auto simp: grown_def new_recs_def synced_recs_def placed_def put_writer_def in_log_def rec_lsn_def intro: frames_of_mono)
  then show "\<exists>vol' rs' pad. grown c s vol rs (put_writer s w) (t, f, lsn, pl) (Inl x) vol' rs' pad" by blast
qed

lemma grows_roll:
  assumes roll: "sink_roll c clk s lsn = (s', res)" and "rec_lsn r = lsn"
  shows "sink_grows c s s' r (Inl x)"
  unfolding sink_grows_def
proof (intro allI impI)
  fix vol rs assume inv: "sink_inv c s vol rs"
  have all: "whole_recs (sw_write_pos (sk_writer s) - SEG_HEADER_SIZE) rs = length rs"
    using inv by (intro whole_recs_all) (simp add: sink_inv_def writer_inv_def)
  have le: "whole_recs (sk_synced s - SEG_HEADER_SIZE) rs \<le> length rs" by (rule whole_recs_le)
  have "grown c s vol rs s' r (Inl x) vol rs [] \<or> (\<exists>h z. grown c s vol rs s' r (Inl x) (vol @ [(h, rs, z)]) [] [])"
    using sink_roll_inv [OF inv roll]
  proof (elim disjE exE conjE)
    fix e assume "sink_inv c s' vol rs" "sk_synced s' = sw_write_pos (sk_writer s)"
    moreover assume "writer_id (sk_writer s') = writer_id (sk_writer s)"
    ultimately show ?thesis
      using le by (simp add: grown_def new_recs_def synced_recs_def placed_def all)
  next
    fix h z assume s': "sink_inv c s' (vol @ [(h, rs, z)]) []" and "sh_seg_id h = writer_id (sk_writer s)"
    then have "grown c s vol rs s' r (Inl x) (vol @ [(h, rs, z)]) [] []"
      using le by (auto simp: grown_def new_recs_def synced_recs_def placed_def in_log_def seg_ids_def)
    then show ?thesis by blast
  qed
  then show "\<exists>vol' rs' pad. grown c s vol rs s' r (Inl x) vol' rs' pad" by blast
qed

lemma sink_append_grows:
  assumes "sink_append c clk s lsn t f pl = Some y"
  shows "sink_grows c s (fst y) (t, f, lsn, pl) (snd y)"
proof (rule sink_append.raw_induct [OF _ assms])
  fix app c clk s lsn t f pl y
  assume IH: "\<And>c clk s lsn t f pl y. app c clk s lsn t f pl = Some y \<Longrightarrow> sink_grows c s (fst y) (t, f, lsn, pl) (snd y)"
    and body: "(case SegWriter_append c (sk_writer s) t f lsn pl of
        (w, Inl e) \<Rightarrow>
          (let s1 = put_writer s w in
           case e of
             SegmentFull need got \<Rightarrow>
               if sw_write_pos w = SEG_HEADER_SIZE then Some (s1, Inl ''record exceeds segment capacity'')
               else
                 (case sink_roll c clk s1 lsn of
                    (s2, Inl x) \<Rightarrow> Some (s2, Inl ''roll failed'')
                  | (s2, Inr x) \<Rightarrow> app c clk s2 lsn t f pl)
           | _ \<Rightarrow> Some (s1, Inl ''append failed''))
      | (w, Inr meta) \<Rightarrow>
          Some (put_writer s w, Inr \<lparr>pl_seg_id = writer_id w, pl_offset = of_nat (fm_offset meta),
                                     pl_crc = fm_crc meta, pl_payload_len = fm_payload_len meta\<rparr>)) = Some y"
  obtain w res where step: "SegWriter_append c (sk_writer s) t f lsn pl = (w, res)" by fastforce
  show "sink_grows c s (fst y) (t, f, lsn, pl) (snd y)"
  proof (cases res)
    case (Inr m)
    with body step grows_ok [OF step [unfolded Inr]] show ?thesis by auto
  next
    case (Inl e)
    note err = grows_err [OF step [unfolded Inl]]
    show ?thesis
    proof (cases "(\<exists>a b. e = SegmentFull a b) \<and> sw_write_pos w \<noteq> SEG_HEADER_SIZE")
      case False
      with body step Inl err show ?thesis by (auto simp: Let_def split: SegmentError.splits if_splits)
    next
      case True
      obtain s2 r2 where roll: "sink_roll c clk (put_writer s w) lsn = (s2, r2)" by fastforce
      have g2: "sink_grows c s s2 (t, f, lsn, pl) (Inl x)" for x
        using grows_trans [OF err grows_roll [OF roll]] by (simp add: rec_lsn_def)
      show ?thesis
      proof (cases r2)
        case (Inl x)
        then have "y = (s2, Inl ''roll failed'')" using body step True roll \<open>res = Inl e\<close> by (auto simp: Let_def)
        with g2 show ?thesis by simp
      next
        case (Inr x)
        then have "app c clk s2 lsn t f pl = Some y" using body step True roll \<open>res = Inl e\<close> by (auto simp: Let_def)
        from grows_trans [OF g2 IH [OF this]] show ?thesis .
      qed
    qed
  qed
qed

lemma sink_repI:
  "sink_inv c s vol rs \<Longrightarrow> log = vol_log vol @ rs \<Longrightarrow> sink_rep c s log (synced_recs s vol rs)"
  by (auto simp: sink_rep_def synced_recs_def)

lemma grows_rep:
  assumes "sink_grows c s s' r res" and "sink_rep c s log n"
  shows "\<exists>pad m. sink_rep c s' (log @ pad @ new_recs r res) m \<and> n \<le> m \<and> (\<forall>x\<in>set pad. rec_lsn x = rec_lsn r)"
proof -
  obtain vol rs where inv: "sink_inv c s vol rs" and log: "log = vol_log vol @ rs" "n = synced_recs s vol rs"
    using assms(2) by (auto simp: sink_rep_def synced_recs_def)
  obtain vol' rs' pad where g: "grown c s vol rs s' r res vol' rs' pad" by (rule sink_growsD [OF assms(1) inv])
  then have "sink_rep c s' (log @ pad @ new_recs r res) (synced_recs s' vol' rs')"
    by (intro sink_repI) (auto simp: grown_def log)
  with g show ?thesis by (auto simp: grown_def log)
qed

lemma sync_rep:
  assumes "sink_rep c s log n" and "sink_sync s = (s', Inr u)"
  shows "sink_rep c s' log (length log)"
proof -
  obtain vol rs where inv: "sink_inv c s vol rs" and log: "log = vol_log vol @ rs"
    using assms(1) by (auto simp: sink_rep_def)
  have s': "s' = s\<lparr>sk_synced := sw_write_pos (sk_writer s)\<rparr>" using assms(2) by (simp add: sink_sync_def)
  have W: "sw_write_pos (sk_writer s) = SEG_HEADER_SIZE + log_size rs" using inv by (simp add: sink_inv_def writer_inv_def)
  have "sink_inv c s' vol rs" using inv W by (simp add: s' sink_inv_def)
  from sink_repI [OF this log] show ?thesis by (simp add: s' W log whole_recs_all synced_recs_def)
qed

interpretation seg_sink: commit_sink "sink_append c clk" sink_sync "sink_rep c" for c clk
proof unfold_locales
  fix s log n lsn t f pl s' and p :: Placement
  assume "sink_rep c s log n" "sink_append c clk s lsn t f pl = Some (s', Inr p)"
  then show "\<exists>pad m. sink_rep c s' (log @ pad @ [(t, f, lsn, pl)]) m \<and> n \<le> m \<and> (\<forall>r\<in>set pad. rec_lsn r = lsn)"
    using grows_rep [OF sink_append_grows] by (fastforce simp: new_recs_def rec_lsn_def)
next
  fix s log n lsn t f pl s' e
  assume "sink_rep c s log n" "sink_append c clk s lsn t f pl = Some (s', Inl e)"
  then show "\<exists>pad m. sink_rep c s' (log @ pad) m \<and> n \<le> m \<and> (\<forall>r\<in>set pad. rec_lsn r = lsn)"
    using grows_rep [OF sink_append_grows] by (fastforce simp: new_recs_def rec_lsn_def)
next
  fix s log n s' u
  assume "sink_rep c s log n" "sink_sync s = (s', Inr u)"
  then show "sink_rep c s' log (length log)"
    by (auto dest: sync_rep)
next
  fix s log n s' e
  assume "sink_rep c s log n" "sink_sync s = (s', Inl e)"
  then show "\<exists>m. sink_rep c s' log m \<and> n \<le> m" by (simp add: sink_sync_def)
qed

section \<open>What a crash keeps\<close>

lemma whole_recs_mono: "n \<le> m \<Longrightarrow> whole_recs n rs \<le> whole_recs m rs"
proof (induction rs arbitrary: n m)
  case (Cons r rs)
  then show ?case using Cons.IH [of "n - rec_size r" "m - rec_size r"] by auto
qed simp

lemma rec_frame_mem: "r \<in> set rs \<Longrightarrow> \<exists>pos. rec_frame c pos r \<in> set (frames_of c p rs)"
  by (induction rs arbitrary: p) auto

lemma crash_keeps:
  assumes inv: "sink_inv c s vol rs" and r: "r \<in> set (vol_log vol @ take (whole_recs (sk_synced s - SEG_HEADER_SIZE) rs) rs)"
    and m: "sk_synced s \<le> m"
    and dir: "dir = hm_insert (seg_file_name (writer_id (sk_writer s))) (take m (sw_file (sk_writer s))) (sk_dir s)"
  shows "\<exists>sid fs e pos. scans c dir sid fs e \<and> rec_frame c pos r \<in> set fs"
proof (cases "r \<in> set (vol_log vol)")
  case True
  then obtain h rs0 z where sg: "(h, rs0, z) \<in> set vol" "r \<in> set rs0" by (auto simp: vol_log_def)
  then have "on_disk c (sk_dir s) (h, rs0, z)" "sh_seg_id h \<noteq> writer_id (sk_writer s)"
    using inv by (auto simp: sink_inv_def seg_ids_def image_iff)
  then have "scans c dir (sh_seg_id h) (frames_of c SEG_HEADER_SIZE rs0) None"
    by (intro scans_image) (auto simp: on_disk_def dir)
  with rec_frame_mem [OF sg(2)] show ?thesis by blast
next
  case False
  obtain k where img: "sw_file (sk_writer s) = segment_image c (sw_header (sk_writer s)) rs k" and ok: "\<forall>r\<in>set rs. rec_ok r"
    using inv by (auto simp: sink_inv_def writer_inv_def)
  have m0: "SEG_HEADER_SIZE \<le> m" using inv m by (simp add: sink_inv_def)
  obtain e where sc: "scans c dir (writer_id (sk_writer s))
      (frames_of c SEG_HEADER_SIZE (take (whole_recs (m - SEG_HEADER_SIZE) rs) rs)) e"
    by (rule scans_image_cut [of dir "writer_id (sk_writer s)" m c "sw_header (sk_writer s)" rs k])
      (use m0 ok img in \<open>auto simp: dir\<close>)
  have "whole_recs (sk_synced s - SEG_HEADER_SIZE) rs \<le> whole_recs (m - SEG_HEADER_SIZE) rs"
    using m by (intro whole_recs_mono) simp
  from set_take_subset_set_take [OF this, of rs] have "r \<in> set (take (whole_recs (m - SEG_HEADER_SIZE) rs) rs)"
    using r False by auto
  from rec_frame_mem [OF this] sc show ?thesis by blast
qed

section \<open>Termination of append\<close>

lemma append_fits:
  assumes "writer_inv c w rs" and "\<not> is_sealed (sw_header w)" and "FRAME_HEADER_SIZE + length pl \<le> sw_seg_size w - sw_write_pos w"
  shows "\<exists>w' m. SegWriter_append c w t f l pl = (w', Inr m)"
  using assms sw_remaining_inv [OF assms(1)]
  by (auto simp: SegWriter_append_def Let_def encode_frame_eq)

definition nothing_above :: "SegSink \<Rightarrow> bool" where
  "nothing_above s \<longleftrightarrow> (\<forall>sid. writer_id (sk_writer s) < sid \<longrightarrow> hm_get (sk_dir s) (seg_file_name sid) = None)"

lemma next_seg_id_sink: "sink_inv c s vol rs \<Longrightarrow> next_seg_id (sk_manifest s) = writer_id (sk_writer s) + 1"
  using next_seg_id_other [OF refl, of "sk_manifest s"] by (auto simp: sink_inv_def)

lemma sink_roll_fresh:
  assumes inv: "sink_inv c s vol rs" and above: "nothing_above s" and room: "writer_id (sk_writer s) < - 1"
  shows "\<exists>s' h z. sink_roll c clk s lsn = (s', Inr ()) \<and> sink_inv c s' (vol @ [(h, rs, z)]) [] \<and>
    nothing_above s' \<and> writer_id (sk_writer s') = writer_id (sk_writer s) + 1 \<and> sk_seg_size s' = sk_seg_size s \<and>
    \<not> is_sealed (sw_header (sk_writer s')) \<and> length (mf_entries (sk_manifest s')) = Suc (length (mf_entries (sk_manifest s)))"
proof -
  let ?id = "writer_id (sk_writer s)"
  have less: "?id < ?id + 1" using room by (rule less_plus_one_u64)
  have up: "?id < sid" if "?id + 1 < sid" for sid using less that by (rule less_trans)
  obtain s' res where roll: "sink_roll c clk s lsn = (s', res)" by fastforce
  have sz: "\<not> sk_seg_size s < SEG_HEADER_SIZE + FRAME_HEADER_SIZE" using inv by (simp add: sink_inv_def)
  have *: "res = Inr () \<and> writer_id (sk_writer s') = ?id + 1 \<and> nothing_above s' \<and>
      length (mf_entries (sk_manifest s')) = Suc (length (mf_entries (sk_manifest s)))"
    using roll above less up sz next_seg_id_sink [OF inv] arg_cong [OF register_ids, of length]
    by (auto simp: sink_roll_def put_writer_def SegWriter_create_def nothing_above_def Let_def split: if_splits)
  then show ?thesis
    using sink_roll_inv [OF inv roll] roll by auto
qed

text \<open>A record that fits an empty segment is appended after at most one roll.\<close>

definition goes_on :: "SegSink \<Rightarrow> SegSink \<Rightarrow> bool" where
  "goes_on s s' \<longleftrightarrow>
     nothing_above s' \<and> \<not> is_sealed (sw_header (sk_writer s')) \<and> sk_seg_size s' = sk_seg_size s \<and>
     writer_id (sk_writer s') \<in> {writer_id (sk_writer s), writer_id (sk_writer s) + 1}"

lemma goes_on_put:
  "nothing_above s \<Longrightarrow> \<not> is_sealed (sw_header (sk_writer s)) \<Longrightarrow> sw_header w = sw_header (sk_writer s) \<Longrightarrow> goes_on s (put_writer s w)"
  by (auto simp: goes_on_def nothing_above_def put_writer_def)

text \<open>How often it rolls, and where the record goes: to the active segment when it fits there, otherwise to the start
  of the next one.\<close>

definition rolls_once :: "SegSink \<Rightarrow> nat \<Rightarrow> SegSink \<Rightarrow> Placement \<Rightarrow> bool" where
  "rolls_once s len s' p \<longleftrightarrow>
     (if FRAME_HEADER_SIZE + len \<le> sk_seg_size s - sw_write_pos (sk_writer s)
      then pl_seg_id p = writer_id (sk_writer s) \<and> pl_offset p = of_nat (sw_write_pos (sk_writer s)) \<and>
        sk_manifest s' = sk_manifest s
      else pl_seg_id p = writer_id (sk_writer s) + 1 \<and> pl_offset p = of_nat SEG_HEADER_SIZE \<and>
        length (mf_entries (sk_manifest s')) = Suc (length (mf_entries (sk_manifest s))))"

lemma append_offset: "SegWriter_append c w t f l pl = (w', Inr m) \<Longrightarrow> fm_offset m = sw_write_pos w"
  by (auto simp: SegWriter_append_def Let_def split: if_splits prod.splits)

lemma sink_append_placed:
  assumes inv: "sink_inv c s vol rs" and open1: "\<not> is_sealed (sw_header (sk_writer s))"
    and fits: "SEG_HEADER_SIZE + FRAME_HEADER_SIZE + length pl \<le> sk_seg_size s"
    and above: "nothing_above s" and room: "writer_id (sk_writer s) < - 1"
  shows "\<exists>s' p. sink_append c clk s lsn t f pl = Some (s', Inr p) \<and> goes_on s s' \<and> rolls_once s (length pl) s' p"
proof -
  obtain w res where step: "SegWriter_append c (sk_writer s) t f lsn pl = (w, res)" by fastforce
  have W: "writer_inv c (sk_writer s) rs" and ssz: "sw_seg_size (sk_writer s) = sk_seg_size s"
    using inv by (simp_all add: sink_inv_def)
  have hdr: "sw_header w = sw_header (sk_writer s)" by (rule append_header [OF step])
  have res: "(\<exists>m. res = Inr m) \<longleftrightarrow> FRAME_HEADER_SIZE + length pl \<le> sk_seg_size s - sw_write_pos (sk_writer s)"
    using step open1 sw_remaining_inv [OF W] ssz
    by (auto simp: SegWriter_append_def Let_def encode_frame_eq split: if_splits prod.splits)
  show ?thesis
  proof (cases res)
    case (Inr m)
    with step goes_on_put [OF above open1 hdr] res append_offset [of c "sk_writer s" t f lsn pl w m] hdr show ?thesis
      by (subst sink_append.simps) (simp add: rolls_once_def put_writer_def)
  next
    case (Inl e)
    from append_err_inv [OF W step [unfolded Inl]] open1
    obtain pad where e: "e = SegmentFull (FRAME_HEADER_SIZE + length pl) (sw_remaining (sk_writer s))"
        and pad: "writer_inv c w (rs @ pad)" "sw_remaining w < FRAME_HEADER_SIZE"
      using step Inl by (auto simp: SegWriter_append_def Let_def split: if_splits prod.splits)
    have sz: "sw_seg_size w = sk_seg_size s" using inv append_seg_size [OF step] by (simp add: sink_inv_def)
    have full: "sw_write_pos w \<noteq> SEG_HEADER_SIZE"
      using pad(2) sw_remaining_inv [OF pad(1)] fits sz by auto
    have put: "sink_inv c (put_writer s w) vol (rs @ pad)" by (rule sink_inv_append [OF inv step pad(1)])
    have "nothing_above (put_writer s w)" using above hdr by (auto simp: nothing_above_def put_writer_def)
    then obtain s2 h z where roll: "sink_roll c clk (put_writer s w) lsn = (s2, Inr ())"
        and s2: "sink_inv c s2 (vol @ [(h, rs @ pad, z)]) []" "nothing_above s2" "sk_seg_size s2 = sk_seg_size s"
          "\<not> is_sealed (sw_header (sk_writer s2))" "writer_id (sk_writer s2) = writer_id (sk_writer s) + 1"
          "length (mf_entries (sk_manifest s2)) = Suc (length (mf_entries (sk_manifest s)))"
      using sink_roll_fresh [OF put, of clk lsn] room hdr by (auto simp: put_writer_def)
    have pos: "sw_write_pos (sk_writer s2) = SEG_HEADER_SIZE" using s2(1) by (simp add: sink_inv_def writer_inv_def)
    then have "\<exists>w' m. SegWriter_append c (sk_writer s2) t f lsn pl = (w', Inr m)"
      by (intro append_fits [of c _ "[]"]) (use s2 fits in \<open>auto simp: sink_inv_def\<close>)
    then obtain w' m where w': "SegWriter_append c (sk_writer s2) t f lsn pl = (w', Inr m)" by blast
    let ?p = "\<lparr>pl_seg_id = writer_id w', pl_offset = of_nat (fm_offset m), pl_crc = fm_crc m, pl_payload_len = fm_payload_len m\<rparr>"
    have "goes_on s2 (put_writer s2 w')" by (rule goes_on_put [OF s2(2,4) append_header [OF w']])
    then have "goes_on s (put_writer s2 w')" using s2 append_header [OF w'] by (auto simp: goes_on_def put_writer_def)
    moreover have "rolls_once s (length pl) (put_writer s2 w') ?p"
      using res Inl s2 pos append_header [OF w'] append_offset [OF w'] by (simp add: rolls_once_def put_writer_def)
    moreover have "sink_append c clk s2 lsn t f pl = Some (put_writer s2 w', Inr ?p)"
      using w' by (subst sink_append.simps) simp
    ultimately show ?thesis
      using step Inl e full roll by (subst sink_append.simps) (simp add: Let_def)
  qed
qed

lemma sink_append_fits:
  assumes "sink_inv c s vol rs" and "\<not> is_sealed (sw_header (sk_writer s))"
    and "SEG_HEADER_SIZE + FRAME_HEADER_SIZE + length pl \<le> sk_seg_size s"
    and "nothing_above s" and "writer_id (sk_writer s) < - 1"
  shows "\<exists>s' p. sink_append c clk s lsn t f pl = Some (s', Inr p) \<and> goes_on s s'"
  using sink_append_placed [OF assms] by blast

lemma oversized_step:
  assumes inv: "sink_inv c s vol rs" and open1: "\<not> is_sealed (sw_header (sk_writer s))"
    and big: "sk_seg_size s < SEG_HEADER_SIZE + FRAME_HEADER_SIZE + length pl"
    and above: "nothing_above s" and room: "writer_id (sk_writer s) < - 1"
  shows "\<exists>s' vol'. sink_append c clk s lsn t f pl = sink_append c clk s' lsn t f pl \<and> sink_inv c s' vol' [] \<and>
    nothing_above s' \<and> writer_id (sk_writer s') = writer_id (sk_writer s) + 1 \<and> sk_seg_size s' = sk_seg_size s \<and>
    \<not> is_sealed (sw_header (sk_writer s')) \<and> length (mf_entries (sk_manifest s')) = Suc (length (mf_entries (sk_manifest s)))"
proof -
  have W: "writer_inv c (sk_writer s) rs" and sz: "sw_seg_size (sk_writer s) = sk_seg_size s"
    using inv by (simp_all add: sink_inv_def)
  obtain w res where step: "SegWriter_append c (sk_writer s) t f lsn pl = (w, res)" by fastforce
  have "sw_remaining (sk_writer s) < FRAME_HEADER_SIZE + length pl"
    using W big sz sw_remaining_inv [OF W] by (auto simp: writer_inv_def)
  then have res: "res = Inl (SegmentFull (FRAME_HEADER_SIZE + length pl) (sw_remaining (sk_writer s)))"
    using step open1 by (auto simp: SegWriter_append_def Let_def split: if_splits prod.splits)
  then obtain pad where pad: "writer_inv c w (rs @ pad)" "sw_remaining w < FRAME_HEADER_SIZE"
    using append_err_inv [OF W step [unfolded res]] by auto
  have "sw_seg_size w = sk_seg_size s" using sz append_seg_size [OF step] by simp
  then have full: "sw_write_pos w \<noteq> SEG_HEADER_SIZE"
    using pad(2) sw_remaining_inv [OF pad(1)] inv by (auto simp: sink_inv_def)
  have put: "sink_inv c (put_writer s w) vol (rs @ pad)" by (rule sink_inv_append [OF inv step pad(1)])
  have hdr: "sw_header w = sw_header (sk_writer s)" by (rule append_header [OF step])
  have "nothing_above (put_writer s w)" using above hdr by (auto simp: nothing_above_def put_writer_def)
  then obtain s2 h z where s2: "sink_roll c clk (put_writer s w) lsn = (s2, Inr ())"
      "sink_inv c s2 (vol @ [(h, rs @ pad, z)]) []" "nothing_above s2"
      "writer_id (sk_writer s2) = writer_id (sk_writer s) + 1" "sk_seg_size s2 = sk_seg_size s"
      "\<not> is_sealed (sw_header (sk_writer s2))"
      "length (mf_entries (sk_manifest s2)) = Suc (length (mf_entries (sk_manifest s)))"
    using sink_roll_fresh [OF put, of clk lsn] room hdr by (auto simp: put_writer_def)
  moreover have "sink_append c clk s lsn t f pl = sink_append c clk s2 lsn t f pl"
    using step res full s2(1) by (subst sink_append.simps) (simp add: Let_def)
  ultimately show ?thesis by blast
qed

section \<open>Properties\<close>

text \<open>C1: A strict write survives a crash. Over any interleaving of writers, barriers and the sync worker, starting
  from a sink whose log is durable: when an enqueue returns a receipt marked durable, then after a crash that
  keeps at least the synced part of the active segment's file, scanning the segment files as recovery does
  delivers that record's frame.\<close>

theorem strict_ack_survives_crash:
  assumes start: "sink_rep c sink log0 (length log0)" "CommitQueue_new config next_lsn = Some core" "next_lsn \<noteq> 0"
    and cfg: "unat (cc_max_dirty_bytes config) + 2 ^ 33 < 2 ^ 64"
    and run: "qreach (sink_append c clk) sink_sync (q_start core sink) k s" "unat next_lsn + k < 2 ^ 64 - 1"
    and ack: "qstep (sink_append c clk) sink_sync s (EvEnqueued req (Inr rc)) s'" "rc_durable rc"
    and crash: "sk_synced (q_sink s') \<le> m"
      "dir = hm_insert (seg_file_name (writer_id (sk_writer (q_sink s'))))
        (take m (sw_file (sk_writer (q_sink s')))) (sk_dir (q_sink s'))"
  shows "\<exists>sid fs e pos. scans c dir sid fs e \<and>
    rec_frame c pos (rq_rtype req, rq_flags req, rc_lsn rc, rq_payload req) \<in> set fs"
proof -
  have "cq_next_lsn core = next_lsn" using start(2) by (auto simp: CommitQueue_new_def split: if_splits)
  then obtain log n where ok: "seg_sink.sys_ok c s log n"
    using seg_sink.sys_ok_reach [OF run(1) seg_sink.start_ok [OF start cfg]] run(2) by (auto simp: q_start_def)
  note D = seg_sink.durable_ack [OF ok ack]
  have "sink_rep c (q_sink s') log n"
    using ok D seg_sink.sys_ok_def [of c s log n] by simp
  then obtain vol rs where inv: "sink_inv c (q_sink s') vol rs" and log: "log = vol_log vol @ rs"
      and n: "n = length (vol_log vol) + whole_recs (sk_synced (q_sink s') - SEG_HEADER_SIZE) rs"
    by (auto simp: sink_rep_def)
  have "record_of req (rc_lsn rc) \<in> set (vol_log vol @ take (whole_recs (sk_synced (q_sink s') - SEG_HEADER_SIZE) rs) rs)"
    using conjunct1 [OF D] by (simp add: log n)
  from crash_keeps [OF inv this crash] show ?thesis by (simp add: record_of_def)
qed

definition demo_writer :: SegWriter where
  "demo_writer = (case SegWriter_create sum_crc 0 False 1 2 1 400 False of Inr w \<Rightarrow> w)"

definition demo_sink :: SegSink where
  "demo_sink = SegSink_new demo_writer
     \<lparr>mf_seg_size = 400, mf_entries = [\<lparr>sg_seg_id = 1, sg_state = StActive, sg_base_lsn = 1, sg_volume_id = 2\<rparr>]\<rparr>
     [(seg_file_name 1, sw_file demo_writer)] (sw_write_pos demo_writer) 400 False"

lemma demo_writer_create: "SegWriter_create sum_crc 0 False 1 2 1 400 False = Inr demo_writer"
  by (simp add: demo_writer_def SegWriter_create_def Let_def)

lemma demo_sink_inv: "sink_inv sum_crc demo_sink [] []" "nothing_above demo_sink" "\<not> is_sealed (sw_header demo_writer)"
proof -
  have w: "writer_inv sum_crc demo_writer []" by (rule create_inv [OF demo_writer_create]) simp
  note sel = create_sel [OF demo_writer_create]
  show "sink_inv sum_crc demo_sink [] []"
    using w sel by (simp add: demo_sink_def SegSink_new_def sink_inv_def seg_ids_def)
  show "nothing_above demo_sink"
    using sel by (auto simp: demo_sink_def SegSink_new_def nothing_above_def)
  show "\<not> is_sealed (sw_header demo_writer)"
    by (simp add: demo_writer_def SegWriter_create_def Let_def is_sealed_def)
qed

text \<open>One strict write, driven by the worker to its acknowledgement.\<close>

lemma strict_run:
  assumes "sink_inv c sink vol rs" and "\<not> is_sealed (sw_header (sk_writer sink))"
    and "SEG_HEADER_SIZE + FRAME_HEADER_SIZE + 10 \<le> sk_seg_size sink" and "nothing_above sink"
    and "writer_id (sk_writer sink) < - 1"
  shows "\<exists>s p s'. qreach (sink_append c clk) sink_sync (q_start demo_core sink) 4 s \<and>
    qstep (sink_append c clk) sink_sync s
      (EvEnqueued (demo_req Strict) (Inr \<lparr>rc_lsn = 1, rc_durable = True, rc_placement = p\<rparr>)) s'"
proof -
  let ?app = "sink_append c clk" and ?req = "demo_req Strict"
  obtain sink1 p where "?app sink 1 Data 0 (replicate 10 0) = Some (sink1, Inr p)"
    using sink_append_fits [OF assms(1,2) _ assms(4,5), of "replicate 10 0" clk 1 Data 0] assms(3) by auto
  then obtain core1 where enq: "enqueue ?app 0 demo_core sink ?req = Some (core1, sink1, EnqWait 1 p)"
      and core1: "cq_flushed_lsn core1 = 1" "cq_kick core1" "cq_error core1 = None" "\<not> cq_shutting_down core1"
        "cq_durable_lsn core1 = 0"
    by (simp add: enqueue_def enqueue_retry_def enqueue_append_def demo_req_def demo_core_eq demo_config_def
        record_bytes_def need_durable_def Let_def)
  define st where "st = (\<lambda>core (k :: SegSink) w ready waiting.
    \<lparr>q_core = core, q_sink = k, q_worker = w, q_ready = ready, q_waiting = waiting\<rparr>)"
  let ?c = "{#Awaiting ?req 1 p#}" and ?sink2 = "fst (sink_sync sink1)"
  let ?core1 = "core1\<lparr>cq_notified := []\<rparr>" and ?core2 = "core1\<lparr>cq_notified := [], cq_kick := False\<rparr>"
  let ?core3 = "(sync_done 1 ?core2)\<lparr>cq_notified := []\<rparr>"
  have "enqueue_poll core1 1 p = None" using core1 by (simp add: enqueue_poll_def)
  then have settled: "settle ?req (core1, sink1, EnqWait 1 p) (q_start demo_core sink) = (EvNone, st ?core1 sink1 WRunning {#} ?c)"
    by (simp add: settle_def release_def fall_asleep_def q_start_def st_def)
  have steps: "qstep ?app sink_sync (q_start demo_core sink) EvNone (st ?core1 sink1 WRunning {#} ?c)"
    "qstep ?app sink_sync (st ?core1 sink1 WRunning {#} ?c) EvWorker (st ?core2 sink1 (WSyncing 1 False) {#} ?c)"
    "qstep ?app sink_sync (st ?core2 sink1 (WSyncing 1 False) {#} ?c) EvWorker (st ?core2 ?sink2 (WSynced 1 False) {#} ?c)"
    "qstep ?app sink_sync (st ?core2 ?sink2 (WSynced 1 False) {#} ?c) EvWorker (st ?core3 ?sink2 WRunning ?c {#})"
    subgoal using q_call [of ?app 0 "q_start demo_core sink" ?req, OF _ settled] enq by (simp add: q_start_def)
    subgoal using q_work [of "st ?core1 sink1 WRunning {#} ?c" 0 False ?app sink_sync] core1
      by (simp add: st_def worker_decide_def)
    subgoal using q_sync_ok [of "st ?core2 sink1 (WSyncing 1 False) {#} ?c" 1 False sink_sync ?sink2 "()" ?app]
      by (simp add: st_def sink_sync_def)
    subgoal using q_finish [of "st ?core2 ?sink2 (WSynced 1 False) {#} ?c" 1 False ?app sink_sync]
      by (simp add: st_def release_def sync_done_notifies)
    done
  have "qreach ?app sink_sync (q_start demo_core sink) 4 (st ?core3 ?sink2 WRunning ?c {#})"
    using reach_step [OF reach_step [OF reach_step [OF reach_step [OF reach_init steps(1)] steps(2)] steps(3)] steps(4)]
    by (simp add: numeral_eq_Suc)
  moreover have "enqueue_poll ?core3 1 p = Some (Inr \<lparr>rc_lsn = 1, rc_durable = True, rc_placement = p\<rparr>)"
    using core1 by (simp add: enqueue_poll_def)
  ultimately show ?thesis
    using q_ack [of ?req 1 p "st ?core3 ?sink2 WRunning ?c {#}" _ ?app sink_sync] by (fastforce simp: st_def)
qed

theorem strict_ack_survives_crash_witness:
  "\<exists>s' :: SegSink QSys. \<forall>m \<ge> sk_synced (q_sink s'). \<exists>sid fs e pos.
     scans sum_crc (hm_insert (seg_file_name (writer_id (sk_writer (q_sink s'))))
        (take m (sw_file (sk_writer (q_sink s')))) (sk_dir (q_sink s'))) sid fs e \<and>
     rec_frame sum_crc pos (Data, 0, 1, replicate 10 0) \<in> set fs"
proof -
  have sel: "sk_writer demo_sink = demo_writer" "sk_seg_size demo_sink = 400" by (simp_all add: demo_sink_def SegSink_new_def)
  obtain s p s' where run: "qreach (sink_append sum_crc (\<lambda>_. 0)) sink_sync (q_start demo_core demo_sink) 4 s"
      and ack: "qstep (sink_append sum_crc (\<lambda>_. 0)) sink_sync s
        (EvEnqueued (demo_req Strict) (Inr \<lparr>rc_lsn = 1, rc_durable = True, rc_placement = p\<rparr>)) s'"
    using strict_run [OF demo_sink_inv(1), of "\<lambda>_. 0"] demo_sink_inv create_sel [OF demo_writer_create] less_max_u64 [of 1]
    by (auto simp: sel)
  have rep: "sink_rep sum_crc demo_sink [] (length [])"
    using sink_repI [OF demo_sink_inv(1), of "[]"] by (simp add: vol_log_def synced_recs_def)
  have "\<exists>sid fs e pos.
     scans sum_crc (hm_insert (seg_file_name (writer_id (sk_writer (q_sink s'))))
        (take m (sw_file (sk_writer (q_sink s')))) (sk_dir (q_sink s'))) sid fs e \<and>
     rec_frame sum_crc pos (Data, 0, 1, replicate 10 0) \<in> set fs" if "sk_synced (q_sink s') \<le> m" for m
    using strict_ack_survives_crash [OF rep demo_core_new _ _ run _ ack _ that refl]
    by (simp add: demo_config_def demo_req_def)
  then show ?thesis by blast
qed

text \<open>C29: Appending a record that fits an empty segment always returns. When it fits what is left of the active segment
  it is placed there, at the write position, and no segment is created; otherwise exactly one segment is created and
  the record is the first one in it.\<close>

theorem sink_append_returns:
  assumes "sink_inv c s vol rs" and "\<not> is_sealed (sw_header (sk_writer s))"
    and "SEG_HEADER_SIZE + FRAME_HEADER_SIZE + length pl \<le> sk_seg_size s"
    and "nothing_above s" and "writer_id (sk_writer s) < - 1"
  shows "\<exists>s' p. sink_append c clk s lsn t f pl = Some (s', Inr p) \<and>
    (if FRAME_HEADER_SIZE + length pl \<le> sk_seg_size s - sw_write_pos (sk_writer s)
     then pl_seg_id p = writer_id (sk_writer s) \<and> pl_offset p = of_nat (sw_write_pos (sk_writer s)) \<and>
       sk_manifest s' = sk_manifest s
     else pl_seg_id p = writer_id (sk_writer s) + 1 \<and> pl_offset p = of_nat SEG_HEADER_SIZE \<and>
       length (mf_entries (sk_manifest s')) = Suc (length (mf_entries (sk_manifest s))))"
  using sink_append_placed [OF assms, of clk lsn t f] unfolding rolls_once_def by blast

theorem sink_append_returns_witness:
  "\<exists>s' p. sink_append sum_crc (\<lambda>_. 0) demo_sink 1 Data 0 (replicate 100 0) = Some (s', Inr p) \<and>
     pl_seg_id p = 1 \<and> pl_offset p = 68 \<and> sk_manifest s' = sk_manifest demo_sink"
proof -
  have "sk_writer demo_sink = demo_writer" "sk_seg_size demo_sink = 400" by (simp_all add: demo_sink_def SegSink_new_def)
  with demo_sink_inv create_sel [OF demo_writer_create] show ?thesis
    using sink_append_returns [OF demo_sink_inv(1), of "replicate 100 0"] less_max_u64 [of 1] by simp
qed

text \<open>C36: Appending a record that fits no segment does not fail, it rolls on and on. The check for a fresh segment is
  made after the failed append has already padded that segment to its end, so it never holds: after any number of
  rounds the call is still running and has created that many segment files.\<close>

theorem oversized_append_keeps_rolling:
  assumes "sink_inv c s vol rs" and "\<not> is_sealed (sw_header (sk_writer s))"
    and "sk_seg_size s < SEG_HEADER_SIZE + FRAME_HEADER_SIZE + length pl"
    and "nothing_above s" and "unat (writer_id (sk_writer s)) + n < 2 ^ 64"
  shows "\<exists>s'. sink_append c clk s lsn t f pl = sink_append c clk s' lsn t f pl \<and>
    length (mf_entries (sk_manifest s')) = length (mf_entries (sk_manifest s)) + n"
  using assms
proof (induction n arbitrary: s vol rs)
  case (Suc n)
  have room: "writer_id (sk_writer s) < - 1" using Suc.prems(5) by (simp add: less_max_u64)
  obtain s1 vol1 where s1: "sink_append c clk s lsn t f pl = sink_append c clk s1 lsn t f pl" "sink_inv c s1 vol1 []"
      "nothing_above s1" "writer_id (sk_writer s1) = writer_id (sk_writer s) + 1" "sk_seg_size s1 = sk_seg_size s"
      "\<not> is_sealed (sw_header (sk_writer s1))"
      "length (mf_entries (sk_manifest s1)) = Suc (length (mf_entries (sk_manifest s)))"
    using oversized_step [OF Suc.prems(1-4) room] by blast
  have "unat (writer_id (sk_writer s1)) = unat (writer_id (sk_writer s)) + 1"
    using Suc.prems(5) unat_add_u64 [of "writer_id (sk_writer s)" 1] by (simp add: s1(4))
  with Suc.IH [OF s1(2,6) _ s1(3)] Suc.prems(3,5) s1 show ?case by fastforce
qed auto

theorem oversized_append_keeps_rolling_witness:
  "\<exists>s'. sink_append sum_crc (\<lambda>_. 0) demo_sink 1 Data 0 (replicate 400 0) =
      sink_append sum_crc (\<lambda>_. 0) s' 1 Data 0 (replicate 400 0) \<and> length (mf_entries (sk_manifest s')) = 1001"
proof -
  have "sk_writer demo_sink = demo_writer" "sk_seg_size demo_sink = 400" "length (mf_entries (sk_manifest demo_sink)) = 1"
    by (simp_all add: demo_sink_def SegSink_new_def)
  with demo_sink_inv create_sel [OF demo_writer_create] show ?thesis
    using oversized_append_keeps_rolling [OF demo_sink_inv(1), of "replicate 400 0" 1000] by simp
qed

end
