(* ===== verification/Wal_Engine.thy ===== *)
theory Wal_Engine
  imports Wal_Checkpoint Wal_Superblock Wal_Sink
begin

text \<open>
  The volume engine (\<^verbatim>\<open>powerfs-core/src/wal/engine.rs\<close>): it puts the segment sink, group commit, the index,
  checkpoints and the superblock together into one volume with write, delete, read, resize, checkpoint and open.
  An operation is a function on the engine's state that fails with an \<open>EngineError\<close>; \<^const>\<open>None\<close> stands for a
  call that panics or never returns. There is one caller here, and the queue's worker runs whenever that
  caller waits (\<open>commit_enqueue\<close>, \<open>commit_flush\<close>); other interleavings of the queue are those of \<open>qstep\<close>.
  So nobody sleeps here, and the notifications the queue records have no effect. The
  clocks are read from an \<open>EngineEnv\<close>; its \<open>en_on_disk\<close> says how much of the active segment's file the operating system
  has on disk when the volume is opened (opening does not sync). Failures of file calls are not modelled, and the directory left by a
  failed open is not returned.
\<close>

section \<open>Types\<close>

record EngineEnv =
  en_crc :: "bytes \<Rightarrow> u32"
  en_seg_clk :: "u64 \<Rightarrow> i64"
  en_replay_clk :: "u64 \<Rightarrow> i64"
  en_now :: i64
  en_ms :: u64
  en_mono :: nat
  en_on_disk :: nat

abbreviation VOLUME_STATE_FULL :: byte where "VOLUME_STATE_FULL \<equiv> 1"

definition occupied_bytes :: "IndexStats \<Rightarrow> u64" where
  "occupied_bytes st = used_bytes st + staging_bytes st + pinned_bytes st"

text \<open>\<open>gc_exceeds dead live\<close> is the floating-point test \<^verbatim>\<open>dead as f64 / live as f64 > ratio\<close>.\<close>

record GcConfig =
  gc_interval :: "nat option"
  gc_exceeds :: "u64 \<Rightarrow> u64 \<Rightarrow> bool"
  gc_min_bytes :: u64
  gc_max_bytes_per_sec :: u64

record WalEngineConfig =
  we_seg_size :: u64
  we_volume_id :: u64
  we_preallocate :: bool
  we_recovery_mode :: RecoveryMode
  we_verify_on_read :: bool
  we_commit :: CommitConfig
  we_ckpt_interval :: "nat option"
  we_ckpt_lsn_distance :: u64
  we_ckpt_on_close :: bool
  we_volume_size :: u64
  we_gc :: GcConfig
  we_tombstone_retention_secs :: i64

datatype EngineError =
    EeIo
  | EeSegment SegmentError
  | EeReplay ReplayError
  | EeIndex IndexError
  | EeCommit CommitError
  | EeCkpt CkptError
  | EeSuperblock SbError
  | EeVolumeIdMismatch u64 u64
  | EeLocked
  | EeNotFound u64
  | EeReadCorrupt u64
  | EeRecordTooLarge nat u64
  | EeResizeTooSmall u64 u64
  | EeVolumeFull u64 u64 u64

record EngineStats =
  es_index :: IndexStats
  es_volume_size :: u64
  es_free_bytes :: u64
  es_durable_lsn :: u64
  es_flushed_lsn :: u64
  es_segments :: nat
  es_commit_records :: u64
  es_commit_syncs :: u64
  es_last_ckpt_lsn :: u64
  es_last_ckpt_seq :: u64

record CkptOutcome =
  co_ckpt_seq :: u64
  co_applied_lsn :: u64

record EngineCore =
  ec_config :: WalEngineConfig
  ec_sink :: SegSink
  ec_commit :: CommitCore
  ec_index :: WalIndex
  ec_next_needle_id :: u64
  ec_next_ckpt_seq :: u64
  ec_sb_seq :: u64
  ec_sb_created_ts :: i64
  ec_last_ckpt_lsn :: u64
  ec_last_ckpt_seq :: u64
  ec_last_ckpt_ms :: u64
  ec_stop :: bool

abbreviation ec_dir :: "EngineCore \<Rightarrow> directory" where "ec_dir e \<equiv> sk_dir (ec_sink e)"

definition put_dir :: "directory \<Rightarrow> EngineCore \<Rightarrow> EngineCore" where
  "put_dir dir e = e\<lparr>ec_sink := (ec_sink e)\<lparr>sk_dir := dir\<rparr>\<rparr>"

section \<open>Operations with errors\<close>

type_synonym 'a eng = "EngineCore \<Rightarrow> (EngineCore \<times> (EngineError + 'a)) option"

definition eret :: "'a \<Rightarrow> 'a eng" where "eret x e = Some (e, Inr x)"
definition efail :: "EngineError \<Rightarrow> 'a eng" where "efail x e = Some (e, Inl x)"
definition eget :: "(EngineCore \<Rightarrow> 'a) \<Rightarrow> 'a eng" where "eget f e = Some (e, Inr (f e))"
definition eput :: "(EngineCore \<Rightarrow> EngineCore) \<Rightarrow> unit eng" where "eput f e = Some (f e, Inr ())"

definition ebind :: "'a eng \<Rightarrow> ('a \<Rightarrow> 'b eng) \<Rightarrow> 'b eng" where
  "ebind m f e =
     (case m e of
        None \<Rightarrow> None
      | Some (e', Inl x) \<Rightarrow> Some (e', Inl x)
      | Some (e', Inr a) \<Rightarrow> f a e')"

text \<open>Taking the index's write lock and applying a record.\<close>

definition with_index :: "(WalIndex \<Rightarrow> IndexError + WalIndex \<times> 'a) \<Rightarrow> 'a eng" where
  "with_index f e =
     (case f (ec_index e) of
        Inl x \<Rightarrow> Some (e, Inl (EeIndex x))
      | Inr (idx, a) \<Rightarrow> Some (e\<lparr>ec_index := idx\<rparr>, Inr a))"

section \<open>Calls of the commit queue\<close>

definition worker_round :: "CommitCore \<Rightarrow> SegSink \<Rightarrow> CommitCore \<times> SegSink" where
  "worker_round core sink =
     (let target = cq_flushed_lsn core; core1 = core\<lparr>cq_kick := False\<rparr> in
      case sink_sync sink of
        (sink', Inl x) \<Rightarrow> (sync_failed x core1, sink')
      | (sink', Inr _) \<Rightarrow> (sync_done target core1, sink'))"

definition await_durable ::
  "CommitCore \<times> SegSink \<times> EnqOutcome \<Rightarrow> (CommitCore \<times> SegSink \<times> (CommitError + CommitReceipt)) option" where
  "await_durable r =
     (case r of
        (core, sink, EnqReturn res) \<Rightarrow> Some (core, sink, res)
      | (core, sink, EnqBlocked) \<Rightarrow> None
      | (core, sink, EnqWait lsn p) \<Rightarrow>
          (let (core2, sink2) = worker_round core sink in
           map_option (\<lambda>res. (core2, sink2, res)) (enqueue_poll core2 lsn p)))"

definition commit_enqueue ::
  "EngineEnv \<Rightarrow> CommitCore \<Rightarrow> SegSink \<Rightarrow> CommitRequest \<Rightarrow>
     (CommitCore \<times> SegSink \<times> (CommitError + CommitReceipt)) option" where
  "commit_enqueue env core sink req =
     (let app = sink_append (en_crc env) (en_seg_clk env) in
      case enqueue app (en_mono env) core sink req of
        None \<Rightarrow> None
      | Some (core1, sink1, EnqBlocked) \<Rightarrow>
          (let (core2, sink2) = worker_round core1 sink1 in
           Option.bind (enqueue_retry app (en_mono env) core2 sink2 req) await_durable)
      | Some r \<Rightarrow> await_durable r)"

definition commit_flush ::
  "CommitCore \<Rightarrow> SegSink \<Rightarrow> u64 \<Rightarrow> u64 \<Rightarrow> (CommitCore \<times> SegSink \<times> (CommitError + u64)) option" where
  "commit_flush core sink token target =
     (case flush_barrier core token target of
        (core1, Some res) \<Rightarrow> Some (deregister core1 token, sink, res)
      | (core1, None) \<Rightarrow>
          (let (core2, sink2) = worker_round core1 sink in
           map_option (\<lambda>res. (deregister core2 token, sink2, res)) (wait_poll core2 target)))"

definition enq :: "EngineEnv \<Rightarrow> CommitRequest \<Rightarrow> CommitReceipt eng" where
  "enq env req e =
     map_option (\<lambda>(core, sink, r). (e\<lparr>ec_commit := core, ec_sink := sink\<rparr>, map_err EeCommit r))
       (commit_enqueue env (ec_commit e) (ec_sink e) req)"

definition flush :: "u64 \<Rightarrow> u64 eng" where
  "flush min_lsn e =
     map_option (\<lambda>(core, sink, r). (e\<lparr>ec_commit := core, ec_sink := sink\<rparr>, map_err EeCommit r))
       (commit_flush (ec_commit e) (ec_sink e) 0 min_lsn)"

definition flush_all :: "u64 eng" where
  "flush_all = ebind (eget (\<lambda>e. cq_flushed_lsn (ec_commit e))) flush"

section \<open>Superblock and checkpoint\<close>

definition raise_lsn :: "u64 \<Rightarrow> u64 \<Rightarrow> (u64, u64) hmap \<Rightarrow> (u64, u64) hmap" where
  "raise_lsn sid lsn m = hm_insert sid (max (case hm_get m sid of Some l \<Rightarrow> l | None \<Rightarrow> 0) lsn) m"

definition seg_last_lsn :: "WalIndex \<Rightarrow> (u64, u64) hmap" where
  "seg_last_lsn index =
     fold (\<lambda>d. raise_lsn (dc_seg_id d) (dc_version_lsn d)) (dead_copies index)
       (fold (\<lambda>t. raise_lsn (te_seg_id t) (te_version_lsn t)) (hm_values (tombstones index))
         (fold (\<lambda>n. raise_lsn (ne_seg_id n) (ne_version_lsn n)) (hm_values (needles index)) []))"

definition build_seg_entries :: "SegManifest \<Rightarrow> WalIndex \<Rightarrow> CkptSegEntry list" where
  "build_seg_entries manifest index =
     map (\<lambda>e.
       (let (live, staging, dead) = (case hm_get (per_seg_bytes index) (sg_seg_id e) of Some b \<Rightarrow> b | None \<Rightarrow> (0, 0, 0)) in
        \<lparr>cs_seg_id = sg_seg_id e, cs_state = (if sg_state e = StActive then SEG_STATE_ACTIVE else SEG_STATE_SEALED),
         cs_live_bytes = live, cs_staging_bytes = staging, cs_dead_bytes = dead, cs_base_lsn = sg_base_lsn e,
         cs_last_lsn = (case hm_get (seg_last_lsn index) (sg_seg_id e) of Some l \<Rightarrow> l | None \<Rightarrow> sg_base_lsn e)\<rparr>))
       (mf_entries manifest)"

definition is_full :: "WalIndex \<Rightarrow> bool" where
  "is_full idx \<longleftrightarrow> volume_size idx > 0 \<and> occupied_bytes (stats idx) \<ge> volume_size idx"

definition free_bytes :: "WalIndex \<Rightarrow> u64" where
  "free_bytes idx =
     (if volume_size idx = 0 then - 1 else saturating_sub (volume_size idx) (occupied_bytes (stats idx)))"

definition store_superblock :: "EngineEnv \<Rightarrow> u64 \<Rightarrow> unit eng" where
  "store_superblock env latest_ckpt_seq e =
     (let e1 = e\<lparr>ec_sb_seq := ec_sb_seq e + 1\<rparr>;
          idx = ec_index e1;
          sb = \<lparr>sb_seq = ec_sb_seq e1, sb_volume_id = we_volume_id (ec_config e1), sb_latest_ckpt_seq = latest_ckpt_seq,
                sb_active_seg_id = writer_id (sk_writer (ec_sink e1)), sb_active_seg_size = we_seg_size (ec_config e1),
                sb_volume_size = volume_size idx, sb_state = (if is_full idx then VOLUME_STATE_FULL else 0),
                sb_created_ts = ec_sb_created_ts e1, sb_last_mount_ts = en_now env, sb_min_live_snapshot_lsn = 0\<rparr>
      in map_option (\<lambda>dir. (put_dir dir e1, Inr ())) (sb_store (en_crc env) (ec_dir e1) sb))"

text \<open>The frozen state of the index and the segment list.\<close>

definition ckpt_snapshot :: "EngineEnv \<Rightarrow> u64 \<Rightarrow> EngineCore \<Rightarrow> CkptData" where
  "ckpt_snapshot env ckpt_seq e =
     (let idx = ec_index e; manifest = sk_manifest (ec_sink e) in
      ckpt_build
        \<lparr>ch_ckpt_seq = ckpt_seq, ch_applied_lsn = last_lsn idx, ch_volume_id = we_volume_id (ec_config e),
         ch_active_seg_id = writer_id (sk_writer (ec_sink e)), ch_next_seg_id = next_seg_id manifest,
         ch_next_needle_id = ec_next_needle_id e, ch_next_snapshot_id = 1, ch_created_ts = en_now env\<rparr>
        (build_seg_entries manifest idx) idx)"

definition write_ckpt :: "EngineEnv \<Rightarrow> CkptData \<Rightarrow> unit eng" where
  "write_ckpt env data e =
     (case ckpt_write (en_crc env) (ec_dir e) data of
        Inl x \<Rightarrow> Some (e, Inl (EeCkpt x))
      | Inr dir \<Rightarrow> Some (put_dir dir e, Inr ()))"

definition checkpoint_impl :: "EngineEnv \<Rightarrow> CkptOutcome eng" where
  "checkpoint_impl env =
     ebind (eget ec_next_ckpt_seq) (\<lambda>ckpt_seq.
     ebind (eput (\<lambda>e. e\<lparr>ec_next_ckpt_seq := ckpt_seq + 1\<rparr>)) (\<lambda>_.
     ebind (eget (\<lambda>e. (ckpt_snapshot env ckpt_seq e, last_lsn (ec_index e)))) (\<lambda>(data, apply_lsn).
     ebind (flush apply_lsn) (\<lambda>_.
     ebind (write_ckpt env data) (\<lambda>_.
     ebind (enq env (strict (CommitRequest_new CkptAnchor (u64_le ckpt_seq @ u64_le apply_lsn)))) (\<lambda>receipt.
     ebind (with_index (\<lambda>idx. Inr (apply_ckpt_anchor idx ckpt_seq apply_lsn (rc_lsn receipt), ()))) (\<lambda>_.
     ebind (store_superblock env ckpt_seq) (\<lambda>_.
     ebind (eput (\<lambda>e. e\<lparr>ec_last_ckpt_lsn := apply_lsn, ec_last_ckpt_seq := ckpt_seq, ec_last_ckpt_ms := en_ms env\<rparr>)) (\<lambda>_.
     eret \<lparr>co_ckpt_seq = ckpt_seq, co_applied_lsn = apply_lsn\<rparr>)))))))))"

text \<open>The decision of the background thread; a failure is only logged. Durations are milliseconds.\<close>

definition ckpt_due :: "EngineEnv \<Rightarrow> EngineCore \<Rightarrow> bool" where
  "ckpt_due env e =
     (let durable = cq_durable_lsn (ec_commit e); last1 = ec_last_ckpt_lsn e;
          interval = (case we_ckpt_interval (ec_config e) of Some i \<Rightarrow> i | None \<Rightarrow> 60000)
      in \<not> durable \<le> last1 \<and>
         (durable - last1 > we_ckpt_lsn_distance (ec_config e) \<or>
          unat (saturating_sub (en_ms env) (ec_last_ckpt_ms e)) \<ge> interval))"

definition ckpt_tick :: "EngineEnv \<Rightarrow> unit eng" where
  "ckpt_tick env e =
     (if ec_stop e \<or> \<not> ckpt_due env e then Some (e, Inr ())
      else map_option (\<lambda>(e', _). (e', Inr ())) (checkpoint_impl env e))"

section \<open>Records written by the collector, and resizing\<close>

definition fits_segment :: "nat \<Rightarrow> EngineCore \<Rightarrow> bool" where
  "fits_segment frame_len e \<longleftrightarrow> \<not> of_nat frame_len > we_seg_size (ec_config e) - of_nat SEG_HEADER_SIZE"

definition migrate_write :: "EngineEnv \<Rightarrow> u64 \<Rightarrow> u64 \<Rightarrow> bytes \<Rightarrow> (CommitReceipt \<times> bool) eng" where
  "migrate_write env needle_id expect_version data =
     (let frame_len = FRAME_HEADER_SIZE + 20 + length data;
          buf = GcMigratePayload_encode \<lparr>gm_needle_id = needle_id, gm_expect_version = expect_version, gm_data = data\<rparr>
      in ebind (eget (fits_segment frame_len)) (\<lambda>fits.
         if \<not> fits then ebind (eget (\<lambda>e. we_seg_size (ec_config e))) (\<lambda>sz. efail (EeRecordTooLarge frame_len sz))
         else
           ebind (enq env (CommitRequest_new GcMigrate buf)) (\<lambda>receipt.
           ebind (with_index (\<lambda>idx. apply_gc_migrate idx (pl_seg_id (rc_placement receipt)) (pl_offset (rc_placement receipt))
                    (pl_crc (rc_placement receipt)) (rc_lsn receipt) buf (en_now env))) (\<lambda>applied.
           eret (receipt, applied)))))"

definition purge_write :: "EngineEnv \<Rightarrow> u64 \<Rightarrow> u64 \<Rightarrow> CommitReceipt eng" where
  "purge_write env needle_id delete_lsn =
     (let buf = u64_le needle_id @ u64_le delete_lsn in
      ebind (enq env (strict (CommitRequest_new TombPurge buf))) (\<lambda>receipt.
      ebind (with_index (\<lambda>idx. map_sum id (\<lambda>i. (i, ())) (apply_tomb_purge idx (rc_lsn receipt) buf))) (\<lambda>_.
      eret receipt)))"

definition resize_impl :: "EngineEnv \<Rightarrow> u64 \<Rightarrow> CommitReceipt eng" where
  "resize_impl env new_size =
     ebind (eget (\<lambda>e. occupied_bytes (stats (ec_index e)))) (\<lambda>required.
     if new_size < required then efail (EeResizeTooSmall new_size required)
     else
       (let buf = VolumeMetaPayload_volume_size new_size in
        ebind (enq env (strict (CommitRequest_new VolumeMeta buf))) (\<lambda>receipt.
        ebind (with_index (\<lambda>idx. apply_volume_meta idx (rc_lsn receipt) buf)) (\<lambda>_.
        ebind (eget ec_last_ckpt_seq) (\<lambda>latest.
        ebind (store_superblock env latest) (\<lambda>_.
        eret receipt))))))"

section \<open>The client's operations\<close>

text \<open>\<^verbatim>\<open>write\<close> in its three stretches: admission, the log, the index.\<close>

definition write_admit :: "u64 \<Rightarrow> bytes \<Rightarrow> unit eng" where
  "write_admit needle_id data e =
     (let frame_len = FRAME_HEADER_SIZE + 12 + length data in
      if \<not> fits_segment frame_len e then Some (e, Inl (EeRecordTooLarge frame_len (we_seg_size (ec_config e))))
      else
        (let idx = ec_index e; cap = volume_size idx; occupied = occupied_bytes (stats idx) in
         if cap > 0 \<and> occupied + of_nat (length data) > cap
         then Some (e, Inl (EeVolumeFull cap occupied (of_nat (length data))))
         else Some (e, Inr ())))"

definition in_mode :: "CommitMode \<Rightarrow> CommitRequest \<Rightarrow> CommitRequest" where
  "in_mode mode req = (case mode of Strict \<Rightarrow> strict req | Async \<Rightarrow> req)"

definition write_request :: "u64 \<Rightarrow> bytes \<Rightarrow> CommitMode \<Rightarrow> CommitRequest" where
  "write_request needle_id data mode =
     in_mode mode (CommitRequest_new Data (DataPayload_encode \<lparr>dp_needle_id = needle_id, dp_data = data\<rparr>))"

definition write_apply :: "EngineEnv \<Rightarrow> u64 \<Rightarrow> bytes \<Rightarrow> CommitReceipt \<Rightarrow> CommitReceipt eng" where
  "write_apply env needle_id data receipt =
     ebind (with_index (\<lambda>idx. map_sum id (\<lambda>i. (i, ()))
       (apply_data idx (pl_seg_id (rc_placement receipt)) (pl_offset (rc_placement receipt)) (pl_crc (rc_placement receipt))
          (rc_lsn receipt) (DataPayload_encode \<lparr>dp_needle_id = needle_id, dp_data = data\<rparr>) (en_now env)))) (\<lambda>_.
     eret receipt)"

definition engine_write :: "EngineEnv \<Rightarrow> u64 \<Rightarrow> bytes \<Rightarrow> CommitMode \<Rightarrow> CommitReceipt eng" where
  "engine_write env needle_id data mode =
     ebind (write_admit needle_id data) (\<lambda>_.
     ebind (enq env (write_request needle_id data mode)) (\<lambda>receipt.
     write_apply env needle_id data receipt))"

definition engine_delete :: "EngineEnv \<Rightarrow> u64 \<Rightarrow> CommitMode \<Rightarrow> CommitReceipt eng" where
  "engine_delete env needle_id mode =
     ebind (eget (\<lambda>e. lookup (ec_index e) needle_id = None \<and> tombstone_of (ec_index e) needle_id = None)) (\<lambda>missing.
     if missing then efail (EeNotFound needle_id)
     else
       ebind (eget (\<lambda>e. we_tombstone_retention_secs (ec_config e))) (\<lambda>retention.
       let buf = DeletePayload_encode \<lparr>del_needle_id = needle_id, del_deleted_at = en_now env,
                   del_retention_until = en_now env + retention\<rparr>
       in ebind (enq env (in_mode mode (CommitRequest_new Delete buf))) (\<lambda>receipt.
          ebind (with_index (\<lambda>idx. map_sum id (\<lambda>i. (i, ())) (apply_delete idx (rc_lsn receipt) buf))) (\<lambda>_.
          eret receipt))))"

text \<open>One attempt of \<^verbatim>\<open>read\<close>: the entry is looked up in the index, then the file is opened in the directory. Another
  thread may change either in between, so the two are separate arguments. \<open>RdGone\<close>: the file is missing or too short.\<close>

datatype ReadStep =
    RdDone "EngineError + bytes"
  | RdGone

definition entry_header_len :: "NeedleEntry \<Rightarrow> nat" where
  "entry_header_len n = (if ne_flags n AND NEEDLE_FLAG_MIGRATED \<noteq> 0 then 20 else 12)"

definition entry_rtype :: "NeedleEntry \<Rightarrow> RecordType" where
  "entry_rtype n = (if ne_flags n AND NEEDLE_FLAG_MIGRATED \<noteq> 0 then GcMigrate else Data)"

definition read_attempt :: "(bytes \<Rightarrow> u32) \<Rightarrow> bool \<Rightarrow> WalIndex \<Rightarrow> directory \<Rightarrow> u64 \<Rightarrow> ReadStep" where
  "read_attempt c verify idx dir needle_id =
     (case lookup idx needle_id of
        None \<Rightarrow> RdDone (Inl (EeNotFound needle_id))
      | Some n \<Rightarrow>
          (case hm_get dir (seg_file_name (ne_seg_id n)) of
             None \<Rightarrow> RdGone
           | Some f \<Rightarrow>
               (let off = unat (ne_offset n); payload_len = entry_header_len n + unat (ne_data_len n) in
                if length f < off + payload_len then RdGone
                else
                  (let payload = subslice off (off + payload_len) f in
                   if verify \<and> compute_frame_crc c (to_u8 (entry_rtype n)) 0 (ne_version_lsn n) payload \<noteq> ne_crc n
                   then RdDone (Inl (EeReadCorrupt needle_id))
                   else RdDone (Inr (drop (entry_header_len n) payload))))))"

text \<open>The two attempts; the second one reports a missing file.\<close>

definition engine_read ::
  "(bytes \<Rightarrow> u32) \<Rightarrow> bool \<Rightarrow> WalIndex \<times> directory \<Rightarrow> WalIndex \<times> directory \<Rightarrow> u64 \<Rightarrow> EngineError + bytes" where
  "engine_read c verify first second needle_id =
     (case read_attempt c verify (fst first) (snd first) needle_id of
        RdDone r \<Rightarrow> r
      | RdGone \<Rightarrow>
          (case read_attempt c verify (fst second) (snd second) needle_id of
             RdDone r \<Rightarrow> r
           | RdGone \<Rightarrow> Inl EeIo))"

definition read_needle :: "EngineEnv \<Rightarrow> EngineCore \<Rightarrow> u64 \<Rightarrow> EngineError + bytes" where
  "read_needle env e needle_id =
     engine_read (en_crc env) (we_verify_on_read (ec_config e)) (ec_index e, ec_dir e) (ec_index e, ec_dir e) needle_id"

definition alloc_needle_id :: "EngineCore \<Rightarrow> EngineCore \<times> u64" where
  "alloc_needle_id e = (e\<lparr>ec_next_needle_id := ec_next_needle_id e + 1\<rparr>, ec_next_needle_id e)"

definition engine_stats :: "EngineCore \<Rightarrow> EngineStats" where
  "engine_stats e =
     (let idx = ec_index e; cs = cq_stats (ec_commit e) in
      \<lparr>es_index = stats idx, es_volume_size = volume_size idx, es_free_bytes = free_bytes idx,
       es_durable_lsn = cq_durable_lsn (ec_commit e), es_flushed_lsn = cq_flushed_lsn (ec_commit e),
       es_segments = length (mf_entries (sk_manifest (ec_sink e))), es_commit_records = cst_records cs,
       es_commit_syncs = cst_syncs cs, es_last_ckpt_lsn = ec_last_ckpt_lsn e, es_last_ckpt_seq = ec_last_ckpt_seq e\<rparr>)"

text \<open>Dropping the engine: the background threads stop, a last checkpoint is tried, and the queue is closed, whose
  worker makes a last sync.\<close>

definition engine_close :: "EngineEnv \<Rightarrow> unit eng" where
  "engine_close env e =
     (let e1 = e\<lparr>ec_stop := True\<rparr> in
      Option.bind (if we_ckpt_on_close (ec_config e1) then map_option fst (checkpoint_impl env e1) else Some e1)
        (\<lambda>e2. (let core = Wal_Commit.close (ec_commit e2) in
           if cq_error core \<noteq> None then Some (e2\<lparr>ec_commit := core\<rparr>, Inr ())
           else
             (let (core3, sink3) = worker_round core (ec_sink e2)
              in Some (e2\<lparr>ec_commit := core3, ec_sink := sink3\<rparr>, Inr ())))))"

section \<open>Opening a volume\<close>

definition open_superblock ::
  "EngineEnv \<Rightarrow> directory \<Rightarrow> WalEngineConfig \<Rightarrow> (EngineError + Superblock) option" where
  "open_superblock env dir config =
     (case sb_load (en_crc env) dir of
        None \<Rightarrow> None
      | Some (Inr sb) \<Rightarrow>
          if sb_volume_id sb \<noteq> 0 \<and> sb_volume_id sb \<noteq> we_volume_id config
          then Some (Inl (EeVolumeIdMismatch (sb_volume_id sb) (we_volume_id config)))
          else Some (Inr sb)
      | Some (Inl SbNotFound) \<Rightarrow>
          Some (Inr \<lparr>sb_seq = 0, sb_volume_id = we_volume_id config, sb_latest_ckpt_seq = 0, sb_active_seg_id = 0,
            sb_active_seg_size = we_seg_size config, sb_volume_size = we_volume_size config, sb_state = 0,
            sb_created_ts = en_now env, sb_last_mount_ts = en_now env, sb_min_live_snapshot_lsn = 0\<rparr>)
      | Some (Inl x) \<Rightarrow> Some (Inl (EeSuperblock x)))"

record CkptStart =
  cp_applied_lsn :: u64
  cp_loaded_seq :: u64
  cp_needle_floor :: u64
  cp_index :: WalIndex

fun first_loadable :: "(bytes \<Rightarrow> u32) \<Rightarrow> directory \<Rightarrow> u64 list \<Rightarrow> (u64 \<times> CkptData) option" where
  "first_loadable c dir [] = None"
| "first_loadable c dir (seq # seqs) =
     (case ckpt_load c dir seq of
        Inr data \<Rightarrow> Some (seq, data)
      | Inl _ \<Rightarrow> first_loadable c dir seqs)"

definition load_ckpt :: "EngineEnv \<Rightarrow> directory \<Rightarrow> WalEngineConfig \<Rightarrow> (EngineError + CkptStart) option" where
  "load_ckpt env dir config =
     (case first_loadable (en_crc env) dir (rev (list_ckpts dir)) of
        None \<Rightarrow> Some (Inr \<lparr>cp_applied_lsn = 0, cp_loaded_seq = 0, cp_needle_floor = 0, cp_index = WalIndex_new\<rparr>)
      | Some (seq, data) \<Rightarrow>
          (case cd_header data of
             None \<Rightarrow> None
           | Some hdr \<Rightarrow>
               if ch_volume_id hdr \<noteq> we_volume_id config
               then Some (Inl (EeVolumeIdMismatch (ch_volume_id hdr) (we_volume_id config)))
               else Some (Inr
                 \<lparr>cp_applied_lsn = ch_applied_lsn hdr, cp_loaded_seq = seq, cp_needle_floor = ch_next_needle_id hdr,
                  cp_index = advance_replay_cursor (into_index data) (ch_applied_lsn hdr)\<rparr>)))"

text \<open>The replay, and the full replay when a break was found although a checkpoint was loaded.\<close>

record Recovered =
  rv_replay :: ReplayResult
  rv_dir :: directory
  rv_applied_lsn :: u64
  rv_loaded_seq :: u64
  rv_seq_floor :: u64

definition recover ::
  "EngineEnv \<Rightarrow> WalEngineConfig \<Rightarrow> directory \<Rightarrow> SegManifest \<Rightarrow> CkptStart \<Rightarrow> EngineError + Recovered" where
  "recover env config dir manifest ck =
     (case replay_all (en_crc env) (en_replay_clk env) dir manifest (cp_index ck) (we_recovery_mode config) (cp_applied_lsn ck) of
        Inl x \<Rightarrow> Inl (EeReplay x)
      | Inr r \<Rightarrow>
          if rr_stop r \<noteq> None \<and> cp_applied_lsn ck > 0 then
            (case replay_with (en_crc env) (en_replay_clk env) (rr_dir r) manifest WalIndex_new (we_recovery_mode config) 0
                    (rr_stop r) of
               Inl x \<Rightarrow> Inl (EeReplay x)
             | Inr r2 \<Rightarrow>
                 (let (dir2, removed) = remove_future_ckpts (en_crc env) (rr_dir r2) (last_lsn (rr_index r2)) in
                  Inr \<lparr>rv_replay = r2, rv_dir = dir2, rv_applied_lsn = 0,
                       rv_loaded_seq = (case latest_seq dir2 of Some s \<Rightarrow> s | None \<Rightarrow> 0),
                       rv_seq_floor = fold max removed 0\<rparr>))
          else Inr \<lparr>rv_replay = r, rv_dir = rr_dir r, rv_applied_lsn = cp_applied_lsn ck,
                    rv_loaded_seq = cp_loaded_seq ck, rv_seq_floor = 0\<rparr>)"

text \<open>After a break: the abandoned segments go, and the segment with the break is cut and sealed.\<close>

definition drop_segment :: "u64 \<Rightarrow> directory \<times> SegManifest \<Rightarrow> directory \<times> SegManifest" where
  "drop_segment sid dm = (hm_remove (seg_file_name sid) (fst dm), fst (mf_remove (snd dm) sid))"

definition seal_break ::
  "EngineEnv \<Rightarrow> WalEngineConfig \<Rightarrow> ReplayResult \<Rightarrow> directory \<times> SegManifest \<Rightarrow> EngineError + directory \<times> SegManifest" where
  "seal_break env config r dm =
     (case rr_stop r of
        None \<Rightarrow> Inr dm
      | Some sp \<Rightarrow>
          (let (dir1, m1) = fold drop_segment (rr_abandoned r) dm; name = seg_file_name (sp_seg_id sp) in
           case hm_get dir1 name of
             None \<Rightarrow> Inl (EeSegment NotFound)
           | Some file1 \<Rightarrow>
               (case SegWriter_reopen (en_crc env) file1 (unat (we_seg_size config)) of
                  Inl x \<Rightarrow> Inl (EeSegment x)
                | Inr (w, _) \<Rightarrow>
                    Inr (hm_insert name (sw_file (seal (en_crc env) w)) dir1, mark_sealed m1 (sp_seg_id sp)))))"

definition fresh_segment ::
  "EngineEnv \<Rightarrow> WalEngineConfig \<Rightarrow> WalIndex \<Rightarrow> directory \<times> SegManifest \<Rightarrow>
     EngineError + SegWriter \<times> directory \<times> SegManifest" where
  "fresh_segment env config index dm =
     (case dm of (dir, m) \<Rightarrow>
        (let seg_id = next_seg_id m; base_lsn = last_lsn index + 1 in
         case SegWriter_create (en_crc env) (en_seg_clk env seg_id) (hm_get dir (seg_file_name seg_id) \<noteq> None) seg_id
                (we_volume_id config) base_lsn (unat (we_seg_size config)) (we_preallocate config) of
           Inl x \<Rightarrow> Inl (EeSegment x)
         | Inr w \<Rightarrow>
             Inr (w, hm_insert (seg_file_name seg_id) (sw_file w) dir, mf_register m seg_id base_lsn (we_volume_id config))))"

definition open_writer ::
  "EngineEnv \<Rightarrow> WalEngineConfig \<Rightarrow> StopPoint option \<Rightarrow> WalIndex \<Rightarrow> directory \<times> SegManifest \<Rightarrow>
     EngineError + SegWriter \<times> directory \<times> SegManifest" where
  "open_writer env config stop index dm =
     (if stop \<noteq> None then fresh_segment env config index dm
      else
        (case mf_active (snd dm) of
           None \<Rightarrow> fresh_segment env config index dm
         | Some entry \<Rightarrow>
             (case hm_get (fst dm) (seg_file_name (sg_seg_id entry)) of
                None \<Rightarrow> Inl (EeSegment NotFound)
              | Some file1 \<Rightarrow>
                  (case SegWriter_reopen (en_crc env) file1 (unat (we_seg_size config)) of
                     Inl x \<Rightarrow> Inl (EeSegment x)
                   | Inr (w, _) \<Rightarrow> Inr (w, hm_insert (seg_file_name (sg_seg_id entry)) (sw_file w) (fst dm), snd dm)))))"

definition baseline_size :: "WalEngineConfig \<Rightarrow> Superblock \<Rightarrow> WalIndex \<Rightarrow> WalIndex" where
  "baseline_size config sb index =
     (if volume_size index = 0
      then set_volume_size index (if sb_volume_size sb \<noteq> 0 then sb_volume_size sb else we_volume_size config)
      else index)"

definition engine_core ::
  "EngineEnv \<Rightarrow> WalEngineConfig \<Rightarrow> Superblock \<Rightarrow> u64 \<Rightarrow> Recovered \<Rightarrow> WalIndex \<Rightarrow> SegWriter \<times> directory \<times> SegManifest \<Rightarrow>
     EngineCore option" where
  "engine_core env config sb floor1 rv index wdm =
     (case wdm of (w, dir, m) \<Rightarrow>
        map_option (\<lambda>commit.
          \<lparr>ec_config = config,
           ec_sink = SegSink_new w m dir (max SEG_HEADER_SIZE (min (en_on_disk env) (sw_write_pos w)))
             (unat (we_seg_size config)) (we_preallocate config),
           ec_commit = commit, ec_index = index, ec_next_needle_id = max (max_needle_id index + 1) floor1,
           ec_next_ckpt_seq = max (rv_loaded_seq rv) (rv_seq_floor rv) + 1, ec_sb_seq = sb_seq sb,
           ec_sb_created_ts = sb_created_ts sb, ec_last_ckpt_lsn = rv_applied_lsn rv, ec_last_ckpt_seq = rv_loaded_seq rv,
           ec_last_ckpt_ms = en_ms env, ec_stop = False\<rparr>)
          (CommitQueue_new (we_commit config) (last_lsn index + 1)))"

text \<open>\<open>locked\<close>: another writer holds the volume's lock.\<close>

definition engine_open ::
  "EngineEnv \<Rightarrow> bool \<Rightarrow> directory \<Rightarrow> WalEngineConfig \<Rightarrow> (EngineError + EngineCore) option" where
  "engine_open env locked dir0 config =
     (let dir = (if hm_get dir0 ''volume.lock'' = None then hm_insert ''volume.lock'' [] dir0 else dir0) in
      if locked then Some (Inl EeLocked)
      else
        Option.bind (open_superblock env dir config) (\<lambda>r1. case r1 of Inl x \<Rightarrow> Some (Inl x) | Inr sb \<Rightarrow>
        Option.bind (load_ckpt env dir config) (\<lambda>r2. case r2 of Inl x \<Rightarrow> Some (Inl x) | Inr ck \<Rightarrow>
        (case rbind (map_err EeSegment (SegManifest_load (en_crc env) dir (unat (we_seg_size config)))) (\<lambda>manifest.
              rbind (recover env config dir manifest ck) (\<lambda>rv.
              rbind (seal_break env config (rv_replay rv) (rv_dir rv, manifest)) (\<lambda>dm.
              let index = baseline_size config sb (rr_index (rv_replay rv)) in
              rbind (open_writer env config (rr_stop (rv_replay rv)) index dm) (\<lambda>wdm. Inr (rv, index, wdm))))) of
           Inl x \<Rightarrow> Some (Inl x)
         | Inr (rv, index, wdm) \<Rightarrow>
             Option.bind (engine_core env config sb (cp_needle_floor ck) rv index wdm) (\<lambda>e.
             map_option (\<lambda>(e', r). map_sum id (\<lambda>_. e') r) (store_superblock env (rv_loaded_seq rv) e))))))"

section \<open>What an enqueue does to the sink\<close>

lemma enqueue_append_outcome:
  assumes "enqueue_append app now core sink req = Some (core', sink', out)"
  shows "\<exists>res. app sink (cq_next_lsn core) (rq_rtype req) (rq_flags req) (rq_payload req) = Some (sink', res) \<and>
    cq_next_lsn core' = cq_next_lsn core + 1 \<and>
    (case res of
       Inl x \<Rightarrow> out = EnqReturn (Inl (Sink x))
     | Inr p \<Rightarrow> cq_error core' = cq_error core \<and> cq_flushed_lsn core' = cq_next_lsn core \<and>
         (out = EnqWait (cq_next_lsn core) p \<or>
          out = EnqReturn (Inr \<lparr>rc_lsn = cq_next_lsn core, rc_durable = False, rc_placement = p\<rparr>)))"
  using assms by (auto simp: enqueue_append_def Let_def split: option.splits prod.splits sum.splits if_splits)

lemma worker_round_sel:
  assumes "worker_round core sink = (core', sink')"
  shows "sink' = sink\<lparr>sk_synced := sw_write_pos (sk_writer sink)\<rparr>" "cq_next_lsn core' = cq_next_lsn core"
    "cq_error core' = cq_error core" "cq_flushed_lsn core' = cq_flushed_lsn core"
    "cq_durable_lsn core' = max (cq_flushed_lsn core) (cq_durable_lsn core)"
    "cq_config core' = cq_config core" "cq_shutting_down core' = cq_shutting_down core"
  using assms by (auto simp: worker_round_def sink_sync_def Let_def)

lemma sync_grows:
  assumes "worker_round core sink = (core', sink')"
  shows "sink_grows c sink sink' r (Inl x)"
  unfolding sink_grows_def
proof (intro allI impI)
  fix vol rs assume inv: "sink_inv c sink vol rs"
  have "sk_synced sink \<le> sw_write_pos (sk_writer sink)" using inv by (simp add: sink_inv_def)
  then have "whole_recs (sk_synced sink - SEG_HEADER_SIZE) rs \<le> whole_recs (sw_write_pos (sk_writer sink) - SEG_HEADER_SIZE) rs"
    by (intro whole_recs_mono) simp
  then have "grown c sink vol rs sink' r (Inl x) vol rs []"
    using inv worker_round_sel(1) [OF assms]
    by (auto simp: grown_def sink_inv_def new_recs_def synced_recs_def placed_def writer_inv_def)
  then show "\<exists>vol' rs' pad. grown c sink vol rs sink' r (Inl x) vol' rs' pad" by blast
qed

lemma sink_grows_refl: "sink_grows c s s r (Inl x)"
  unfolding sink_grows_def grown_def by (force simp: new_recs_def placed_def)

text \<open>A sync after a step changes nothing about where the records are.\<close>

lemma grows_synced:
  assumes "sink_grows c s s1 r res" and "s2 = s1\<lparr>sk_synced := sw_write_pos (sk_writer s1)\<rparr>"
  shows "sink_grows c s s2 r res"
  unfolding sink_grows_def
proof (intro allI impI)
  fix vol rs assume "sink_inv c s vol rs"
  then obtain vol' rs' pad where g: "grown c s vol rs s1 r res vol' rs' pad" by (rule sink_growsD [OF assms(1)])
  then have inv: "sink_inv c s1 vol' rs'" by (simp add: grown_def)
  then have "whole_recs (sk_synced s1 - SEG_HEADER_SIZE) rs' \<le> whole_recs (sw_write_pos (sk_writer s1) - SEG_HEADER_SIZE) rs'"
    by (intro whole_recs_mono diff_le_mono) (simp add: sink_inv_def)
  with g inv have "grown c s vol rs s2 r res vol' rs' pad"
    by (auto simp: grown_def sink_inv_def synced_recs_def writer_inv_def assms(2))
  then show "\<exists>vol' rs' pad. grown c s vol rs s2 r res vol' rs' pad" by blast
qed

text \<open>A call of the queue, seen from the engine: the sink grows by the record, and the receipt says where it is.\<close>

definition called ::
  "(bytes \<Rightarrow> u32) \<Rightarrow> CommitRequest \<Rightarrow> CommitCore \<Rightarrow> SegSink \<Rightarrow> CommitCore \<Rightarrow> SegSink \<Rightarrow> CommitError + CommitReceipt \<Rightarrow> bool" where
  "called c req core sink core' sink' r \<longleftrightarrow>
     (case r of
        Inl _ \<Rightarrow> cq_next_lsn core' \<in> {cq_next_lsn core, cq_next_lsn core + 1} \<and>
          (\<exists>x. sink_grows c sink sink' (record_of req (cq_next_lsn core)) (Inl x))
      | Inr rc \<Rightarrow> rc_lsn rc = cq_next_lsn core \<and> cq_next_lsn core' = cq_next_lsn core + 1 \<and>
          sink_grows c sink sink' (record_of req (cq_next_lsn core)) (Inr (rc_placement rc)))"

lemma await_called:
  assumes "await_durable (core1, sink1, out) = Some (core', sink', r)"
    and "enqueue_append (sink_append c clk) now core sink req = Some (core1, sink1, out)" and "cq_error core = None"
  shows "called c req core sink core' sink' r"
proof -
  obtain res where app: "sink_append c clk sink (cq_next_lsn core) (rq_rtype req) (rq_flags req) (rq_payload req) = Some (sink1, res)"
      and lsn: "cq_next_lsn core1 = cq_next_lsn core + 1"
      and out: "case res of
        Inl x \<Rightarrow> out = EnqReturn (Inl (Sink x))
      | Inr p \<Rightarrow> cq_error core1 = cq_error core \<and> cq_flushed_lsn core1 = cq_next_lsn core \<and>
         (out = EnqWait (cq_next_lsn core) p \<or>
          out = EnqReturn (Inr \<lparr>rc_lsn = cq_next_lsn core, rc_durable = False, rc_placement = p\<rparr>))"
    using enqueue_append_outcome [OF assms(2)] by blast
  have g: "sink_grows c sink sink1 (record_of req (cq_next_lsn core)) res"
    using sink_append_grows [OF app] by (simp add: record_of_def)
  show ?thesis
  proof (cases res)
    case (Inl x)
    with out assms(1) lsn g show ?thesis by (auto simp: await_durable_def called_def)
  next
    case (Inr p)
    from out Inr consider "out = EnqWait (cq_next_lsn core) p"
      | "out = EnqReturn (Inr \<lparr>rc_lsn = cq_next_lsn core, rc_durable = False, rc_placement = p\<rparr>)" by auto
    then show ?thesis
    proof cases
      case 1
      obtain core2 sink2 where w: "worker_round core1 sink1 = (core2, sink2)" by fastforce
      note W = worker_round_sel [OF w]
      have "r = Inr \<lparr>rc_lsn = cq_next_lsn core, rc_durable = True, rc_placement = p\<rparr>" "core' = core2" "sink' = sink2"
        using assms(1,3) 1 w W out Inr by (auto simp: await_durable_def enqueue_poll_def split: if_splits)
      then show ?thesis using W lsn g Inr grows_synced [OF g W(1)] by (simp add: called_def)
    next
      case 2
      with assms(1) lsn g Inr show ?thesis by (auto simp: await_durable_def called_def)
    qed
  qed
qed

lemma called_idle:
  "called c req core sink core sink (Inl x)"
  by (auto simp: called_def intro: sink_grows_refl)

lemma called_after_round:
  assumes "worker_round core sink = (core1, sink1)" and "called c req core1 sink1 core' sink' r"
  shows "called c req core sink core' sink' r"
proof -
  have "sink_grows c sink sink' (record_of req l) res" if "sink_grows c sink1 sink' (record_of req l) res" for l res
    using sync_grows [OF assms(1)] that by (rule grows_trans)
  then show ?thesis
    using assms(2) worker_round_sel(2) [OF assms(1)] by (fastforce simp: called_def split: sum.splits)
qed

lemma commit_enqueue_called:
  assumes "commit_enqueue env core sink req = Some (core', sink', r)"
  shows "called (en_crc env) req core sink core' sink' r"
proof -
  let ?app = "sink_append (en_crc env) (en_seg_clk env)"
  obtain core1 sink1 out where enq: "enqueue ?app (en_mono env) core sink req = Some (core1, sink1, out)"
    using assms by (auto simp: commit_enqueue_def Let_def split: option.splits prod.splits)
  have pass: "passes ?app (en_mono env) core sink req (core1, sink1, out)" using enqueue_passes [OF enq] by blast
  show ?thesis
  proof (cases "out = EnqBlocked")
    case True
    obtain core2 sink2 where w: "worker_round core1 sink1 = (core2, sink2)" by fastforce
    obtain rt where rt: "enqueue_retry ?app (en_mono env) core2 sink2 req = Some rt" "await_durable rt = Some (core', sink', r)"
      using assms enq True w by (auto simp: commit_enqueue_def Let_def bind_eq_Some_conv)
    have same: "core1 = core" "sink1 = sink" "cq_error core = None"
      using enq True by (auto simp: enqueue_def enqueue_retry_def enqueue_append_def Let_def
          split: if_splits option.splits sum.splits)
    have "called (en_crc env) req core2 sink2 core' sink' r"
      using retry_passes [OF rt(1)] rt(2) await_called [of _ _ _ core' sink' r "en_crc env" "en_seg_clk env"]
        worker_round_sel(3) [OF w] same
      by (cases rt) (auto simp: passes_def await_durable_def called_idle)
    with w same show ?thesis by (auto intro: called_after_round)
  next
    case False
    then have aw: "await_durable (core1, sink1, out) = Some (core', sink', r)"
      using assms enq by (cases out) (auto simp: commit_enqueue_def Let_def)
    show ?thesis
    proof (cases "core1 = core \<and> sink1 = sink \<and> (\<exists>x. out = EnqReturn (Inl x))")
      case True
      with aw show ?thesis by (auto simp: await_durable_def called_idle)
    next
      case False
      with pass \<open>out \<noteq> EnqBlocked\<close> have "enqueue_append ?app (en_mono env) core sink req = Some (core1, sink1, out)"
        by (auto simp: passes_def)
      moreover have "cq_error core = None" using enq False by (auto simp: enqueue_def split: if_splits option.splits)
      ultimately show ?thesis using await_called [OF aw] by blast
    qed
  qed
qed

section \<open>Reading a record back\<close>

lemma rec_frame_split:
  "rec_frame c off r \<in> set (frames_of c p rs) \<Longrightarrow> \<exists>rs1 rs2. rs = rs1 @ r # rs2 \<and> off = p + log_size rs1"
proof (induction rs arbitrary: p)
  case (Cons x rs)
  show ?case
  proof (cases "rec_frame c off r = rec_frame c p x")
    case True
    then have "r = x" "off = p" by (cases r; cases x; simp)+
    then show ?thesis by (intro exI [of _ "[]"] exI [of _ rs]) simp
  next
    case False
    with Cons.prems have "rec_frame c off r \<in> set (frames_of c (p + rec_size x) rs)" by simp
    from Cons.IH [OF this] obtain rs1 rs2 where "rs = rs1 @ r # rs2" "off = p + rec_size x + log_size rs1" by blast
    then show ?thesis by (intro exI [of _ "x # rs1"] exI [of _ rs2]) simp
  qed
qed simp

lemma image_payload:
  assumes "rec_frame c off (t, f, l, pl) \<in> set (frames_of c SEG_HEADER_SIZE rs)"
  shows "off + FRAME_HEADER_SIZE + length pl \<le> length (segment_image c h rs z)"
    and "subslice (off + FRAME_HEADER_SIZE) (off + FRAME_HEADER_SIZE + length pl) (segment_image c h rs z) = pl"
proof -
  obtain rs1 rs2 where rs: "rs = rs1 @ (t, f, l, pl) # rs2" and off: "off = SEG_HEADER_SIZE + log_size rs1"
    using rec_frame_split [OF assms] by blast
  let ?p = "chain_end c (chain_seed c h) rs1"
  obtain hd1 where hd1: "fst (encode_frame c ?p t f l pl) = hd1 @ pl" "length hd1 = FRAME_HEADER_SIZE"
    by (simp add: encode_frame_eq)
  define pre where "pre = SegmentHeader_encode c h @ encode_log c (chain_seed c h) rs1 @ hd1"
  obtain post where img: "segment_image c h rs z = pre @ pl @ post" and len: "length pre = off + FRAME_HEADER_SIZE"
    by (simp add: segment_image_def rs encode_log_append hd1 off pre_def)
  show "off + FRAME_HEADER_SIZE + length pl \<le> length (segment_image c h rs z)" by (simp add: img len)
  show "subslice (off + FRAME_HEADER_SIZE) (off + FRAME_HEADER_SIZE + length pl) (segment_image c h rs z) = pl"
    by (simp add: img subslice_def flip: len)
qed

lemma in_log_file:
  assumes "sink_inv c s vol rs" and "in_log c vol (writer_id (sk_writer s)) rs sid off (t, f, l, pl)"
  shows "\<exists>bs. hm_get (sk_dir s) (seg_file_name sid) = Some bs \<and> off + FRAME_HEADER_SIZE + length pl \<le> length bs \<and>
    subslice (off + FRAME_HEADER_SIZE) (off + FRAME_HEADER_SIZE + length pl) bs = pl"
  using assms(2) unfolding in_log_def
proof (elim disjE exE conjE)
  fix h rs0 z assume "(h, rs0, z) \<in> set vol" "sh_seg_id h = sid"
    and "rec_frame c off (t, f, l, pl) \<in> set (frames_of c SEG_HEADER_SIZE rs0)"
  with assms(1) image_payload [OF this(3)] show ?thesis by (fastforce simp: sink_inv_def on_disk_def)
next
  assume sid: "sid = writer_id (sk_writer s)" and fr: "rec_frame c off (t, f, l, pl) \<in> set (frames_of c SEG_HEADER_SIZE rs)"
  obtain k where "sw_file (sk_writer s) = segment_image c (sw_header (sk_writer s)) rs k"
    using assms(1) by (auto simp: sink_inv_def writer_inv_def)
  with image_payload [OF fr] assms(1) show ?thesis by (simp add: sid sink_inv_def)
qed

text \<open>The entry of a needle points at a record that holds \<open>data\<close>.\<close>

definition entry_at :: "(bytes \<Rightarrow> u32) \<Rightarrow> volume \<Rightarrow> u64 \<Rightarrow> log_rec list \<Rightarrow> NeedleEntry \<Rightarrow> bytes \<Rightarrow> bool" where
  "entry_at c vol wid rs n data \<longleftrightarrow>
     (\<exists>off pl. in_log c vol wid rs (ne_seg_id n) off (entry_rtype n, 0, ne_version_lsn n, pl) \<and>
        unat (ne_offset n) = off + FRAME_HEADER_SIZE \<and> length pl = entry_header_len n + unat (ne_data_len n) \<and>
        drop (entry_header_len n) pl = data \<and> ne_crc n = rec_crc c (entry_rtype n, 0, ne_version_lsn n, pl))"

lemma read_attempt_at:
  assumes "sink_inv c s vol rs" and "lookup idx nid = Some n" and "entry_at c vol (writer_id (sk_writer s)) rs n data"
  shows "read_attempt c verify idx (sk_dir s) nid = RdDone (Inr data)"
proof -
  obtain off pl where at: "in_log c vol (writer_id (sk_writer s)) rs (ne_seg_id n) off (entry_rtype n, 0, ne_version_lsn n, pl)"
    and pl: "unat (ne_offset n) = off + FRAME_HEADER_SIZE" "length pl = entry_header_len n + unat (ne_data_len n)"
      "drop (entry_header_len n) pl = data" "ne_crc n = rec_crc c (entry_rtype n, 0, ne_version_lsn n, pl)"
    using assms(3) by (auto simp: entry_at_def)
  from in_log_file [OF assms(1) at] obtain bs where
    "hm_get (sk_dir s) (seg_file_name (ne_seg_id n)) = Some bs" "off + FRAME_HEADER_SIZE + length pl \<le> length bs"
    "subslice (off + FRAME_HEADER_SIZE) (off + FRAME_HEADER_SIZE + length pl) bs = pl" by blast
  with assms(2) pl show ?thesis
    by (simp add: read_attempt_def Let_def add.assoc)
qed

lemma entry_at_grown:
  assumes "grown c s vol rs s' r res vol' rs' pad" and "entry_at c vol (writer_id (sk_writer s)) rs n data"
  shows "entry_at c vol' (writer_id (sk_writer s')) rs' n data"
  using assms unfolding entry_at_def grown_def by blast

section \<open>The engine's invariant\<close>

definition located :: "(bytes \<Rightarrow> u32) \<Rightarrow> volume \<Rightarrow> u64 \<Rightarrow> log_rec list \<Rightarrow> WalIndex \<Rightarrow> bool" where
  "located c vol wid rs idx \<longleftrightarrow> (\<forall>nid n. lookup idx nid = Some n \<longrightarrow> (\<exists>data. entry_at c vol wid rs n data))"

definition engine_rep :: "(bytes \<Rightarrow> u32) \<Rightarrow> EngineCore \<Rightarrow> volume \<Rightarrow> log_rec list \<Rightarrow> bool" where
  "engine_rep c e vol rs \<longleftrightarrow>
     sink_inv c (ec_sink e) vol rs \<and> located c vol (writer_id (sk_writer (ec_sink e))) rs (ec_index e) \<and>
     index_inv (ec_index e) \<and> last_lsn (ec_index e) < cq_next_lsn (ec_commit e)"

definition engine_inv :: "(bytes \<Rightarrow> u32) \<Rightarrow> EngineCore \<Rightarrow> bool" where
  "engine_inv c e \<longleftrightarrow> (\<exists>vol rs. engine_rep c e vol rs)"

text \<open>What the volume holds, as a client sees it.\<close>

definition contents :: "(bytes \<Rightarrow> u32) \<Rightarrow> EngineCore \<Rightarrow> u64 \<Rightarrow> bytes option" where
  "contents c e nid =
     (case read_attempt c True (ec_index e) (ec_dir e) nid of RdDone (Inr data) \<Rightarrow> Some data | _ \<Rightarrow> None)"

lemma contents_at:
  assumes "engine_rep c e vol rs"
  shows "contents c e nid = Some data \<longleftrightarrow>
    (\<exists>n. lookup (ec_index e) nid = Some n \<and> entry_at c vol (writer_id (sk_writer (ec_sink e))) rs n data)"
proof (cases "lookup (ec_index e) nid")
  case None
  then show ?thesis by (simp add: contents_def read_attempt_def)
next
  case (Some n)
  then obtain d where d: "entry_at c vol (writer_id (sk_writer (ec_sink e))) rs n d"
    using assms by (auto simp: engine_rep_def located_def)
  have rd: "read_attempt c True (ec_index e) (ec_dir e) nid = RdDone (Inr x)"
    if "entry_at c vol (writer_id (sk_writer (ec_sink e))) rs n x" for x
    using assms that by (intro read_attempt_at [OF _ Some]) (auto simp: engine_rep_def)
  have "entry_at c vol (writer_id (sk_writer (ec_sink e))) rs n data \<longleftrightarrow> data = d"
    using rd [OF d] rd [of data] d by auto
  then show ?thesis
    using rd [OF d] Some by (auto simp: contents_def)
qed

text \<open>Every read of a volume in a good state succeeds or reports a missing needle, whatever the checking mode.\<close>

lemma read_contents:
  assumes "engine_inv (en_crc env) e"
  shows "read_needle env e nid = (case contents (en_crc env) e nid of Some data \<Rightarrow> Inr data | None \<Rightarrow> Inl (EeNotFound nid))"
proof -
  obtain vol rs where rep: "engine_rep (en_crc env) e vol rs" using assms by (auto simp: engine_inv_def)
  show ?thesis
  proof (cases "lookup (ec_index e) nid")
    case None
    then show ?thesis by (simp add: read_needle_def engine_read_def read_attempt_def contents_def)
  next
    case (Some n)
    then obtain d where "entry_at (en_crc env) vol (writer_id (sk_writer (ec_sink e))) rs n d"
      using rep by (auto simp: engine_rep_def located_def)
    then have "read_attempt (en_crc env) verify (ec_index e) (ec_dir e) nid = RdDone (Inr d)" for verify
      using rep by (intro read_attempt_at [OF _ Some]) (auto simp: engine_rep_def)
    then show ?thesis by (simp add: read_needle_def engine_read_def contents_def)
  qed
qed

section \<open>The effect of each operation\<close>

lemma entry_at_unique:
  assumes "sink_inv c s vol rs" and "entry_at c vol (writer_id (sk_writer s)) rs n d" and "entry_at c vol (writer_id (sk_writer s)) rs n d'"
  shows "d = d'"
proof -
  have "lookup (WalIndex_new\<lparr>needles := [(0, n)]\<rparr>) 0 = Some n" by (simp add: lookup_def)
  from read_attempt_at [OF assms(1) this assms(2), of True] read_attempt_at [OF assms(1) this assms(3), of True]
  show ?thesis by simp
qed

lemma contents_same:
  assumes "engine_rep c e vol rs" and "engine_rep c e' vol' rs'"
    and "\<And>n d. entry_at c vol (writer_id (sk_writer (ec_sink e))) rs n d \<Longrightarrow> entry_at c vol' (writer_id (sk_writer (ec_sink e'))) rs' n d"
    and "lookup (ec_index e') nid = lookup (ec_index e) nid"
  shows "contents c e' nid = contents c e nid"
proof (cases "contents c e nid")
  case None
  then have "lookup (ec_index e) nid = None"
    using contents_at [OF assms(1)] assms(1)
    by (cases "lookup (ec_index e) nid") (auto simp: engine_rep_def located_def, metis option.distinct(1))
  with assms(4) None show ?thesis by (simp add: contents_def read_attempt_def)
next
  case (Some d)
  then obtain n where "lookup (ec_index e) nid = Some n" "entry_at c vol (writer_id (sk_writer (ec_sink e))) rs n d"
    using contents_at [OF assms(1)] by blast
  with assms(3,4) Some show ?thesis using contents_at [OF assms(2)] by metis
qed

text \<open>How much of the 64-bit counters a run uses: bytes in the index, and records.\<close>

definition spends :: "nat \<Rightarrow> nat \<Rightarrow> EngineCore \<Rightarrow> EngineCore \<Rightarrow> bool" where
  "spends n k e e' \<longleftrightarrow>
     unat (cq_next_lsn (ec_commit e')) \<le> unat (cq_next_lsn (ec_commit e)) + k \<and>
     index_bytes (ec_index e') \<le> index_bytes (ec_index e) + n \<and> index_count (ec_index e') \<le> index_count (ec_index e) + k"

definition affords :: "EngineCore \<Rightarrow> nat \<Rightarrow> nat \<Rightarrow> bool" where
  "affords e n k \<longleftrightarrow> unat (cq_next_lsn (ec_commit e)) + k < 2 ^ 64 \<and>
     index_bytes (ec_index e) + n < 2 ^ 64 \<and> index_count (ec_index e) + k < 2 ^ 64"

lemma spends_trans: "spends n k e e1 \<Longrightarrow> spends n' k' e1 e2 \<Longrightarrow> spends (n + n') (k + k') e e2"
  by (auto simp: spends_def)

lemma spends_affords: "spends n k e e1 \<Longrightarrow> affords e (n + n') (k + k') \<Longrightarrow> affords e1 n' k'"
  by (auto simp: spends_def affords_def)

lemma spends_mono: "spends n k e e1 \<Longrightarrow> n \<le> n' \<Longrightarrow> k \<le> k' \<Longrightarrow> spends n' k' e e1"
  by (auto simp: spends_def)

lemma affords_mono: "affords e n k \<Longrightarrow> n' \<le> n \<Longrightarrow> k' \<le> k \<Longrightarrow> affords e n' k'"
  by (auto simp: affords_def)

text \<open>An operation that changes neither what the volume holds nor its configuration.\<close>

definition quiet :: "(bytes \<Rightarrow> u32) \<Rightarrow> nat \<Rightarrow> EngineCore \<Rightarrow> EngineCore \<Rightarrow> bool" where
  "quiet c k e e' \<longleftrightarrow> engine_inv c e' \<and> contents c e' = contents c e \<and> ec_config e' = ec_config e \<and> spends 0 k e e'"

lemma quiet_refl: "engine_inv c e \<Longrightarrow> quiet c k e e"
  by (simp add: quiet_def spends_def)

lemma quiet_trans: "quiet c k e e1 \<Longrightarrow> quiet c k' e1 e2 \<Longrightarrow> quiet c (k + k') e e2"
  using spends_trans [of 0 k e e1 0 k' e2] by (simp add: quiet_def)

lemma less_next_lsn:
  "l < x \<Longrightarrow> unat x + 1 < 2 ^ 64 \<Longrightarrow> l < x + 1" "unat (x :: u64) + 1 < 2 ^ 64 \<Longrightarrow> unat (x + 1) = unat x + 1"
  for l x :: u64
  using unat_add_u64 [of x 1] by (auto simp: word_less_nat_alt)

text \<open>After a call of the queue: the segments \<open>vol\<close> are still there, and a receipt says where the record is.\<close>

definition enqueued :: "EngineEnv \<Rightarrow> CommitRequest \<Rightarrow> EngineCore \<Rightarrow> EngineCore \<Rightarrow> EngineError + CommitReceipt \<Rightarrow> volume \<Rightarrow> volume \<Rightarrow> log_rec list \<Rightarrow> bool" where
  "enqueued env req e e' r vol vol' rs' \<longleftrightarrow>
     engine_rep (en_crc env) e' vol' rs' \<and> quiet (en_crc env) 1 e e' \<and> ec_index e' = ec_index e \<and>
     set (seg_ids vol) \<subseteq> set (seg_ids vol') \<and>
     (\<forall>rc. r = Inr rc \<longrightarrow> rc_lsn rc = cq_next_lsn (ec_commit e) \<and> cq_next_lsn (ec_commit e') = cq_next_lsn (ec_commit e) + 1 \<and>
        placed (en_crc env) vol' (writer_id (sk_writer (ec_sink e'))) rs' (record_of req (rc_lsn rc)) (Inr (rc_placement rc)))"

lemma enq_rep:
  assumes "enq env req e = Some (e', r)" and rep: "engine_rep (en_crc env) e vol rs" and k: "affords e 0 1"
  shows "\<exists>vol' rs'. enqueued env req e e' r vol vol' rs'"
proof -
  obtain core sink r0 where call: "commit_enqueue env (ec_commit e) (ec_sink e) req = Some (core, sink, r0)"
      and e': "e' = e\<lparr>ec_commit := core, ec_sink := sink\<rparr>" and r: "r = map_err EeCommit r0"
    using assms(1) by (auto simp: enq_def)
  note C = commit_enqueue_called [OF call]
  let ?rec = "record_of req (cq_next_lsn (ec_commit e))"
  obtain res where g: "sink_grows (en_crc env) (ec_sink e) sink ?rec res"
      and res: "\<And>rc. r0 = Inr rc \<Longrightarrow> res = Inr (rc_placement rc) \<and> rc_lsn rc = cq_next_lsn (ec_commit e) \<and>
        cq_next_lsn core = cq_next_lsn (ec_commit e) + 1"
      and lsn: "cq_next_lsn core \<in> {cq_next_lsn (ec_commit e), cq_next_lsn (ec_commit e) + 1}"
    using C by (cases r0) (auto simp: called_def)
  have room: "unat (cq_next_lsn (ec_commit e)) + 1 < 2 ^ 64" using k by (simp add: affords_def)
  obtain vol' rs' pad where gr: "grown (en_crc env) (ec_sink e) vol rs sink ?rec res vol' rs' pad"
    using rep by (auto simp: engine_rep_def intro: sink_growsD [OF g])
  note keep = entry_at_grown [OF gr]
  have sink': "sink_inv (en_crc env) sink vol' rs'" "set (seg_ids vol) \<subseteq> set (seg_ids vol')"
      "placed (en_crc env) vol' (writer_id (sk_writer sink)) rs' ?rec res"
    using gr by (simp_all add: grown_def)
  have "located (en_crc env) vol' (writer_id (sk_writer sink)) rs' (ec_index e)"
    using rep keep unfolding engine_rep_def located_def by blast
  moreover have "last_lsn (ec_index e) < cq_next_lsn core"
    using rep lsn less_next_lsn(1) [OF _ room] by (auto simp: engine_rep_def)
  ultimately have rep': "engine_rep (en_crc env) e' vol' rs'"
    using rep sink'(1) by (simp add: e' engine_rep_def)
  have "contents (en_crc env) e' = contents (en_crc env) e"
    using keep by (intro ext contents_same [OF rep rep']) (auto simp: e')
  then have "quiet (en_crc env) 1 e e'"
    using rep' lsn room by (auto simp: quiet_def engine_inv_def spends_def e' less_next_lsn(2))
  then have "enqueued env req e e' r vol vol' rs'"
    using rep' sink'(2,3) res r by (cases r0) (auto simp: e' enqueued_def)
  then show ?thesis by blast
qed

lemma eng_simps [simp]:
  "eret x e = Some (e, Inr x)" "efail y e = Some (e, Inl y)" "eget f e = Some (e, Inr (f e))" "eput g e = Some (g e, Inr ())"
  by (simp_all add: eret_def efail_def eget_def eput_def)

lemma ebind_simps:
  "m e = None \<Longrightarrow> ebind m f e = None" "m e = Some (e1, Inl x) \<Longrightarrow> ebind m f e = Some (e1, Inl x)"
  "m e = Some (e1, Inr a) \<Longrightarrow> ebind m f e = f a e1"
  by (simp_all add: ebind_def)

lemma ebind_get [simp]: "ebind (eget g) f e = f (g e) e" "ebind (eput h) f' e = f' () (h e)"
  by (simp_all add: ebind_def)

lemma ebind_SomeE:
  assumes "ebind m f e = Some (e', r)"
  obtains (err) x where "m e = Some (e', Inl x)" "r = Inl x"
    | (ok) e1 a where "m e = Some (e1, Inr a)" "f a e1 = Some (e', r)"
  using assms by (auto simp: ebind_def split: option.splits prod.splits sum.splits)

lemma lookup_view: "lookup idx n = fst (view idx n)"
  by (simp add: lookup_def view_sel)

lemma in_log_ok:
  assumes "sink_inv c s vol rs" and "in_log c vol (writer_id (sk_writer s)) rs sid off r"
  shows "rec_ok r"
  using assms(2) unfolding in_log_def
proof (elim disjE exE conjE)
  fix h rs0 z assume "(h, rs0, z) \<in> set vol" "rec_frame c off r \<in> set (frames_of c SEG_HEADER_SIZE rs0)"
  then show ?thesis using assms(1) rec_frame_split [of c off r SEG_HEADER_SIZE rs0] by (fastforce simp: sink_inv_def on_disk_def)
next
  assume "rec_frame c off r \<in> set (frames_of c SEG_HEADER_SIZE rs)"
  then show ?thesis using assms(1) rec_frame_split [of c off r SEG_HEADER_SIZE rs] by (auto simp: sink_inv_def writer_inv_def)
qed

text \<open>A change of the index alone.\<close>

lemma index_rep:
  assumes "engine_rep c e vol rs" and "index_inv idx" and "last_lsn idx < cq_next_lsn (ec_commit e)"
    and "located c vol (writer_id (sk_writer (ec_sink e))) rs idx"
  shows "engine_rep c (e\<lparr>ec_index := idx\<rparr>) vol rs"
  using assms by (simp add: engine_rep_def)

lemma above_last:
  assumes "index_inv idx" and "last_lsn idx < lsn"
  shows "\<not> mark_ge lsn (view idx n)" "\<not> live_ge lsn (view idx n)" "\<not> tomb_ge lsn (view idx n)"
proof -
  have "ne_version_lsn x < lsn" if "hm_get (needles idx) n = Some x" for x
    using assms that by (meson index_inv_def lsn_ok_def order_le_less_trans)
  moreover have "te_version_lsn x < lsn" if "hm_get (tombstones idx) n = Some x" for x
    using assms that by (meson index_inv_def lsn_ok_def order_le_less_trans)
  moreover have "x < lsn" if "hm_get (purged idx) n = Some x" for x
    using assms that by (meson index_inv_def lsn_ok_def order_le_less_trans)
  ultimately show "\<not> mark_ge lsn (view idx n)" "\<not> live_ge lsn (view idx n)" "\<not> tomb_ge lsn (view idx n)"
    by (auto simp: mark_ge_def live_ge_def tomb_ge_def view_def leD)
qed

lemma op_rep:
  assumes rep: "engine_rep c e vol rs" and lsn: "op_lsn op < cq_next_lsn (ec_commit e)"
    and room: "has_room (ec_index e) (op_len op)"
    and new: "\<forall>n. fst (view_step op (view (ec_index e) (op_id op))) = Some n \<longrightarrow>
      (\<exists>d. entry_at c vol (writer_id (sk_writer (ec_sink e))) rs n d)"
    and e': "e' = e\<lparr>ec_index := op_step op (ec_index e)\<rparr>"
  shows "engine_rep c e' vol rs" and "nid \<noteq> op_id op \<Longrightarrow> contents c e' nid = contents c e nid" and "spends (op_len op) 1 e e'"
proof -
  note I = op_step_inv [OF _ room]
  have inv: "index_inv (ec_index e)" using rep by (simp add: engine_rep_def)
  show rep': "engine_rep c e' vol rs"
    unfolding e'
  proof (rule index_rep [OF rep])
    show "index_inv (op_step op (ec_index e))" using I inv by blast
    show "last_lsn (op_step op (ec_index e)) < cq_next_lsn (ec_commit e)"
      using lsn rep by (simp add: op_step_cursor engine_rep_def)
    show "located c vol (writer_id (sk_writer (ec_sink e))) rs (op_step op (ec_index e))"
      using new rep by (auto simp: located_def lookup_view view_op_step engine_rep_def split: if_splits)
  qed
  show "contents c e' nid = contents c e nid" if "nid \<noteq> op_id op"
    by (rule contents_same [OF rep rep']) (use that in \<open>simp_all add: e' lookup_view view_op_step\<close>)
  show "spends (op_len op) 1 e e'" using I inv by (auto simp: spends_def grows_def e')
qed

text \<open>The entry that goes with a receipt.\<close>

definition entry_of :: "u64 \<Rightarrow> CommitReceipt \<Rightarrow> bytes \<Rightarrow> i64 \<Rightarrow> u32 \<Rightarrow> NeedleEntry" where
  "entry_of nid rc data now fl =
     \<lparr>ne_needle_id = nid, ne_seg_id = pl_seg_id (rc_placement rc), ne_offset = pl_offset (rc_placement rc) + of_nat FRAME_HEADER_SIZE,
      ne_data_len = of_nat (length data), ne_crc = pl_crc (rc_placement rc), ne_version_lsn = rc_lsn rc,
      ne_created_at = now, ne_flags = fl\<rparr>"

lemma offset_plus_header: "unat off < 2 ^ 32 \<Longrightarrow> unat (off + 26 :: u64) = unat off + 26"
  using unat_add_u64 [of off 26] by simp

lemma entry_of_data:
  assumes "sink_inv c s vol rs"
    and "placed c vol (writer_id (sk_writer s)) rs (Data, 0, rc_lsn rc, DataPayload_encode \<lparr>dp_needle_id = nid, dp_data = data\<rparr>)
      (Inr (rc_placement rc))"
  shows "entry_at c vol (writer_id (sk_writer s)) rs (entry_of nid rc data now 0) data" and "length data < 2 ^ 32"
proof -
  let ?pl = "DataPayload_encode \<lparr>dp_needle_id = nid, dp_data = data\<rparr>" and ?p = "rc_placement rc"
  have P: "in_log c vol (writer_id (sk_writer s)) rs (pl_seg_id ?p) (unat (pl_offset ?p)) (Data, 0, rc_lsn rc, ?pl)"
    "unat (pl_offset ?p) < 2 ^ 32" "pl_crc ?p = rec_crc c (Data, 0, rc_lsn rc, ?pl)"
    using assms(2) unfolding placed_def by blast+
  show len: "length data < 2 ^ 32"
    using in_log_ok [OF assms(1) P(1)] by (simp add: DataPayload_encode_def)
  show "entry_at c vol (writer_id (sk_writer s)) rs (entry_of nid rc data now 0) data"
    unfolding entry_at_def
    by (intro exI [of _ "unat (pl_offset ?p)"] exI [of _ ?pl])
      (use P len in \<open>simp add: entry_of_def entry_rtype_def entry_header_len_def offset_plus_header DataPayload_encode_def\<close>)
qed

lemma entry_of_migrate:
  assumes "sink_inv c s vol rs"
    and "placed c vol (writer_id (sk_writer s)) rs
      (GcMigrate, 0, rc_lsn rc, GcMigratePayload_encode \<lparr>gm_needle_id = nid, gm_expect_version = v, gm_data = data\<rparr>) (Inr (rc_placement rc))"
  shows "entry_at c vol (writer_id (sk_writer s)) rs (entry_of nid rc data now NEEDLE_FLAG_MIGRATED) data" and "length data < 2 ^ 32"
proof -
  let ?pl = "GcMigratePayload_encode \<lparr>gm_needle_id = nid, gm_expect_version = v, gm_data = data\<rparr>" and ?p = "rc_placement rc"
  have P: "in_log c vol (writer_id (sk_writer s)) rs (pl_seg_id ?p) (unat (pl_offset ?p)) (GcMigrate, 0, rc_lsn rc, ?pl)"
    "unat (pl_offset ?p) < 2 ^ 32" "pl_crc ?p = rec_crc c (GcMigrate, 0, rc_lsn rc, ?pl)"
    using assms(2) unfolding placed_def by blast+
  show len: "length data < 2 ^ 32"
    using in_log_ok [OF assms(1) P(1)] by (simp add: GcMigratePayload_encode_def)
  show "entry_at c vol (writer_id (sk_writer s)) rs (entry_of nid rc data now NEEDLE_FLAG_MIGRATED) data"
    unfolding entry_at_def
    by (intro exI [of _ "unat (pl_offset ?p)"] exI [of _ ?pl])
      (use P len in \<open>simp add: entry_of_def entry_rtype_def entry_header_len_def offset_plus_header GcMigratePayload_encode_def\<close>)
qed

lemma record_of_request [simp]:
  "record_of (CommitRequest_new t pl) lsn = (t, 0, lsn, pl)" "record_of (strict req) lsn = record_of req lsn"
  "record_of (in_mode m req) lsn = record_of req lsn"
  "record_of (write_request nid data m) lsn = (Data, 0, lsn, DataPayload_encode \<lparr>dp_needle_id = nid, dp_data = data\<rparr>)"
  by (auto simp: record_of_def CommitRequest_new_def strict_def in_mode_def write_request_def split: CommitMode.split)

text \<open>What an operation leaves behind: the invariant, the contents \<open>m\<close>, the configuration, and what it used up.\<close>

definition written :: "(bytes \<Rightarrow> u32) \<Rightarrow> nat \<Rightarrow> nat \<Rightarrow> EngineCore \<Rightarrow> EngineCore \<Rightarrow> (u64 \<Rightarrow> bytes option) \<Rightarrow> bool" where
  "written c n k e e' m \<longleftrightarrow> engine_inv c e' \<and> contents c e' = m \<and> spends n k e e' \<and> ec_config e' = ec_config e"

lemma quiet_written: "quiet c k e e' \<longleftrightarrow> written c 0 k e e' (contents c e)"
  by (auto simp: quiet_def written_def)

lemma written_mono: "written c n k e e' m \<Longrightarrow> n \<le> n' \<Longrightarrow> k \<le> k' \<Longrightarrow> written c n' k' e e' m"
  by (auto simp: written_def intro: spends_mono)

lemma written_refl: "engine_inv c e \<Longrightarrow> written c n k e e (contents c e)"
  by (simp add: written_def spends_def)

lemma logged_live:
  assumes "engine_rep c e' vol rs" and "fst (view (ec_index e') nid) = Some n" and "entry_at c vol (writer_id (sk_writer (ec_sink e'))) rs n d"
  shows "contents c e' nid = Some d"
  using assms contents_at [OF assms(1)] by (auto simp: lookup_view)

lemma logged_dead:
  "fst (view (ec_index e') nid) = None \<Longrightarrow> contents c e' nid = None"
  by (simp add: contents_def read_attempt_def lookup_view)

text \<open>A record is logged, then applied to the index: the contents change for its needle only, to what the new view of
  the needle points at.\<close>

definition shows_as :: "(bytes \<Rightarrow> u32) \<Rightarrow> EngineCore \<Rightarrow> volume \<Rightarrow> u64 \<Rightarrow> log_rec list \<Rightarrow> index_op \<Rightarrow> bytes option \<Rightarrow> bool" where
  "shows_as c e vol wid rs op D \<longleftrightarrow>
     (case fst (view_step op (view (ec_index e) (op_id op))) of
        None \<Rightarrow> D = None
      | Some n \<Rightarrow> lookup (ec_index e) (op_id op) = Some n \<and> D = contents c e (op_id op) \<or> (\<exists>d. D = Some d \<and> entry_at c vol wid rs n d))"

lemma logged_op:
  assumes run: "enq env req e = Some (e1, Inr rc)" and inv: "engine_inv (en_crc env) e" and k: "affords e (op_len op) 1"
    and op: "op_lsn op = rc_lsn rc"
    and new: "\<And>vol' rs'. sink_inv (en_crc env) (ec_sink e1) vol' rs' \<Longrightarrow> rc_lsn rc = cq_next_lsn (ec_commit e) \<Longrightarrow>
      placed (en_crc env) vol' (writer_id (sk_writer (ec_sink e1))) rs' (record_of req (rc_lsn rc)) (Inr (rc_placement rc)) \<Longrightarrow>
      shows_as (en_crc env) e vol' (writer_id (sk_writer (ec_sink e1))) rs' op D"
  shows "written (en_crc env) (op_len op) 1 e (e1\<lparr>ec_index := op_step op (ec_index e1)\<rparr>) ((contents (en_crc env) e)(op_id op := D))"
proof -
  let ?c = "en_crc env" and ?n = "op_id op"
  define e' where "e' = e1\<lparr>ec_index := op_step op (ec_index e1)\<rparr>"
  obtain vol rs where rep: "engine_rep ?c e vol rs" using inv by (auto simp: engine_inv_def)
  have k1: "affords e 0 1" using k by (rule affords_mono) simp_all
  obtain vol' rs' where E: "enqueued env req e e1 (Inr rc) vol vol' rs'" using enq_rep [OF run rep k1] by blast
  then have rep1: "engine_rep ?c e1 vol' rs'" and q: "quiet ?c 1 e e1" and ix: "ec_index e1 = ec_index e"
      and R: "rc_lsn rc = cq_next_lsn (ec_commit e) \<and> cq_next_lsn (ec_commit e1) = cq_next_lsn (ec_commit e) + 1 \<and>
        placed ?c vol' (writer_id (sk_writer (ec_sink e1))) rs' (record_of req (rc_lsn rc)) (Inr (rc_placement rc))"
    unfolding enqueued_def by blast+
  have next1: "unat (cq_next_lsn (ec_commit e1)) = unat (cq_next_lsn (ec_commit e)) + 1"
    using k R less_next_lsn(2) by (simp add: affords_def)
  then have lsn: "op_lsn op < cq_next_lsn (ec_commit e1)" using R by (simp add: word_less_nat_alt op)
  have room: "has_room (ec_index e1) (op_len op)" using k by (simp add: has_room_def ix affords_def)
  have s1: "sink_inv ?c (ec_sink e1) vol' rs'" using rep1 by (simp add: engine_rep_def)
  have D: "shows_as ?c e vol' (writer_id (sk_writer (ec_sink e1))) rs' op D" using new [OF s1] R by blast
  have "\<forall>n. fst (view_step op (view (ec_index e1) ?n)) = Some n \<longrightarrow>
      (\<exists>d. entry_at ?c vol' (writer_id (sk_writer (ec_sink e1))) rs' n d)"
    using D rep1 by (auto simp: ix engine_rep_def located_def shows_as_def)
  note O = op_rep [OF rep1 lsn room this e'_def]
  have snk: "ec_sink e' = ec_sink e1" by (simp add: e'_def)
  have view: "view (ec_index e') ?n = view_step op (view (ec_index e) ?n)" by (simp add: e'_def ix view_op_step)
  have "contents ?c e' ?n = D"
  proof (cases "fst (view_step op (view (ec_index e) ?n))")
    case None
    with D view show ?thesis by (simp add: shows_as_def logged_dead)
  next
    case (Some n)
    from D Some consider "lookup (ec_index e') ?n = lookup (ec_index e1) ?n" "D = contents ?c e ?n"
      | d where "D = Some d" "entry_at ?c vol' (writer_id (sk_writer (ec_sink e'))) rs' n d"
      using view by (auto simp: shows_as_def lookup_view ix e'_def)
    then show ?thesis
    proof cases
      case 1
      have "contents ?c e' ?n = contents ?c e1 ?n" by (rule contents_same [OF rep1 O(1) _ 1(1)]) (simp add: snk)
      with 1 q show ?thesis by (simp add: quiet_def)
    next
      case 2
      with logged_live [OF O(1)] view Some show ?thesis by simp
    qed
  qed
  moreover have "contents ?c e' x = contents ?c e x" if "x \<noteq> ?n" for x using O(2) [OF that] q by (simp add: quiet_def)
  moreover have "spends (op_len op) 1 e e'" using O(3) next1 by (simp add: spends_def e'_def ix)
  ultimately show ?thesis using O(1) q by (auto simp: written_def engine_inv_def quiet_def e'_def)
qed

lemma enq_failed:
  assumes "enq env req e = Some (e', Inl x)" and "engine_inv (en_crc env) e" and "affords e n 1"
  shows "written (en_crc env) n 1 e e' (contents (en_crc env) e)"
proof -
  obtain vol rs where rep: "engine_rep (en_crc env) e vol rs" using assms(2) by (auto simp: engine_inv_def)
  have "quiet (en_crc env) 1 e e'"
    using enq_rep [OF assms(1) rep affords_mono [OF assms(3)]] by (auto simp: enqueued_def)
  then show ?thesis by (simp add: quiet_written written_mono)
qed

lemma enq_placed:
  assumes "enq env req e = Some (e1, Inr rc)" and "engine_inv (en_crc env) e" and "affords e n 1"
  obtains vol rs where "sink_inv (en_crc env) (ec_sink e1) vol rs"
    "placed (en_crc env) vol (writer_id (sk_writer (ec_sink e1))) rs (record_of req (rc_lsn rc)) (Inr (rc_placement rc))"
proof -
  obtain vol rs where rep: "engine_rep (en_crc env) e vol rs" using assms(2) by (auto simp: engine_inv_def)
  obtain vol' rs' where E: "enqueued env req e e1 (Inr rc) vol vol' rs'"
    using enq_rep [OF assms(1) rep affords_mono [OF assms(3)]] by auto
  show thesis by (rule that [of vol' rs']) (use E in \<open>auto simp: enqueued_def engine_rep_def\<close>)
qed

text \<open>A write that succeeds adds the data; one that fails leaves the contents alone.\<close>

lemma write_logged:
  assumes logged: "enq env (write_request nid data m) e = Some (e1, Inr rc)" "write_apply env nid data rc e1 = Some (e', r)"
    and inv: "engine_inv (en_crc env) e" and k: "affords e (length data) 1"
  shows "written (en_crc env) (length data) 1 e e' ((contents (en_crc env) e)(nid \<mapsto> data))" and "r = Inr rc"
proof -
  let ?c = "en_crc env" and ?op = "OData (entry_of nid rc data (en_now env) 0)"
  have len: "length data < 2 ^ 32"
    by (rule enq_placed [OF logged(1) inv k]) (drule entry_of_data(2), simp_all)
  have e': "e' = e1\<lparr>ec_index := op_step ?op (ec_index e1)\<rparr>" and r: "r = Inr rc"
    using logged(2) len by (auto simp: write_apply_def ebind_def with_index_def apply_data_encode entry_of_def)
  show "r = Inr rc" by (rule r)
  have op: "op_id ?op = nid" "op_len ?op = length data" "op_lsn ?op = rc_lsn rc" using len by (simp_all add: entry_of_def)
  have "written ?c (op_len ?op) 1 e (e1\<lparr>ec_index := op_step ?op (ec_index e1)\<rparr>) ((contents ?c e)(op_id ?op := Some data))"
  proof (rule logged_op [OF logged(1) inv _ op(3)])
    show "affords e (op_len ?op) 1" unfolding op by (rule k)
    fix vol' rs' assume S: "sink_inv ?c (ec_sink e1) vol' rs'" "rc_lsn rc = cq_next_lsn (ec_commit e)"
      "placed ?c vol' (writer_id (sk_writer (ec_sink e1))) rs' (record_of (write_request nid data m) (rc_lsn rc)) (Inr (rc_placement rc))"
    have "view_step ?op (view (ec_index e) nid) = (Some (entry_of nid rc data (en_now env) 0), None, None)"
      using above_last [of "ec_index e" "rc_lsn rc" nid] inv S(2) by (auto simp: entry_of_def engine_rep_def engine_inv_def)
    with entry_of_data(1) [OF S(1)] S(3) show "shows_as ?c e vol' (writer_id (sk_writer (ec_sink e1))) rs' ?op (Some data)"
      unfolding shows_as_def op by (auto simp del: view_step.simps)
  qed
  then show "written ?c (length data) 1 e e' ((contents ?c e)(nid \<mapsto> data))" unfolding op e' .
qed

lemma engine_write_effect:
  assumes run: "engine_write env nid data m e = Some (e', r)" and inv: "engine_inv (en_crc env) e" and k: "affords e (length data) 1"
  shows "written (en_crc env) (length data) 1 e e'
    (case r of Inl _ \<Rightarrow> contents (en_crc env) e | Inr _ \<Rightarrow> (contents (en_crc env) e)(nid \<mapsto> data))"
proof -
  have admit: "e0 = e" if "write_admit nid data e = Some (e0, x)" for e0 x
    using that by (auto simp: write_admit_def Let_def split: if_splits)
  consider (refused) x where "e' = e" "r = Inl x"
    | (failed) x where "enq env (write_request nid data m) e = Some (e', Inl x)" "r = Inl x"
    | (logged) e1 rc where "enq env (write_request nid data m) e = Some (e1, Inr rc)" "write_apply env nid data rc e1 = Some (e', r)"
    using run unfolding engine_write_def by (elim ebind_SomeE) (auto dest: admit)
  then show ?thesis
  proof cases
    case refused
    with inv show ?thesis by (simp add: written_def spends_def)
  next
    case failed
    with enq_failed [OF failed(1) inv k] show ?thesis by simp
  next
    case logged
    with write_logged [OF logged inv k] show ?thesis by simp
  qed
qed

lemma enq_cases:
  obtains "enq env req e = None" | e1 x where "enq env req e = Some (e1, Inl x)" | e1 rc where "enq env req e = Some (e1, Inr rc)"
  by (metis old.prod.exhaust option.exhaust sum.exhaust)

lemma engine_delete_effect:
  assumes run: "engine_delete env nid m e = Some (e', r)" and inv: "engine_inv (en_crc env) e" and k: "affords e 0 1"
  shows "written (en_crc env) 0 1 e e'
    (case r of Inl _ \<Rightarrow> contents (en_crc env) e | Inr _ \<Rightarrow> (contents (en_crc env) e)(nid := None))"
proof -
  let ?c = "en_crc env"
  define buf where "buf = DeletePayload_encode \<lparr>del_needle_id = nid, del_deleted_at = en_now env,
    del_retention_until = en_now env + we_tombstone_retention_secs (ec_config e)\<rparr>"
  consider (refused) x where "e' = e" "r = Inl x"
    | (failed) x where "enq env (in_mode m (CommitRequest_new Delete buf)) e = Some (e', Inl x)" "r = Inl x"
    | (logged) e1 rc where "enq env (in_mode m (CommitRequest_new Delete buf)) e = Some (e1, Inr rc)" "r = Inr rc"
        "e' = e1\<lparr>ec_index := op_step (ODelete (rc_lsn rc) nid (en_now env) (en_now env + we_tombstone_retention_secs (ec_config e))) (ec_index e1)\<rparr>"
    using run unfolding engine_delete_def Let_def ebind_get buf_def [symmetric]
    by (cases rule: enq_cases [of env "in_mode m (CommitRequest_new Delete buf)" e])
      (auto simp: ebind_simps ebind_def with_index_def buf_def apply_delete_encode split: if_splits)
  then show ?thesis
  proof cases
    case refused
    with inv show ?thesis by (simp add: written_refl)
  next
    case failed
    with enq_failed [OF failed(1) inv k] show ?thesis by simp
  next
    case logged
    let ?op = "ODelete (rc_lsn rc) nid (en_now env) (en_now env + we_tombstone_retention_secs (ec_config e))"
    have "written ?c (op_len ?op) 1 e (e1\<lparr>ec_index := op_step ?op (ec_index e1)\<rparr>) ((contents ?c e)(op_id ?op := None))"
    proof (rule logged_op [OF logged(1) inv])
      fix vol' rs' assume "rc_lsn rc = cq_next_lsn (ec_commit e)"
      then show "shows_as ?c e vol' (writer_id (sk_writer (ec_sink e1))) rs' ?op None"
        using inv above_last [of "ec_index e" "rc_lsn rc" nid]
        by (auto simp: shows_as_def engine_inv_def engine_rep_def split: option.split)
    qed (use k in simp_all)
    then show ?thesis by (simp add: logged)
  qed
qed

lemma purge_write_quiet:
  assumes run: "purge_write env nid dl e = Some (e', r)" and inv: "engine_inv (en_crc env) e" and k: "affords e 0 1"
  shows "quiet (en_crc env) 1 e e'"
proof -
  let ?c = "en_crc env" and ?req = "strict (CommitRequest_new TombPurge (u64_le nid @ u64_le dl))"
  consider (failed) x where "enq env ?req e = Some (e', Inl x)"
    | (logged) e1 rc where "enq env ?req e = Some (e1, Inr rc)" "e' = e1\<lparr>ec_index := op_step (OPurge (rc_lsn rc) nid) (ec_index e1)\<rparr>"
    using run unfolding purge_write_def Let_def
    by (cases rule: enq_cases [of env ?req e]) (auto simp: ebind_simps ebind_def with_index_def apply_tomb_purge_encode)
  then show ?thesis
  proof cases
    case failed
    with enq_failed [OF failed inv k] show ?thesis by (simp add: quiet_written)
  next
    case logged
    let ?op = "OPurge (rc_lsn rc) nid"
    have "written ?c (op_len ?op) 1 e (e1\<lparr>ec_index := op_step ?op (ec_index e1)\<rparr>) ((contents ?c e)(op_id ?op := contents ?c e nid))"
    proof (rule logged_op [OF logged(1) inv])
      fix vol' rs'
      show "shows_as ?c e vol' (writer_id (sk_writer (ec_sink e1))) rs' ?op (contents ?c e nid)"
        by (auto simp: shows_as_def lookup_view logged_dead split: option.split)
    qed (use k in simp_all)
    then show ?thesis by (simp add: logged quiet_written)
  qed
qed

text \<open>Moving a needle's data rewrites its entry or leaves it alone.\<close>

abbreviation migrate_request :: "u64 \<Rightarrow> u64 \<Rightarrow> bytes \<Rightarrow> CommitRequest" where
  "migrate_request nid v data \<equiv>
     CommitRequest_new GcMigrate (GcMigratePayload_encode \<lparr>gm_needle_id = nid, gm_expect_version = v, gm_data = data\<rparr>)"

lemma migrate_write_cases:
  assumes run: "migrate_write env nid v data e = Some (e', r)" and inv: "engine_inv (en_crc env) e" and k: "affords e (length data) 1"
  obtains (refused) x where "e' = e" "r = Inl x"
    | (failed) x where "enq env (migrate_request nid v data) e = Some (e', Inl x)" "r = Inl x"
    | (logged) e1 rc where "enq env (migrate_request nid v data) e = Some (e1, Inr rc)" "length data < 2 ^ 32"
        "e' = e1\<lparr>ec_index := op_step (OMigrate (entry_of nid rc data (en_now env) NEEDLE_FLAG_MIGRATED) v) (ec_index e)\<rparr>"
        "r = Inr (rc, snd (migrate_effect (entry_of nid rc data (en_now env) NEEDLE_FLAG_MIGRATED) v (ec_index e)))"
proof -
  let ?req = "migrate_request nid v data"
  define buf where "buf = GcMigratePayload_encode \<lparr>gm_needle_id = nid, gm_expect_version = v, gm_data = data\<rparr>"
  consider x where "e' = e" "r = Inl x" | x where "enq env ?req e = Some (e', Inl x)" "r = Inl x"
    | e1 rc where "enq env ?req e = Some (e1, Inr rc)"
        "ebind (with_index (\<lambda>idx. apply_gc_migrate idx (pl_seg_id (rc_placement rc)) (pl_offset (rc_placement rc))
           (pl_crc (rc_placement rc)) (rc_lsn rc) buf (en_now env))) (\<lambda>applied. eret (rc, applied)) e1 = Some (e', r)"
    using run unfolding migrate_write_def Let_def ebind_get buf_def [symmetric]
    by (cases rule: enq_cases [of env "CommitRequest_new GcMigrate buf" e]) (auto simp: ebind_simps split: if_splits)
  then show thesis
  proof cases
    case (3 e1 rc)
    have len: "length data < 2 ^ 32"
      by (rule enq_placed [OF 3(1) inv k]) (drule entry_of_migrate(2), simp_all)
    have "ec_index e1 = ec_index e" using 3(1) by (auto simp: enq_def)
    with 3(2) len show thesis
      by (intro logged [OF 3(1) len])
        (auto simp: ebind_def with_index_def buf_def apply_gc_migrate_encode entry_of_def split: prod.splits)
  qed (use refused failed in blast)+
qed

lemma migrate_write_effect:
  assumes run: "migrate_write env nid v data e = Some (e', r)" and inv: "engine_inv (en_crc env) e" and k: "affords e (length data) 1"
  shows "written (en_crc env) (length data) 1 e e'
    (case r of Inr (_, True) \<Rightarrow> (contents (en_crc env) e)(nid \<mapsto> data) | _ \<Rightarrow> contents (en_crc env) e)"
  using run inv k
proof (cases rule: migrate_write_cases)
  case refused
  with inv show ?thesis by (simp add: written_refl)
next
  case failed
  with enq_failed [OF failed(1) inv k] show ?thesis by simp
next
  case (logged e1 rc)
  let ?c = "en_crc env" and ?ent = "entry_of nid rc data (en_now env) NEEDLE_FLAG_MIGRATED"
  let ?op = "OMigrate ?ent v" and ?applied = "snd (migrate_effect ?ent v (ec_index e))"
  have ix: "ec_index e1 = ec_index e" using logged(1) by (auto simp: enq_def)
  have op: "op_id ?op = nid" "op_len ?op = length data" "op_lsn ?op = rc_lsn rc" using logged(2) by (simp_all add: entry_of_def)
  have "written ?c (op_len ?op) 1 e (e1\<lparr>ec_index := op_step ?op (ec_index e1)\<rparr>)
      ((contents ?c e)(op_id ?op := if ?applied then Some data else contents ?c e nid))"
  proof (rule logged_op [OF logged(1) inv _ op(3)])
    show "affords e (op_len ?op) 1" unfolding op by (rule k)
    fix vol' rs' assume "sink_inv ?c (ec_sink e1) vol' rs'" "placed ?c vol' (writer_id (sk_writer (ec_sink e1))) rs'
      (record_of (migrate_request nid v data) (rc_lsn rc)) (Inr (rc_placement rc))"
    then have "entry_at ?c vol' (writer_id (sk_writer (ec_sink e1))) rs' ?ent data"
      by (intro entry_of_migrate(1)) simp_all
    then show "shows_as ?c e vol' (writer_id (sk_writer (ec_sink e1))) rs' ?op (if ?applied then Some data else contents ?c e nid)"
      unfolding shows_as_def op
      by (cases "view (ec_index e) nid")
        (auto simp: migrate_effect_def view_sel lookup_view mark_ge_def entry_of_def Let_def logged_dead split: option.splits)
  qed
  then show ?thesis unfolding op logged(3,4) ix by (cases ?applied) simp_all
qed

text \<open>Operations that leave the contents alone, and their composition.\<close>

definition quiet_op :: "(bytes \<Rightarrow> u32) \<Rightarrow> nat \<Rightarrow> 'a eng \<Rightarrow> bool" where
  "quiet_op c k m \<longleftrightarrow> (\<forall>e e' r. engine_inv c e \<longrightarrow> affords e 0 k \<longrightarrow> m e = Some (e', r) \<longrightarrow> quiet c k e e')"

lemma quiet_opD: "quiet_op c k m \<Longrightarrow> m e = Some (e', r) \<Longrightarrow> engine_inv c e \<Longrightarrow> affords e 0 k \<Longrightarrow> quiet c k e e'"
  by (simp add: quiet_op_def)

lemma quiet_mono: "quiet c k e e' \<Longrightarrow> k \<le> k' \<Longrightarrow> quiet c k' e e'"
  by (auto simp: quiet_def intro: spends_mono)

lemma quiet_affords: "quiet c k e e' \<Longrightarrow> affords e 0 (k + k') \<Longrightarrow> affords e' 0 k'"
  using spends_affords [of 0 k e e' 0 k'] by (simp add: quiet_def)

lemma quiet_op_bind:
  assumes "quiet_op c k m" and "\<And>a. quiet_op c k' (f a)"
  shows "quiet_op c (k + k') (ebind m f)"
  unfolding quiet_op_def
proof (intro allI impI)
  fix e e' r assume inv: "engine_inv c e" and aff: "affords e 0 (k + k')" and run: "ebind m f e = Some (e', r)"
  have k: "affords e 0 k" using aff by (rule affords_mono) simp_all
  from run show "quiet c (k + k') e e'"
  proof (cases rule: ebind_SomeE)
    case (err x)
    then show ?thesis using quiet_opD [OF assms(1) _ inv k] by (auto intro: quiet_mono)
  next
    case (ok e1 a)
    then have q: "quiet c k e e1" using quiet_opD [OF assms(1) _ inv k] by blast
    have "quiet c k' e1 e'"
      using quiet_opD [OF assms(2) ok(2)] quiet_affords [OF q aff] q by (simp add: quiet_def)
    with q show ?thesis by (rule quiet_trans)
  qed
qed

lemma quiet_op_ret [simp]: "quiet_op c k (eret x)" "quiet_op c k (efail y)" "quiet_op c k (eget g)"
  by (auto simp: quiet_op_def intro: quiet_refl)

lemma quiet_op_put:
  assumes "\<And>e. ec_sink (f e) = ec_sink e \<and> ec_commit (f e) = ec_commit e \<and> ec_index (f e) = ec_index e \<and> ec_config (f e) = ec_config e"
  shows "quiet_op c k (eput f)"
  using assms by (auto simp: quiet_op_def quiet_def engine_inv_def engine_rep_def contents_def spends_def)

text \<open>A directory that differs in files other than segments.\<close>

lemma put_dir_quiet:
  assumes "\<And>sid. hm_get dir (seg_file_name sid) = hm_get (ec_dir e) (seg_file_name sid)" and "engine_inv c e"
  shows "quiet c k e (put_dir dir e)"
proof -
  obtain vol rs where rep: "engine_rep c e vol rs" using assms(2) by (auto simp: engine_inv_def)
  have rep': "engine_rep c (put_dir dir e) vol rs"
    using rep assms(1) by (auto simp: engine_rep_def put_dir_def sink_inv_def on_disk_def)
  have "contents c (put_dir dir e) x = contents c e x" for x
    by (rule contents_same [OF rep rep']) (simp_all add: put_dir_def)
  with rep' show ?thesis by (auto simp: quiet_def engine_inv_def put_dir_def spends_def)
qed

section \<open>Checkpoints and resizing leave the contents alone\<close>

lemma not_seg_name [simp]:
  "seg_file_name sid \<noteq> ckpt_file_name q" "seg_file_name sid \<noteq> ckpt_file_name q @ ''.tmp''"
  "seg_file_name sid \<noteq> ''superblock.a''" "seg_file_name sid \<noteq> ''superblock.b''"
  "seg_file_name sid \<noteq> ''superblock.a.tmp''" "seg_file_name sid \<noteq> ''superblock.b.tmp''" "seg_file_name sid \<noteq> ''volume.lock''"
  by (simp_all add: seg_file_name_def ckpt_file_name_def)

lemma sb_store_segs: "sb_store c dir sb = Some dir' \<Longrightarrow> hm_get dir' (seg_file_name sid) = hm_get dir (seg_file_name sid)"
  by (auto simp: sb_store_def store_target_def Let_def split: option.splits if_splits)

lemma ckpt_write_segs: "ckpt_write c dir d = Inr dir' \<Longrightarrow> hm_get dir' (seg_file_name sid) = hm_get dir (seg_file_name sid)"
  by (auto simp: ckpt_write_def Let_def split: option.splits)

lemma store_superblock_quiet: "quiet_op c k (store_superblock env latest)"
  unfolding quiet_op_def
proof (intro allI impI)
  fix e e' r assume inv: "engine_inv c e" and run: "store_superblock env latest e = Some (e', r)"
  define e1 where "e1 = e\<lparr>ec_sb_seq := ec_sb_seq e + 1\<rparr>"
  obtain dir where dir: "e' = put_dir dir e1" "\<And>sid. hm_get dir (seg_file_name sid) = hm_get (ec_dir e1) (seg_file_name sid)"
    using run sb_store_segs by (auto simp: store_superblock_def Let_def e1_def) 
  have q: "quiet c 0 e e1"
    using quiet_op_put [of "\<lambda>e. e\<lparr>ec_sb_seq := ec_sb_seq e + 1\<rparr>" c 0] inv
    by (auto simp: quiet_op_def e1_def affords_def engine_inv_def engine_rep_def contents_def quiet_def spends_def)
  then have "engine_inv c e1" by (simp add: quiet_def)
  from quiet_trans [OF q put_dir_quiet [OF dir(2) this]] show "quiet c k e e'" by (simp add: dir(1))
qed

lemma write_ckpt_quiet: "quiet_op c k (write_ckpt env data)"
  unfolding quiet_op_def
proof (intro allI impI)
  fix e e' r assume inv: "engine_inv c e" and run: "write_ckpt env data e = Some (e', r)"
  show "quiet c k e e'"
  proof (cases "ckpt_write (en_crc env) (ec_dir e) data")
    case (Inl x)
    with run inv show ?thesis by (auto simp: write_ckpt_def intro: quiet_refl)
  next
    case (Inr dir)
    with run inv ckpt_write_segs [OF Inr] show ?thesis by (auto simp: write_ckpt_def intro: put_dir_quiet)
  qed
qed

lemma flush_sel:
  assumes "flush l e = Some (e', r)"
  obtains core s where "e' = e\<lparr>ec_commit := core, ec_sink := s\<rparr>" "cq_next_lsn core = cq_next_lsn (ec_commit e)"
    "s = ec_sink e \<or> s = (ec_sink e)\<lparr>sk_synced := sw_write_pos (sk_writer (ec_sink e))\<rparr>"
proof -
  obtain core s q where call: "commit_flush (ec_commit e) (ec_sink e) 0 l = Some (core, s, q)" "e' = e\<lparr>ec_commit := core, ec_sink := s\<rparr>"
    using assms by (auto simp: flush_def)
  obtain core1 o1 where fb: "flush_barrier (ec_commit e) 0 l = (core1, o1)" by fastforce
  have core1: "cq_next_lsn core1 = cq_next_lsn (ec_commit e)"
    using fb by (auto simp: flush_barrier_def wait_for_durable_def Let_def split: if_splits)
  obtain core2 s2 where w: "worker_round core1 (ec_sink e) = (core2, s2)" by fastforce
  show thesis
    by (rule that [OF call(2)])
      (use call(1) fb core1 w worker_round_sel [OF w] in \<open>auto simp: commit_flush_def deregister_def Let_def split: option.splits\<close>)
qed

lemma flush_quiet: "quiet_op c k (flush l)"
  unfolding quiet_op_def
proof (intro allI impI)
  fix e e' r assume inv: "engine_inv c e" and run: "flush l e = Some (e', r)"
  obtain vol rs where rep: "engine_rep c e vol rs" using inv by (auto simp: engine_inv_def)
  from run obtain core s where e': "e' = e\<lparr>ec_commit := core, ec_sink := s\<rparr>" "cq_next_lsn core = cq_next_lsn (ec_commit e)"
    and s: "s = ec_sink e \<or> s = (ec_sink e)\<lparr>sk_synced := sw_write_pos (sk_writer (ec_sink e))\<rparr>" by (rule flush_sel)
  have rep': "engine_rep c e' vol rs"
    using rep s by (auto simp: engine_rep_def e' sink_inv_def writer_inv_def)
  have "contents c e' x = contents c e x" for x
    by (rule contents_same [OF rep rep']) (use s in \<open>auto simp: e'\<close>)
  with rep' show "quiet c k e e'" by (auto simp: quiet_def engine_inv_def spends_def e')
qed

text \<open>Records that say nothing about needles.\<close>

definition meta_change :: "u64 \<Rightarrow> WalIndex \<Rightarrow> WalIndex \<Rightarrow> bool" where
  "meta_change lsn idx idx' \<longleftrightarrow>
     needles idx' = needles idx \<and> tombstones idx' = tombstones idx \<and> dead_copies idx' = dead_copies idx \<and>
     stats idx' = stats idx \<and> purged idx' = purged idx \<and> max_needle_id idx' = max_needle_id idx \<and>
     last_lsn idx' = max lsn (last_lsn idx)"

lemma meta_inv: "meta_change lsn idx idx' \<Longrightarrow> index_inv idx \<Longrightarrow> index_inv idx'"
  by (auto simp: meta_change_def index_inv_def index_wf_def stats_ok_def lsn_ok_def le_max_iff_disj)

lemma meta_quiet:
  assumes "engine_inv c e" and "meta_change lsn (ec_index e) idx" and "lsn < cq_next_lsn (ec_commit e)"
  shows "quiet c k e (e\<lparr>ec_index := idx\<rparr>)"
proof -
  obtain vol rs where rep: "engine_rep c e vol rs" using assms(1) by (auto simp: engine_inv_def)
  have rep': "engine_rep c (e\<lparr>ec_index := idx\<rparr>) vol rs"
    using rep assms(2,3) meta_inv [OF assms(2)]
    by (intro index_rep) (auto simp: engine_rep_def located_def lookup_def meta_change_def)
  have "contents c (e\<lparr>ec_index := idx\<rparr>) x = contents c e x" for x
    by (rule contents_same [OF rep rep']) (use assms(2) in \<open>simp_all add: lookup_def meta_change_def\<close>)
  with rep' assms(2) show ?thesis
    by (auto simp: quiet_def engine_inv_def spends_def meta_change_def index_bytes_def index_count_def)
qed

lemma enq_meta_quiet:
  assumes F: "\<And>idx lsn. \<exists>idx' a. F idx lsn = Inr (idx', a) \<and> meta_change lsn idx idx'"
    and g: "\<And>rc a. quiet_op (en_crc env) k (g rc a)"
  shows "quiet_op (en_crc env) (1 + k) (ebind (enq env req) (\<lambda>rc. ebind (with_index (\<lambda>idx. F idx (rc_lsn rc))) (g rc)))"
  unfolding quiet_op_def
proof (intro allI impI)
  fix e e' r assume inv: "engine_inv (en_crc env) e" and aff: "affords e 0 (1 + k)"
    and run: "ebind (enq env req) (\<lambda>rc. ebind (with_index (\<lambda>idx. F idx (rc_lsn rc))) (g rc)) e = Some (e', r)"
  have k1: "affords e 0 1" using aff by (rule affords_mono) simp_all
  obtain vol rs where rep: "engine_rep (en_crc env) e vol rs" using inv by (auto simp: engine_inv_def)
  from run show "quiet (en_crc env) (1 + k) e e'"
  proof (cases rule: ebind_SomeE)
    case (err x)
    then show ?thesis using enq_rep [OF err(1) rep k1] by (auto simp: enqueued_def intro: quiet_mono)
  next
    case (ok e1 rc)
    have q: "quiet (en_crc env) 1 e e1"
      and lsn: "rc_lsn rc = cq_next_lsn (ec_commit e)" "cq_next_lsn (ec_commit e1) = cq_next_lsn (ec_commit e) + 1"
      using enq_rep [OF ok(1) rep k1] by (auto simp: enqueued_def)
    have "rc_lsn rc < cq_next_lsn (ec_commit e1)"
      using k1 less_next_lsn(2) [of "cq_next_lsn (ec_commit e)"] by (simp add: lsn affords_def word_less_nat_alt)
    moreover obtain idx' a where F1: "F (ec_index e1) (rc_lsn rc) = Inr (idx', a)" "meta_change (rc_lsn rc) (ec_index e1) idx'"
      using F by blast
    ultimately have q2: "quiet (en_crc env) 0 e1 (e1\<lparr>ec_index := idx'\<rparr>)" using q by (intro meta_quiet) (auto simp: quiet_def)
    have q3: "quiet (en_crc env) 1 e (e1\<lparr>ec_index := idx'\<rparr>)" using quiet_trans [OF q q2] by simp
    have "g rc a (e1\<lparr>ec_index := idx'\<rparr>) = Some (e', r)" using ok(2) by (simp add: ebind_def with_index_def F1)
    from quiet_opD [OF g this] quiet_affords [OF q3 aff] q2 have "quiet (en_crc env) k (e1\<lparr>ec_index := idx'\<rparr>) e'"
      by (simp add: quiet_def)
    with q3 show ?thesis by (rule quiet_trans)
  qed
qed

lemma checkpoint_quiet: "quiet_op (en_crc env) 1 (checkpoint_impl env)"
proof -
  have anchor: "meta_change lsn idx (apply_ckpt_anchor idx q a lsn)" for lsn idx q a
    by (auto simp: meta_change_def apply_ckpt_anchor_def Let_def)
  have tail: "quiet_op (en_crc env) (1 + 0) (ebind (enq env req) (\<lambda>receipt.
     ebind (with_index (\<lambda>idx. Inr (apply_ckpt_anchor idx q a (rc_lsn receipt), ()))) (\<lambda>_. g receipt)))"
    if "\<And>rc. quiet_op (en_crc env) 0 (g rc)" for req q a g
    using anchor that by (intro enq_meta_quiet [where F = "\<lambda>idx lsn. Inr (apply_ckpt_anchor idx q a lsn, ())" and g = "\<lambda>rc _. g rc"]) auto
  have 0: "quiet_op (en_crc env) 1 m" if "quiet_op (en_crc env) (1 + 0) m" for m :: "'x eng" using that by simp
  have 1: "quiet_op (en_crc env) 1 m" if "quiet_op (en_crc env) (0 + 1) m" for m :: "'x eng" using that by simp
  have 2: "quiet_op (en_crc env) 0 m" if "quiet_op (en_crc env) (0 + 0) m" for m :: "'x eng" using that by simp
  show ?thesis
    unfolding checkpoint_impl_def split_def
    by (rule 1, rule quiet_op_bind, simp, rule 1, rule quiet_op_bind, rule quiet_op_put, simp,
        rule 1, rule quiet_op_bind, simp, rule 1, rule quiet_op_bind, rule flush_quiet,
        rule 1, rule quiet_op_bind, rule write_ckpt_quiet, rule 0, rule tail, rule 2, rule quiet_op_bind, rule store_superblock_quiet,
        rule 2, rule quiet_op_bind, rule quiet_op_put, simp, simp)
qed

lemma resize_quiet: "quiet_op (en_crc env) 1 (resize_impl env sz)"
proof -
  have meta: "meta_change lsn idx (bump_lsn lsn (idx\<lparr>volume_size := sz\<rparr>))" for lsn idx
    by (simp add: meta_change_def)
  have "quiet_op (en_crc env) (1 + 0) (ebind (enq env req) (\<lambda>receipt.
     ebind (with_index (\<lambda>idx. apply_volume_meta idx (rc_lsn receipt) (VolumeMetaPayload_volume_size sz))) (\<lambda>_.
     ebind (eget ec_last_ckpt_seq) (\<lambda>latest. ebind (store_superblock env latest) (\<lambda>_. eret receipt)))))" for req
    using quiet_op_bind [OF quiet_op_ret(3) quiet_op_bind [OF store_superblock_quiet quiet_op_ret(1)], of "en_crc env" 0 0 0]
    by (intro enq_meta_quiet [where F = "\<lambda>idx lsn. apply_volume_meta idx lsn (VolumeMetaPayload_volume_size sz)"])
      (auto simp: apply_volume_meta_encode meta)
  then have "quiet_op (en_crc env) 1 (if sz < required then efail (EeResizeTooSmall sz required) else
       ebind (enq env (strict (CommitRequest_new VolumeMeta (VolumeMetaPayload_volume_size sz)))) (\<lambda>receipt.
       ebind (with_index (\<lambda>idx. apply_volume_meta idx (rc_lsn receipt) (VolumeMetaPayload_volume_size sz))) (\<lambda>_.
       ebind (eget ec_last_ckpt_seq) (\<lambda>latest. ebind (store_superblock env latest) (\<lambda>_. eret receipt)))))" for required
    by simp
  from quiet_op_bind [OF quiet_op_ret(3) this, where k = 0] show ?thesis unfolding resize_impl_def Let_def by simp
qed

lemma ckpt_tick_quiet: "quiet_op (en_crc env) 1 (ckpt_tick env)"
  using checkpoint_quiet [of env] by (auto simp: quiet_op_def ckpt_tick_def intro: quiet_refl split: if_splits)

end
