(* ===== verification/Wal_Gc.thy ===== *)
theory Wal_Gc
  imports Wal_Engine
begin

text \<open>
  Segment collection (\<^verbatim>\<open>powerfs-core/src/wal/gc.rs\<close>): purging expired tombstones, moving live needles out of
  segments with much dead data, and deleting segments without live data. The lemmas show that a collection cycle
  never changes what a volume holds; with the client's operations this makes the engine an implementation of a
  plain map from needle ids to data. Rate limiting only delays and is left out.
\<close>

section \<open>The cycle\<close>

record GcOutcome =
  go_purged :: nat
  go_segments_deleted :: nat
  go_migrated_needles :: nat
  go_migrated_bytes :: u64
  go_reclaimed_bytes :: u64

definition outcome_zero :: GcOutcome where
  "outcome_zero = \<lparr>go_purged = 0, go_segments_deleted = 0, go_migrated_needles = 0, go_migrated_bytes = 0, go_reclaimed_bytes = 0\<rparr>"

definition min_base_lsn :: "SegManifest \<Rightarrow> u64 option" where
  "min_base_lsn m = (if mf_entries m = [] then None else Some (Min (set (map sg_base_lsn (mf_entries m)))))"

definition gc_prune_markers :: "unit eng" where
  "gc_prune_markers e =
     (case min_base_lsn (sk_manifest (ec_sink e)) of
        None \<Rightarrow> Some (e, Inr ())
      | Some l \<Rightarrow> Some (e\<lparr>ec_index := fst (prune_purge_markers (ec_index e) l)\<rparr>, Inr ()))"

primrec purge_all :: "EngineEnv \<Rightarrow> (u64 \<times> u64) list \<Rightarrow> GcOutcome \<Rightarrow> GcOutcome eng" where
  "purge_all env [] out = eret out"
| "purge_all env (x # xs) out =
     ebind (purge_write env (fst x) (snd x)) (\<lambda>_. purge_all env xs (out\<lparr>go_purged := go_purged out + 1\<rparr>))"

definition seg_buckets :: "WalIndex \<Rightarrow> u64 \<Rightarrow> u64 \<times> u64 \<times> u64" where
  "seg_buckets idx sid = (case hm_get (per_seg_bytes idx) sid of Some b \<Rightarrow> b | None \<Rightarrow> (0, 0, 0))"

definition is_candidate :: "GcConfig \<Rightarrow> WalIndex \<Rightarrow> SegEntry \<Rightarrow> bool" where
  "is_candidate cfg idx entry =
     (let (live, staging, dead) = seg_buckets idx (sg_seg_id entry) in
      sg_state entry \<noteq> StActive \<and>
      (live = 0 \<and> staging = 0 \<or> live > 0 \<and> gc_exceeds cfg dead live \<and> dead \<ge> gc_min_bytes cfg))"

definition gc_candidates :: "GcConfig \<Rightarrow> EngineCore \<Rightarrow> u64 list" where
  "gc_candidates cfg e =
     map sg_seg_id (filter (is_candidate cfg (ec_index e)) (mf_entries (sk_manifest (ec_sink e))))"

definition read_data_at :: "EngineEnv \<Rightarrow> EngineCore \<Rightarrow> NeedleEntry \<Rightarrow> EngineError + bytes" where
  "read_data_at env e n =
     (case hm_get (ec_dir e) (seg_file_name (ne_seg_id n)) of
        None \<Rightarrow> Inl EeIo
      | Some f \<Rightarrow>
          (let off = unat (ne_offset n); payload_len = entry_header_len n + unat (ne_data_len n) in
           if length f < off + payload_len then Inl EeIo
           else
             (let payload = subslice off (off + payload_len) f in
              if we_verify_on_read (ec_config e) \<and>
                 compute_frame_crc (en_crc env) (to_u8 (entry_rtype n)) 0 (ne_version_lsn n) payload \<noteq> ne_crc n
              then Inl (EeReadCorrupt (ne_needle_id n))
              else Inr (drop (entry_header_len n) payload))))"

primrec migrate_each :: "EngineEnv \<Rightarrow> NeedleEntry list \<Rightarrow> u64 \<Rightarrow> GcOutcome \<Rightarrow> (u64 \<times> GcOutcome) eng" where
  "migrate_each env [] max_lsn out = eret (max_lsn, out)"
| "migrate_each env (n # ns) max_lsn out =
     ebind (eget (\<lambda>e. read_data_at env e n)) (\<lambda>rd.
       case rd of
         Inl x \<Rightarrow> efail x
       | Inr data \<Rightarrow>
           ebind (migrate_write env (ne_needle_id n) (ne_version_lsn n) data) (\<lambda>(receipt, applied).
             migrate_each env ns (max max_lsn (rc_lsn receipt))
               (if applied
                then out\<lparr>go_migrated_needles := go_migrated_needles out + 1,
                         go_migrated_bytes := go_migrated_bytes out + of_nat (length data)\<rparr>
                else out)))"

definition seg_needles :: "WalIndex \<Rightarrow> u64 \<Rightarrow> NeedleEntry list" where
  "seg_needles idx sid = sort_key ne_needle_id (filter (\<lambda>n. ne_seg_id n = sid) (hm_values (needles idx)))"

definition migrate_segment :: "EngineEnv \<Rightarrow> u64 \<Rightarrow> GcOutcome \<Rightarrow> GcOutcome eng" where
  "migrate_segment env sid out =
     ebind (eget (\<lambda>e. seg_needles (ec_index e) sid)) (\<lambda>ns.
       if ns = [] then eret out
       else
         ebind (migrate_each env ns 0 out) (\<lambda>(max_lsn, out').
         ebind (flush max_lsn) (\<lambda>_.
         eret out')))"

definition deletable :: "EngineCore \<Rightarrow> u64 \<Rightarrow> bool" where
  "deletable e sid =
     (case find (\<lambda>entry. sg_seg_id entry = sid) (mf_entries (sk_manifest (ec_sink e))) of
        None \<Rightarrow> False
      | Some entry \<Rightarrow>
          sg_state entry \<noteq> StActive \<and>
          (let (live, staging, _) = seg_buckets (ec_index e) sid in live = 0 \<and> staging = 0))"

definition delete_if_dead :: "u64 \<Rightarrow> GcOutcome \<Rightarrow> GcOutcome eng" where
  "delete_if_dead sid out e =
     (if \<not> deletable e sid then Some (e, Inr out)
      else if hm_get (ec_dir e) (seg_file_name sid) = None then Some (e, Inl EeIo)
      else
        (let e1 = put_dir (hm_remove (seg_file_name sid) (ec_dir e)) e;
             (idx, reclaimed) = remove_seg_garbage (ec_index e1) sid;
             m = fst (mf_remove (sk_manifest (ec_sink e1)) sid)
         in Some (e1\<lparr>ec_index := idx, ec_sink := (ec_sink e1)\<lparr>sk_manifest := m\<rparr>\<rparr>,
              Inr (out\<lparr>go_segments_deleted := go_segments_deleted out + 1,
                       go_reclaimed_bytes := go_reclaimed_bytes out + reclaimed\<rparr>))))"

primrec collect_each :: "EngineEnv \<Rightarrow> u64 list \<Rightarrow> GcOutcome \<Rightarrow> GcOutcome eng" where
  "collect_each env [] out = eret out"
| "collect_each env (sid # sids) out =
     ebind (migrate_segment env sid out) (\<lambda>out1.
     ebind (delete_if_dead sid out1) (\<lambda>out2.
     collect_each env sids out2))"

definition run_gc_cycle :: "EngineEnv \<Rightarrow> GcConfig \<Rightarrow> GcOutcome eng" where
  "run_gc_cycle env cfg =
     ebind gc_prune_markers (\<lambda>_.
     ebind (eget (\<lambda>e. map (\<lambda>tb. (te_needle_id tb, te_version_lsn tb)) (expired_tombstones (ec_index e) (en_now env)))) (\<lambda>expired.
     ebind (purge_all env expired outcome_zero) (\<lambda>out.
     ebind (eget (gc_candidates cfg)) (\<lambda>candidates.
     collect_each env candidates out))))"

text \<open>One round of the background thread; a failure is only logged.\<close>

definition gc_tick :: "EngineEnv \<Rightarrow> unit eng" where
  "gc_tick env e =
     (if ec_stop e then Some (e, Inr ())
      else map_option (\<lambda>(e', _). (e', Inr ())) (run_gc_cycle env (we_gc (ec_config e)) e))"

section \<open>A cycle keeps the contents\<close>

abbreviation kept :: "(bytes \<Rightarrow> u32) \<Rightarrow> nat \<Rightarrow> nat \<Rightarrow> EngineCore \<Rightarrow> EngineCore \<Rightarrow> bool" where
  "kept c n k e e' \<equiv> written c n k e e' (contents c e)"

lemma kept_trans: "kept c n k e e1 \<Longrightarrow> kept c n' k' e1 e2 \<Longrightarrow> kept c (n + n') (k + k') e e2"
  by (auto simp: written_def intro: spends_trans)

lemma kept_affords: "written c n k e e1 m \<Longrightarrow> affords e (n + n') (k + k') \<Longrightarrow> affords e1 n' k'"
  by (auto simp: written_def intro: spends_affords)

lemma quiet_kept: "quiet c k e e' \<Longrightarrow> kept c n k e e'"
  unfolding quiet_written by (erule written_mono) simp_all

lemma prune_quiet:
  assumes "gc_prune_markers e = Some (e', r)" and "engine_inv c e"
  shows "quiet c k e e'"
proof (cases "min_base_lsn (sk_manifest (ec_sink e))")
  case None
  with assms show ?thesis by (auto simp: gc_prune_markers_def intro: quiet_refl)
next
  case (Some l)
  obtain vol rs where rep: "engine_rep c e vol rs" using assms(2) by (auto simp: engine_inv_def)
  let ?idx = "fst (prune_purge_markers (ec_index e) l)"
  have e': "e' = e\<lparr>ec_index := ?idx\<rparr>" using assms(1) Some by (simp add: gc_prune_markers_def)
  have sel: "needles ?idx = needles (ec_index e)" "tombstones ?idx = tombstones (ec_index e)"
    "dead_copies ?idx = dead_copies (ec_index e)" "last_lsn ?idx = last_lsn (ec_index e)"
    by (simp_all add: prune_purge_markers_def Let_def)
  have rep': "engine_rep c e' vol rs"
    unfolding e' using rep sel by (intro index_rep) (auto simp: engine_rep_def prune_purge_markers_inv located_def lookup_def)
  have "contents c e' x = contents c e x" for x
    by (rule contents_same [OF rep rep']) (use sel in \<open>simp_all add: e' lookup_def\<close>)
  with rep' sel show ?thesis
    by (auto simp: quiet_def engine_inv_def spends_def e' index_bytes_def index_count_def)
qed

lemma purge_all_kept:
  "purge_all env xs out e = Some (e', r) \<Longrightarrow> engine_inv (en_crc env) e \<Longrightarrow> affords e 0 (length xs) \<Longrightarrow> quiet (en_crc env) (length xs) e e'"
proof (induction xs arbitrary: out e)
  case Nil
  then show ?case by (simp add: quiet_refl)
next
  case (Cons x xs)
  have k: "affords e 0 1" "affords e 0 (1 + length xs)" using Cons.prems(3) affords_mono by auto
  from Cons.prems(1) [simplified] show ?case
  proof (cases rule: ebind_SomeE)
    case (err y)
    from purge_write_quiet [OF err(1) Cons.prems(2) k(1)] show ?thesis by (rule quiet_mono) simp
  next
    case (ok e1 u)
    note q = purge_write_quiet [OF ok(1) Cons.prems(2) k(1)]
    from Cons.IH [OF ok(2) _ quiet_affords [OF q k(2)]] q have "quiet (en_crc env) (length xs) e1 e'" by (simp add: quiet_def)
    from quiet_trans [OF q this] show ?thesis by simp
  qed
qed

text \<open>The data read for a live entry is what the volume holds.\<close>

lemma read_data_at_contents:
  assumes "engine_inv (en_crc env) e" and "lookup (ec_index e) nid = Some n" and "read_data_at env e n = Inr data"
  shows "contents (en_crc env) e nid = Some data"
proof -
  obtain vol rs where rep: "engine_rep (en_crc env) e vol rs" using assms(1) by (auto simp: engine_inv_def)
  then obtain d where d: "entry_at (en_crc env) vol (writer_id (sk_writer (ec_sink e))) rs n d"
    using assms(2) by (auto simp: engine_rep_def located_def)
  have "read_attempt (en_crc env) True (ec_index e) (ec_dir e) nid = RdDone (Inr d)"
    using rep by (intro read_attempt_at [OF _ assms(2) d]) (simp add: engine_rep_def)
  moreover from this have "data = d"
    using assms(2,3) by (auto simp: read_attempt_def read_data_at_def Let_def split: option.splits if_splits)
  ultimately show ?thesis by (simp add: contents_def)
qed

lemma read_data_at_length:
  "read_data_at env e n = Inr data \<Longrightarrow> length data = unat (ne_data_len n)"
  by (auto simp: read_data_at_def Let_def split: option.splits if_splits)

text \<open>A segment that is no longer written to, and the effect of moving needles \<open>X\<close> out of segments \<open>S\<close>.\<close>

definition sealed_seg :: "EngineCore \<Rightarrow> u64 \<Rightarrow> bool" where
  "sealed_seg e sid \<longleftrightarrow>
     sid \<in> set (map sg_seg_id (mf_entries (sk_manifest (ec_sink e)))) \<and> sid \<noteq> writer_id (sk_writer (ec_sink e))"

definition moved :: "u64 set \<Rightarrow> EngineCore \<Rightarrow> EngineCore \<Rightarrow> u64 set \<Rightarrow> bool" where
  "moved S e e' X \<longleftrightarrow>
     (\<forall>s\<in>S. sealed_seg e' s) \<and>
     (\<forall>x. if x \<in> X then (\<exists>n. lookup (ec_index e') x = Some n \<and> ne_seg_id n \<notin> S)
          else lookup (ec_index e') x = lookup (ec_index e) x)"

lemma sealed_rep: "engine_rep c e vol rs \<Longrightarrow> sealed_seg e sid \<longleftrightarrow> sid \<in> set (seg_ids vol)"
  by (auto simp: engine_rep_def sink_inv_def sealed_seg_def simp del: set_map)

lemma enqueued_sealed:
  "enqueued env req e e' r vol vol' rs' \<Longrightarrow> engine_rep (en_crc env) e vol rs \<Longrightarrow> sealed_seg e sid \<Longrightarrow> sealed_seg e' sid"
  by (auto simp: enqueued_def sealed_rep)

lemma moved_trans: "moved S e e1 X \<Longrightarrow> moved S e1 e2 Y \<Longrightarrow> moved S e e2 (X \<union> Y)"
  by (auto simp: moved_def split: if_splits)

lemma migrate_write_moved:
  assumes run: "migrate_write env nid (ne_version_lsn n) data e = Some (e', Inr ra)" and inv: "engine_inv (en_crc env) e"
    and k: "affords e (length data) 1" and live: "lookup (ec_index e) nid = Some n"
    and S: "\<forall>s\<in>S. sealed_seg e s"
  shows "moved S e e' {nid}"
  using run inv k
proof (cases rule: migrate_write_cases)
  case (logged e1 rc)
  let ?ent = "entry_of nid rc data (en_now env) NEEDLE_FLAG_MIGRATED"
  obtain vol rs where rep: "engine_rep (en_crc env) e vol rs" using inv by (auto simp: engine_inv_def)
  obtain vol' rs' where E: "enqueued env (migrate_request nid (ne_version_lsn n) data) e e1 (Inr rc) vol vol' rs'"
    using enq_rep [OF logged(1) rep affords_mono [OF k]] by auto
  have sealed: "sealed_seg e1 s" if "s \<in> S" for s using enqueued_sealed [OF E rep] S that by blast
  have sid: "ne_seg_id ?ent \<notin> S"
    using E sealed by (auto simp: enqueued_def placed_def entry_of_def sealed_seg_def)
  have mark: "\<not> mark_ge (rc_lsn rc) (view (ec_index e) nid)" "fst (snd (view (ec_index e) nid)) = None"
    using above_last [of "ec_index e" "rc_lsn rc" nid] rep E live
    by (auto simp: engine_rep_def enqueued_def index_inv_def index_wf_def lookup_def view_sel)
  have "lookup (op_step (OMigrate ?ent (ne_version_lsn n)) (ec_index e)) x =
      (if x = nid then Some ?ent else lookup (ec_index e) x)" for x
    using mark live by (auto simp: lookup_view view_op_step entry_of_def simp del: op_step.simps)
  with sid sealed show ?thesis by (auto simp: moved_def logged sealed_seg_def)
qed simp_all

abbreviation lens :: "NeedleEntry list \<Rightarrow> nat" where
  "lens ns \<equiv> (\<Sum>n\<leftarrow>ns. unat (ne_data_len n))"

lemma migrate_each_kept:
  "migrate_each env ns max_lsn out e = Some (e', r) \<Longrightarrow> engine_inv (en_crc env) e \<Longrightarrow> affords e (lens ns) (length ns) \<Longrightarrow>
   \<forall>s\<in>S. sealed_seg e s \<Longrightarrow> distinct (map ne_needle_id ns) \<Longrightarrow>
   \<forall>n\<in>set ns. lookup (ec_index e) (ne_needle_id n) = Some n \<Longrightarrow>
   kept (en_crc env) (lens ns) (length ns) e e' \<and> (isl r \<or> moved S e e' (ne_needle_id ` set ns))"
proof (induction ns arbitrary: max_lsn out e)
  case Nil
  then show ?case by (auto simp: moved_def written_refl)
next
  case (Cons n ns)
  let ?c = "en_crc env" and ?id = "ne_needle_id n"
  show ?case
  proof (cases "read_data_at env e n")
    case (Inl x)
    with Cons.prems(1,2) show ?thesis by (auto simp: written_refl)
  next
    case (Inr data)
    have live: "lookup (ec_index e) ?id = Some n" using Cons.prems(6) by simp
    have d: "contents ?c e ?id = Some data" "length data = unat (ne_data_len n)"
      using read_data_at_contents [OF Cons.prems(2) live Inr] read_data_at_length [OF Inr] by simp_all
    have aff: "affords e (length data + lens ns) (1 + length ns)" using Cons.prems(3) by (simp add: d)
    have k: "affords e (length data) 1" using aff by (rule affords_mono) simp_all
    have same: "(contents ?c e)(?id \<mapsto> data) = contents ?c e" using d(1) by auto
    have kept1: "kept ?c (length data) 1 e e1" if "migrate_write env ?id (ne_version_lsn n) data e = Some (e1, r1)" for e1 r1
      using migrate_write_effect [OF that Cons.prems(2) k] same by (auto split: sum.splits prod.splits bool.splits)
    from Cons.prems(1) have "ebind (migrate_write env ?id (ne_version_lsn n) data) (\<lambda>(receipt, applied).
        migrate_each env ns (max max_lsn (rc_lsn receipt))
          (if applied then out\<lparr>go_migrated_needles := go_migrated_needles out + 1,
             go_migrated_bytes := go_migrated_bytes out + of_nat (length data)\<rparr> else out)) e = Some (e', r)"
      by (simp add: Inr)
    then show ?thesis
    proof (cases rule: ebind_SomeE)
      case (err x)
      from kept1 [OF err(1)] show ?thesis by (simp add: err(2) d(2)) (erule written_mono; simp)
    next
      case (ok e1 ra)
      note K = kept1 [OF ok(1)] and M = migrate_write_moved [OF ok(1) Cons.prems(2) k live Cons.prems(4)]
      obtain ml out1 where rest: "migrate_each env ns ml out1 e1 = Some (e', r)" using ok(2) by (cases ra) auto
      have inv1: "engine_inv ?c e1" using K by (simp add: written_def)
      have aff1: "affords e1 (lens ns) (length ns)" by (rule kept_affords [OF K aff])
      have "\<forall>m\<in>set ns. lookup (ec_index e1) (ne_needle_id m) = Some m"
      proof
        fix m assume m: "m \<in> set ns"
        then have "ne_needle_id m \<noteq> ?id" using Cons.prems(5) by (auto simp: image_iff)
        then show "lookup (ec_index e1) (ne_needle_id m) = Some m" using M Cons.prems(6) m by (simp add: moved_def)
      qed
      with Cons.IH [OF rest inv1 aff1] M Cons.prems(5)
      have "kept ?c (lens ns) (length ns) e1 e'" "isl r \<or> moved S e1 e' (ne_needle_id ` set ns)"
        by (auto simp: moved_def)
      with kept_trans [OF K this(1)] moved_trans [OF M] show ?thesis by (auto simp: d(2))
    qed
  qed
qed

text \<open>The needles that live in segments \<open>S\<close>, and their data.\<close>

definition in_segs :: "EngineCore \<Rightarrow> u64 set \<Rightarrow> u64 set" where
  "in_segs e S = {x. \<exists>n. lookup (ec_index e) x = Some n \<and> ne_seg_id n \<in> S}"

definition data_in :: "(bytes \<Rightarrow> u32) \<Rightarrow> EngineCore \<Rightarrow> u64 set \<Rightarrow> nat" where
  "data_in c e X = (\<Sum>x\<in>X. length (the (contents c e x)))"

lemma contents_len:
  assumes "engine_inv c e" and "lookup (ec_index e) x = Some n"
  shows "\<exists>d. contents c e x = Some d \<and> length d = unat (ne_data_len n)"
proof -
  obtain vol rs where rep: "engine_rep c e vol rs" using assms(1) by (auto simp: engine_inv_def)
  then obtain d where d: "entry_at c vol (writer_id (sk_writer (ec_sink e))) rs n d"
    using assms(2) by (auto simp: engine_rep_def located_def)
  then have "length d = unat (ne_data_len n)" by (auto simp: entry_at_def)
  with d contents_at [OF rep] assms(2) show ?thesis by blast
qed

lemma contents_none: "engine_inv c e \<Longrightarrow> contents c e x = None \<longleftrightarrow> lookup (ec_index e) x = None"
  using contents_len [of c e x] by (cases "lookup (ec_index e) x") (auto simp: contents_def read_attempt_def)

lemma contents_dom: "engine_inv c e \<Longrightarrow> dom (contents c e) = {x. lookup (ec_index e) x \<noteq> None}"
  by (simp add: dom_def contents_none)

lemma finite_contents: "engine_inv c e \<Longrightarrow> finite (dom (contents c e))"
  using finite_dom_map_of [of "needles (ec_index e)"] by (simp add: contents_dom lookup_def dom_def)

lemma in_segs_sub: "engine_inv c e \<Longrightarrow> in_segs e S \<subseteq> dom (contents c e)"
  by (auto simp: contents_dom in_segs_def)

lemma seg_needles_set:
  assumes "engine_inv c e"
  shows "n \<in> set (seg_needles (ec_index e) sid) \<longleftrightarrow> lookup (ec_index e) (ne_needle_id n) = Some n \<and> ne_seg_id n = sid"
    and "distinct (map ne_needle_id (seg_needles (ec_index e) sid))"
proof -
  have wf: "index_wf (ec_index e)" using assms by (auto simp: engine_inv_def engine_rep_def index_inv_def)
  have id: "hm_get (needles (ec_index e)) k = Some n \<Longrightarrow> ne_needle_id n = k" for k
    using wf by (simp add: index_wf_def)
  have hm: "hm_wf (needles (ec_index e))" using wf by (simp add: index_wf_def)
  have "n \<in> set (hm_values (needles (ec_index e))) \<longleftrightarrow> lookup (ec_index e) (ne_needle_id n) = Some n"
    unfolding hm_values_mem [OF hm] lookup_def using id by blast
  then show "n \<in> set (seg_needles (ec_index e) sid) \<longleftrightarrow> lookup (ec_index e) (ne_needle_id n) = Some n \<and> ne_seg_id n = sid"
    by (auto simp: seg_needles_def)
  have keys: "map ne_needle_id (hm_values (needles (ec_index e))) = map fst (needles (ec_index e))"
    using wf by (simp add: index_wf_def hm_wf_def o_def)
  have "distinct (map ne_needle_id (hm_values (needles (ec_index e))))"
    unfolding keys using wf by (simp add: index_wf_def hm_wf_def)
  from distinct_map_filter [OF this] show "distinct (map ne_needle_id (seg_needles (ec_index e) sid))"
    unfolding seg_needles_def distinct_map by (simp only: distinct_sort set_sort)
qed

lemma seg_needles_cost:
  assumes "engine_inv c e"
  shows "ne_needle_id ` set (seg_needles (ec_index e) sid) = in_segs e {sid}"
    and "lens (seg_needles (ec_index e) sid) = data_in c e (in_segs e {sid})"
    and "length (seg_needles (ec_index e) sid) = card (in_segs e {sid})"
proof -
  let ?ns = "seg_needles (ec_index e) sid"
  note N = seg_needles_set [OF assms, where sid = sid]
  have id: "lookup (ec_index e) x = Some n \<Longrightarrow> ne_needle_id n = x" for x n
    using assms by (auto simp: engine_inv_def engine_rep_def index_inv_def index_wf_def lookup_def)
  have "x \<in> in_segs e {sid} \<longleftrightarrow> x \<in> ne_needle_id ` set ?ns" for x
    unfolding in_segs_def image_iff Bex_def N(1) using id by blast
  then show S: "ne_needle_id ` set ?ns = in_segs e {sid}" by blast
  have "length (the (contents c e (ne_needle_id n))) = unat (ne_data_len n)" if "n \<in> set ?ns" for n
    using contents_len [OF assms] that by (fastforce simp: N(1))
  then have "lens ?ns = (\<Sum>x\<leftarrow>map ne_needle_id ?ns. length (the (contents c e x)))" by (simp add: o_def cong: map_cong)
  then show "lens ?ns = data_in c e (in_segs e {sid})"
    unfolding data_in_def sum_list_distinct_conv_sum_set [OF N(2)] by (simp add: S)
  show "length ?ns = card (in_segs e {sid})"
    using distinct_card [OF N(2)] by (simp flip: S)
qed

lemma flush_moved:
  assumes "flush l e = Some (e', r)" and "\<forall>s\<in>S. sealed_seg e s"
  shows "moved S e e' {}"
  using assms(1)
proof (rule flush_sel)
  fix core s assume "e' = e\<lparr>ec_commit := core, ec_sink := s\<rparr>"
    "s = ec_sink e \<or> s = (ec_sink e)\<lparr>sk_synced := sw_write_pos (sk_writer (ec_sink e))\<rparr>"
  with assms(2) show ?thesis by (auto simp: moved_def sealed_seg_def)
qed

lemma migrate_segment_kept:
  assumes run: "migrate_segment env sid out e = Some (e', r)" and inv: "engine_inv (en_crc env) e"
    and k: "affords e (data_in (en_crc env) e (in_segs e {sid})) (card (in_segs e {sid}))"
    and S: "\<forall>s\<in>S. sealed_seg e s"
  shows "kept (en_crc env) (data_in (en_crc env) e (in_segs e {sid})) (card (in_segs e {sid})) e e' \<and>
    (isl r \<or> moved S e e' (in_segs e {sid}))"
proof (cases "seg_needles (ec_index e) sid = []")
  case True
  then have "in_segs e {sid} = {}" using seg_needles_cost(1) [OF inv, of sid] by simp
  with True run inv S show ?thesis by (auto simp: migrate_segment_def written_refl moved_def)
next
  case False
  let ?c = "en_crc env" and ?ns = "seg_needles (ec_index e) sid"
  note N = seg_needles_set [OF inv, where sid = sid] and cost = seg_needles_cost [OF inv, where sid = sid]
  have each: "kept ?c (lens ?ns) (length ?ns) e e1 \<and> (isl r1 \<or> moved S e e1 (in_segs e {sid}))"
    if "migrate_each env ?ns 0 out e = Some (e1, r1)" for e1 r1
    unfolding cost(1) [symmetric] using N k S by (intro migrate_each_kept [OF that inv]) (simp_all add: cost(2,3))
  from run False consider (err) x where "migrate_each env ?ns 0 out e = Some (e', Inl x)" "r = Inl x"
    | (ok) e1 ml out1 r2 where "migrate_each env ?ns 0 out e = Some (e1, Inr (ml, out1))" "flush ml e1 = Some (e', r2)"
    by (auto simp: migrate_segment_def elim!: ebind_SomeE)
  then show ?thesis
  proof cases
    case err
    with each [OF err(1)] show ?thesis by (simp add: cost(2,3))
  next
    case ok
    have K: "kept ?c (lens ?ns) (length ?ns) e e1" and M: "moved S e e1 (in_segs e {sid})"
      using each [OF ok(1)] by simp_all
    have "affords e1 0 0" using kept_affords [OF K, of 0 0] k by (simp add: cost(2,3))
    with K have "kept ?c 0 0 e1 e'" by (intro quiet_kept quiet_opD [OF flush_quiet ok(2)]) (simp_all add: written_def)
    with kept_trans [OF K this] moved_trans [OF M flush_moved [OF ok(2)]] M show ?thesis
      by (simp add: cost(2,3) moved_def)
  qed
qed

lemma manifest_split:
  assumes "sink_inv c s vol rs"
  obtains es en where "mf_entries (sk_manifest s) = es @ [en]" "map sg_seg_id es = seg_ids vol"
    "sg_seg_id en = writer_id (sk_writer s)" "sg_state en = StActive" "writer_id (sk_writer s) \<notin> sg_seg_id ` set es"
proof (cases "mf_entries (sk_manifest s)" rule: rev_cases)
  case (snoc es en)
  with assms have "map sg_seg_id es = seg_ids vol" by (auto simp: sink_inv_def)
  then have "sg_seg_id ` set es = set (seg_ids vol)" by (simp flip: set_map)
  with snoc assms show thesis by (intro that [of es en]) (auto simp: sink_inv_def)
qed (use assms in \<open>simp add: sink_inv_def\<close>)

lemma deletable_sealed: "deletable e sid \<Longrightarrow> engine_inv c e \<Longrightarrow> sealed_seg e sid"
proof -
  assume del: "deletable e sid" and "engine_inv c e"
  then obtain vol rs where inv: "sink_inv c (ec_sink e) vol rs" by (auto simp: engine_inv_def engine_rep_def)
  let ?es = "mf_entries (sk_manifest (ec_sink e))"
  have find: "find P xs = Some x \<Longrightarrow> x \<in> set xs \<and> P x" for P xs and x :: SegEntry by (auto simp: find_Some_iff)
  obtain en where en: "en \<in> set ?es" "sg_seg_id en = sid" "sg_state en \<noteq> StActive"
    using del by (auto simp: deletable_def split: option.splits dest!: find)
  obtain es en' where es: "?es = es @ [en']" "sg_state en' = StActive" "writer_id (sk_writer (ec_sink e)) \<notin> sg_seg_id ` set es"
    using inv by (rule manifest_split)
  then have "sid \<in> sg_seg_id ` set es" using en by auto
  moreover from this es(3) have "sid \<noteq> writer_id (sk_writer (ec_sink e))" by blast
  ultimately show "sealed_seg e sid" by (simp add: sealed_seg_def es(1))
qed

lemma in_log_filter:
  "in_log c vol wid rs s off r \<Longrightarrow> s \<noteq> sid \<Longrightarrow> in_log c (filter (\<lambda>sg. sh_seg_id (fst sg) \<noteq> sid) vol) wid rs s off r"
  unfolding in_log_def by auto

lemma sink_without:
  assumes "sink_inv c s vol rs" and "sid \<noteq> writer_id (sk_writer s)"
  shows "sink_inv c (s\<lparr>sk_dir := hm_remove (seg_file_name sid) (sk_dir s), sk_manifest := fst (mf_remove (sk_manifest s) sid)\<rparr>)
    (filter (\<lambda>sg. sh_seg_id (fst sg) \<noteq> sid) vol) rs"
proof -
  let ?vol = "filter (\<lambda>sg. sh_seg_id (fst sg) \<noteq> sid) vol" and ?es = "mf_entries (sk_manifest s)"
  let ?ids = "filter (\<lambda>i. i \<noteq> sid) (seg_ids vol)"
  have ids: "seg_ids ?vol = ?ids" by (simp add: seg_ids_def filter_map o_def)
  obtain es en where es: "?es = es @ [en]" "map sg_seg_id es = seg_ids vol" "sg_seg_id en = writer_id (sk_writer s)" "sg_state en = StActive"
    using assms(1) by (rule manifest_split)
  have "map sg_seg_id (filter (\<lambda>en. sg_seg_id en \<noteq> sid) es) = ?ids"
    unfolding es(2) [symmetric] by (simp add: filter_map o_def)
  moreover have "\<forall>sg\<in>set ?vol. on_disk c (hm_remove (seg_file_name sid) (sk_dir s)) sg"
    using assms(1) by (auto simp: sink_inv_def on_disk_def)
  ultimately show ?thesis
    using assms es by (simp add: sink_inv_def ids mf_remove_def Let_def)
qed

lemma delete_if_dead_kept:
  assumes run: "delete_if_dead sid out e = Some (e', r)" and inv: "engine_inv c e" and k: "affords e 0 0" and dead: "in_segs e {sid} = {}"
  shows "kept c 0 0 e e' \<and> (\<forall>s. s \<noteq> sid \<longrightarrow> sealed_seg e s \<longrightarrow> sealed_seg e' s) \<and>
    (\<forall>x. lookup (ec_index e') x = lookup (ec_index e) x)"
proof (cases "deletable e sid \<and> hm_get (ec_dir e) (seg_file_name sid) \<noteq> None")
  case False
  with run inv show ?thesis by (auto simp: delete_if_dead_def written_refl split: if_splits)
next
  case True
  obtain vol rs where rep: "engine_rep c e vol rs" using inv by (auto simp: engine_inv_def)
  define idx where "idx = fst (remove_seg_garbage (ec_index e) sid)"
  define s' where "s' = (ec_sink e)\<lparr>sk_dir := hm_remove (seg_file_name sid) (ec_dir e), sk_manifest := fst (mf_remove (sk_manifest (ec_sink e)) sid)\<rparr>"
  have e': "e' = e\<lparr>ec_index := idx, ec_sink := s'\<rparr>"
    using run True by (auto simp: delete_if_dead_def put_dir_def idx_def s'_def Let_def split: prod.splits)
  have idx: "index_inv idx" "\<And>x. lookup idx x = lookup (ec_index e) x" "last_lsn idx = last_lsn (ec_index e)"
    "index_bytes idx \<le> index_bytes (ec_index e)" "index_count idx \<le> index_count (ec_index e)"
  proof -
    show "index_inv idx" using rep k unfolding idx_def by (intro remove_seg_garbage_inv) (simp_all add: engine_rep_def affords_def)
  qed (simp_all add: idx_def remove_seg_garbage_def Let_def lookup_def index_bytes_def index_count_def sum_list_filter_le_nat)
  let ?vol = "filter (\<lambda>sg. sh_seg_id (fst sg) \<noteq> sid) vol"
  have sid: "sid \<noteq> writer_id (sk_writer (ec_sink e))" using deletable_sealed [OF _ inv] True by (auto simp: sealed_seg_def)
  have keep: "entry_at c ?vol (writer_id (sk_writer s')) rs n d"
    if "entry_at c vol (writer_id (sk_writer (ec_sink e))) rs n d" "ne_seg_id n \<noteq> sid" for n d
    using that in_log_filter unfolding entry_at_def s'_def by fastforce
  have sink: "sink_inv c s' ?vol rs"
    using rep sid unfolding s'_def by (intro sink_without) (simp_all add: engine_rep_def)
  have seg: "ne_seg_id n \<noteq> sid" if "lookup (ec_index e) x = Some n" for x n
    using dead that by (auto simp: in_segs_def)
  have rep': "engine_rep c e' ?vol rs"
    using rep sink idx keep seg by (fastforce simp: engine_rep_def e' located_def)
  have "contents c e' x = contents c e x" for x
  proof (cases "contents c e x")
    case None
    then have "lookup (ec_index e') x = None" by (simp add: e' idx(2) contents_none [OF inv])
    with None show ?thesis by (simp add: contents_def read_attempt_def)
  next
    case (Some d)
    then obtain n where "lookup (ec_index e) x = Some n" "entry_at c vol (writer_id (sk_writer (ec_sink e))) rs n d"
      using contents_at [OF rep] by blast
    with seg keep idx(2) Some contents_at [OF rep', of x d] show ?thesis by (auto simp: e')
  qed
  then show ?thesis
    using rep' idx by (auto simp: written_def engine_inv_def e' spends_def sealed_seg_def s'_def mf_remove_def Let_def)
qed

lemma data_in_un:
  "engine_inv c e \<Longrightarrow> A \<subseteq> dom (contents c e) \<Longrightarrow> B \<subseteq> dom (contents c e) \<Longrightarrow> A \<inter> B = {} \<Longrightarrow>
   data_in c e (A \<union> B) = data_in c e A + data_in c e B \<and> card (A \<union> B) = card A + card B"
  using finite_contents [of c e] by (auto simp: data_in_def sum.union_disjoint card_Un_disjoint finite_subset)

lemma moved_segs:
  assumes "moved S e e1 (in_segs e {sid})" and "sid \<in> S" and "T \<subseteq> S - {sid}"
  shows "in_segs e1 {sid} = {}" and "in_segs e1 T = in_segs e T"
proof -
  have out: "\<nexists>n. lookup (ec_index e1) x = Some n \<and> ne_seg_id n \<in> S" if "x \<in> in_segs e {sid}" for x
  proof -
    have "\<exists>n. lookup (ec_index e1) x = Some n \<and> ne_seg_id n \<notin> S" using assms(1) that by (simp add: moved_def)
    then show ?thesis by auto
  qed
  have same: "lookup (ec_index e1) x = lookup (ec_index e) x" if "x \<notin> in_segs e {sid}" for x
    using assms(1) that by (simp add: moved_def)
  have "x \<notin> in_segs e1 {sid}" "x \<in> in_segs e1 T \<longleftrightarrow> x \<in> in_segs e T" for x
    using out [of x] same [of x] assms(2,3) by (cases "x \<in> in_segs e {sid}"; auto simp: in_segs_def)+
  then show "in_segs e1 {sid} = {}" "in_segs e1 T = in_segs e T" by blast+
qed

lemma written_data_in: "written c n k e e' (contents c e) \<Longrightarrow> data_in c e' X = data_in c e X"
  by (simp add: written_def data_in_def)

lemma collect_each_kept:
  "collect_each env sids out e = Some (e', r) \<Longrightarrow> engine_inv (en_crc env) e \<Longrightarrow> distinct sids \<Longrightarrow>
   \<forall>s\<in>set sids. sealed_seg e s \<Longrightarrow>
   affords e (data_in (en_crc env) e (in_segs e (set sids))) (card (in_segs e (set sids))) \<Longrightarrow>
   kept (en_crc env) (data_in (en_crc env) e (in_segs e (set sids))) (card (in_segs e (set sids))) e e'"
proof (induction sids arbitrary: out e)
  case Nil
  then show ?case by (simp add: written_refl)
next
  case (Cons sid sids)
  let ?c = "en_crc env" and ?A = "in_segs e {sid}" and ?B = "in_segs e (set sids)"
  have AB: "in_segs e (set (sid # sids)) = ?A \<union> ?B" "?A \<inter> ?B = {}" using Cons.prems(3) by (auto simp: in_segs_def)
  have cost: "data_in ?c e (in_segs e (set (sid # sids))) = data_in ?c e ?A + data_in ?c e ?B"
    "card (in_segs e (set (sid # sids))) = card ?A + card ?B"
    unfolding AB(1) using data_in_un [OF Cons.prems(2) in_segs_sub in_segs_sub AB(2)] Cons.prems(2) by simp_all
  note aff = Cons.prems(5) [unfolded cost]
  have kA: "affords e (data_in ?c e ?A) (card ?A)" using aff by (rule affords_mono) simp_all
  note M = migrate_segment_kept [OF _ Cons.prems(2) kA Cons.prems(4)]
  from Cons.prems(1) [unfolded collect_each.simps] show ?case
    unfolding cost
  proof (cases rule: ebind_SomeE)
    case (err x)
    from M [OF err(1)] show "kept ?c (data_in ?c e ?A + data_in ?c e ?B) (card ?A + card ?B) e e'"
      by (auto intro: written_mono)
  next
    case (ok e1 out1)
    have K: "kept ?c (data_in ?c e ?A) (card ?A) e e1" and mv: "moved (set (sid # sids)) e e1 ?A"
      using M [OF ok(1)] by simp_all
    have segs: "in_segs e1 {sid} = {}" "in_segs e1 (set sids) = ?B"
      by (rule moved_segs [OF mv]; use Cons.prems(3) in auto)+
    have aff1: "affords e1 (data_in ?c e ?B) (card ?B)" by (rule kept_affords [OF K aff])
    then have zero: "affords e1 0 0" by (rule affords_mono) simp_all
    have inv1: "engine_inv ?c e1" using K by (simp add: written_def)
    note D = delete_if_dead_kept [OF _ inv1 zero segs(1)]
    from ok(2) show "kept ?c (data_in ?c e ?A + data_in ?c e ?B) (card ?A + card ?B) e e'"
    proof (cases rule: ebind_SomeE)
      case (err x)
      then have "kept ?c 0 0 e1 e'" using D by blast
      from kept_trans [OF K this] show ?thesis by (auto intro: written_mono)
    next
      case (ok e2 out2)
      have D1: "kept ?c 0 0 e1 e2" and D2: "\<And>s. s \<noteq> sid \<Longrightarrow> sealed_seg e1 s \<Longrightarrow> sealed_seg e2 s"
        and D3: "\<And>x. lookup (ec_index e2) x = lookup (ec_index e1) x"
        using D [OF ok(1)] by blast+
      have eq: "in_segs e2 (set sids) = ?B" "data_in ?c e2 ?B = data_in ?c e ?B"
        using segs(2) D3 written_data_in [OF K] written_data_in [OF D1] by (simp_all add: in_segs_def)
      have aff2: "affords e2 (data_in ?c e ?B) (card ?B)" using kept_affords [OF D1] aff1 by simp
      have "\<forall>s\<in>set sids. sealed_seg e2 s" using mv Cons.prems(3) by (intro ballI D2) (auto simp: moved_def)
      with Cons.IH [OF ok(2)] D1 Cons.prems(3) aff2
      have "kept ?c (data_in ?c e ?B) (card ?B) e2 e'" by (simp add: eq written_def)
      from kept_trans [OF K kept_trans [OF D1 this]] show ?thesis by simp
    qed
  qed
qed

lemma candidates_sealed:
  assumes "engine_inv c e"
  shows "distinct (gc_candidates cfg e)" and "s \<in> set (gc_candidates cfg e) \<Longrightarrow> sealed_seg e s"
proof -
  let ?es = "mf_entries (sk_manifest (ec_sink e))"
  obtain vol rs where inv: "sink_inv c (ec_sink e) vol rs" using assms by (auto simp: engine_inv_def engine_rep_def)
  then have "distinct (map sg_seg_id ?es)" by (simp add: sink_inv_def)
  then show "distinct (gc_candidates cfg e)" unfolding gc_candidates_def by (rule distinct_map_filter)
  obtain es en where es: "?es = es @ [en]" "sg_seg_id en = writer_id (sk_writer (ec_sink e))" "sg_state en = StActive"
      "writer_id (sk_writer (ec_sink e)) \<notin> sg_seg_id ` set es"
    using inv by (rule manifest_split)
  assume "s \<in> set (gc_candidates cfg e)"
  then have "s \<in> sg_seg_id ` set es"
    using es(3) by (auto simp: gc_candidates_def es(1) is_candidate_def split: if_splits)
  moreover from this es(4) have "s \<noteq> writer_id (sk_writer (ec_sink e))" by blast
  ultimately show "sealed_seg e s" by (simp add: sealed_seg_def es(1))
qed

text \<open>A cycle moves every needle at most once.\<close>

definition gc_records :: "(bytes \<Rightarrow> u32) \<Rightarrow> EngineEnv \<Rightarrow> EngineCore \<Rightarrow> nat" where
  "gc_records c env e = length (expired_tombstones (ec_index e) (en_now env)) + card (dom (contents c e))"

lemma run_gc_cycle_kept:
  assumes run: "run_gc_cycle env cfg e = Some (e', r)" and inv: "engine_inv (en_crc env) e"
    and k: "affords e (data_in (en_crc env) e (dom (contents (en_crc env) e))) (gc_records (en_crc env) env e)"
  shows "kept (en_crc env) (data_in (en_crc env) e (dom (contents (en_crc env) e))) (gc_records (en_crc env) env e) e e'"
proof -
  let ?c = "en_crc env" and ?D = "data_in (en_crc env) e (dom (contents (en_crc env) e))" and ?N = "card (dom (contents (en_crc env) e))"
  obtain e1 where e1: "gc_prune_markers e = Some (e1, Inr ())"
    by (cases "min_base_lsn (sk_manifest (ec_sink e))") (simp_all add: gc_prune_markers_def)
  define xs where "xs = map (\<lambda>tb. (te_needle_id tb, te_version_lsn tb)) (expired_tombstones (ec_index e1) (en_now env))"
  have q1: "quiet ?c 0 e e1" by (rule prune_quiet [OF e1 inv])
  have "tombstones (ec_index e1) = tombstones (ec_index e)"
    using e1 by (auto simp: gc_prune_markers_def prune_purge_markers_def Let_def split: option.splits)
  then have n: "gc_records ?c env e = length xs + ?N" by (simp add: gc_records_def xs_def expired_tombstones_def)
  have aff1: "affords e1 ?D (length xs + ?N)" using kept_affords [OF quiet_kept [OF q1, of 0], of ?D] k by (simp add: n)
  have run1: "ebind (purge_all env xs outcome_zero) (\<lambda>out. ebind (eget (gc_candidates cfg)) (\<lambda>candidates.
      collect_each env candidates out)) e1 = Some (e', r)"
    using run by (simp add: run_gc_cycle_def ebind_simps(3) [where m = gc_prune_markers, OF e1] xs_def)
  have "affords e1 0 (length xs)" using aff1 by (rule affords_mono) simp_all
  note P = purge_all_kept [OF _ _ this]
  have inv1: "engine_inv ?c e1" using q1 by (simp add: quiet_def)
  from run1 show ?thesis
  proof (cases rule: ebind_SomeE)
    case (err x)
    from quiet_trans [OF q1 P [OF err(1) inv1]] show ?thesis by (intro quiet_kept) (auto simp: n intro: quiet_mono)
  next
    case (ok e2 out)
    note q2 = quiet_trans [OF q1 P [OF ok(1) inv1]]
    have inv2: "engine_inv ?c e2" and same: "contents ?c e2 = contents ?c e" using q2 by (simp_all add: quiet_def)
    let ?cands = "gc_candidates cfg e2" and ?S = "in_segs e2 (set (gc_candidates cfg e2))"
    have sub: "?S \<subseteq> dom (contents ?c e)" using in_segs_sub [OF inv2] same by simp
    have le: "data_in ?c e2 ?S \<le> ?D" "card ?S \<le> ?N"
      using sub finite_contents [OF inv] by (auto simp: data_in_def same card_mono intro!: sum_mono2)
    have "affords e2 ?D ?N" using kept_affords [OF quiet_kept [OF q2, of 0], of ?D ?N] k by (simp add: n)
    then have aff2: "affords e2 (data_in ?c e2 ?S) (card ?S)" using le by (rule affords_mono)
    have "kept ?c (data_in ?c e2 ?S) (card ?S) e2 e'"
      using ok(2) by (intro collect_each_kept [OF _ inv2 _ _ aff2]) (simp_all add: candidates_sealed [OF inv2])
    from kept_trans [OF quiet_kept [OF q2, of 0] this] show ?thesis
      unfolding n by (rule written_mono) (use le in simp_all)
  qed
qed

end
