(* ===== verification/Wal_Store.thy ===== *)
theory Wal_Store
  imports Wal_Gc
begin

text \<open>
  The engine as a whole (\<^verbatim>\<open>powerfs-core/src/wal/engine.rs\<close>, \<^verbatim>\<open>gc.rs\<close>): opening a new volume, a write runs to its
  end, any run of operations implements a plain map, a read that overlaps the collection of a segment, and the
  bound on the volume's size.
\<close>

section \<open>A new volume\<close>

lemma empty_dir_names [simp]: "parse_seg_id ''volume.lock'' = None" "parse_ckpt_seq ''volume.lock'' = None"
  by code_simp+

definition good_config :: "WalEngineConfig \<Rightarrow> bool" where
  "good_config cfg \<longleftrightarrow>
     SEG_HEADER_SIZE + FRAME_HEADER_SIZE \<le> unat (we_seg_size cfg) \<and> unat (we_seg_size cfg) < 2 ^ 32 \<and>
     cc_max_dirty_bytes (we_commit cfg) \<noteq> 0 \<and> unat (cc_max_dirty_bytes (we_commit cfg)) + 2 ^ 33 < 2 ^ 64"

text \<open>A queue that is open and without error, and a sink that can go on for \<open>k\<close> records.\<close>

definition healthy :: "nat \<Rightarrow> EngineCore \<Rightarrow> bool" where
  "healthy k e \<longleftrightarrow>
     core_inv (ec_commit e) \<and> config_ok (ec_commit e) \<and> cq_error (ec_commit e) = None \<and> \<not> cq_shutting_down (ec_commit e) \<and>
     nothing_above (ec_sink e) \<and> \<not> is_sealed (sw_header (sk_writer (ec_sink e))) \<and> unat (writer_id (sk_writer (ec_sink e))) + k < 2 ^ 64 \<and>
     sk_seg_size (ec_sink e) = unat (we_seg_size (ec_config e))"

definition fresh_core :: "EngineEnv \<Rightarrow> WalEngineConfig \<Rightarrow> EngineCore \<Rightarrow> bool" where
  "fresh_core env cfg e \<longleftrightarrow>
     engine_inv (en_crc env) e \<and> (\<forall>k. k < 2 ^ 63 \<longrightarrow> healthy k e) \<and> contents (en_crc env) e = Map.empty \<and> ec_config e = cfg \<and>
     ec_index e = WalIndex_new\<lparr>volume_size := we_volume_size cfg\<rparr> \<and> CommitQueue_new (we_commit cfg) 1 = Some (ec_commit e)"

lemma new_sel: "needles WalIndex_new = []" "last_lsn WalIndex_new = 0"
  by (simp_all add: WalIndex_new_def)

lemma index_inv_size: "index_inv (idx\<lparr>volume_size := v\<rparr>) \<longleftrightarrow> index_inv idx"
  by (simp add: index_inv_def index_wf_def stats_ok_def lsn_ok_def)

lemma open_new_volume:
  assumes cfg: "good_config cfg"
  shows "\<exists>e. engine_open env False [] cfg = Some (Inr e) \<and> fresh_core env cfg e"
proof -
  let ?c = "en_crc env" and ?sz = "unat (we_seg_size cfg)" and ?idx = "WalIndex_new\<lparr>volume_size := we_volume_size cfg\<rparr>"
  let ?dir = "[(''volume.lock'', [])] :: directory"
  let ?sb = "\<lparr>sb_seq = 0, sb_volume_id = we_volume_id cfg, sb_latest_ckpt_seq = 0, sb_active_seg_id = 0,
      sb_active_seg_size = we_seg_size cfg, sb_volume_size = we_volume_size cfg, sb_state = 0,
      sb_created_ts = en_now env, sb_last_mount_ts = en_now env, sb_min_live_snapshot_lsn = 0\<rparr>"
  let ?ck = "\<lparr>cp_applied_lsn = 0, cp_loaded_seq = 0, cp_needle_floor = 0, cp_index = WalIndex_new\<rparr>"
  let ?m = "\<lparr>mf_seg_size = ?sz, mf_entries = []\<rparr>"
  have sb: "open_superblock env ?dir cfg = Some (Inr ?sb)"
    by (simp add: open_superblock_def sb_load_def read_copy_def pick_copy_def)
  have ck: "load_ckpt env ?dir cfg = Some (Inr ?ck)" by (simp add: load_ckpt_def list_ckpts_def map_filter_def)
  have m: "SegManifest_load ?c ?dir ?sz = Inr ?m" by (simp add: SegManifest_load_def)
  obtain rv where rv: "recover env cfg ?dir ?m ?ck = Inr rv" "rr_index (rv_replay rv) = WalIndex_new" "rr_stop (rv_replay rv) = None"
    "rv_dir rv = ?dir" "rv_loaded_seq rv = 0"
    by (simp add: recover_def replay_all_def replay_with_def)
  have seal: "seal_break env cfg (rv_replay rv) (rv_dir rv, ?m) = Inr (?dir, ?m)" using rv by (simp add: seal_break_def)
  have base: "baseline_size cfg ?sb (rr_index (rv_replay rv)) = ?idx"
    by (simp add: rv baseline_size_def set_volume_size_def WalIndex_new_def)
  obtain w where w: "SegWriter_create ?c (en_seg_clk env 1) False 1 (we_volume_id cfg) 1 ?sz (we_preallocate cfg) = Inr w"
    "writer_id w = 1" "sw_seg_size w = ?sz" "sw_write_pos w = SEG_HEADER_SIZE"
    using cfg by (simp add: SegWriter_create_def Let_def good_config_def)
  have winv: "writer_inv ?c w []" using create_inv [OF w(1)] cfg by (simp add: good_config_def)
  let ?wdm = "(w, hm_insert (seg_file_name 1) (sw_file w) ?dir, mf_register ?m 1 1 (we_volume_id cfg))"
  have wr: "open_writer env cfg (rr_stop (rv_replay rv)) ?idx (?dir, ?m) = Inr ?wdm"
    using w(1) by (simp add: rv open_writer_def mf_active_def fresh_segment_def next_seg_id_def seg_file_name_def WalIndex_new_def)
  obtain q where q: "CommitQueue_new (we_commit cfg) 1 = Some q" using cfg by (simp add: good_config_def CommitQueue_new_def)
  then obtain e where core: "engine_core env cfg ?sb 0 rv ?idx ?wdm = Some e"
    by (simp add: engine_core_def WalIndex_new_def)
  have e: "ec_config e = cfg" "ec_index e = ?idx" "ec_commit e = q"
    "ec_sink e = SegSink_new w (mf_register ?m 1 1 (we_volume_id cfg)) (hm_insert (seg_file_name 1) (sw_file w) ?dir) SEG_HEADER_SIZE
       ?sz (we_preallocate cfg)"
    using core q w by (auto simp: engine_core_def WalIndex_new_def simp del: AList.update.simps)
  have lsn: "cq_next_lsn q = 1" using q by (auto simp: CommitQueue_new_def split: if_splits)
  have "engine_rep ?c e [] []"
    using cfg e w winv lsn
    by (auto simp: engine_rep_def sink_inv_def SegSink_new_def mf_register_def seg_ids_def located_def good_config_def
        lookup_def index_inv_size new_sel split: if_splits simp del: AList.update.simps)
  then have inv: "engine_inv ?c e" by (auto simp: engine_inv_def)
  have none: "contents ?c e = Map.empty" by (rule ext) (simp add: contents_def read_attempt_def e lookup_def new_sel)
  have nocopy: "hm_get (ec_dir e) COPY_A = None" "hm_get (ec_dir e) COPY_B = None"
    by (simp_all add: e SegSink_new_def not_seg_name [symmetric])
  obtain e' where st: "store_superblock env 0 e = Some (e', Inr ())"
    using nocopy by (simp add: store_superblock_def Let_def sb_store_def read_copy_def put_dir_def)
  obtain dir' where e': "ec_index e' = ec_index e" "ec_commit e' = ec_commit e" "ec_config e' = cfg"
    "ec_sink e' = (ec_sink e)\<lparr>sk_dir := dir'\<rparr>" "\<And>sid. hm_get dir' (seg_file_name sid) = hm_get (ec_dir e) (seg_file_name sid)"
    using st e(1) sb_store_segs by (auto simp: store_superblock_def Let_def put_dir_def)
  have "affords e 0 0"
    by (simp add: affords_def e lsn index_bytes_def index_count_def WalIndex_new_def)
  from quiet_opD [OF store_superblock_quiet st inv this] have q1: "quiet ?c 0 e e'" .
  have "core_inv q" "config_ok q" "cq_error q = None" "\<not> cq_shutting_down q"
    using q cfg by (auto simp: CommitQueue_new_def core_inv_def config_ok_def good_config_def saturating_sub_def split: if_splits)
  moreover have "\<not> is_sealed (sw_header w)" using w(1) by (auto simp: SegWriter_create_def Let_def is_sealed_def split: if_splits)
  ultimately have ok: "healthy k e'" if "k < 2 ^ 63" for k
    using w(2) that by (auto simp: healthy_def e' e SegSink_new_def nothing_above_def not_seg_name [symmetric])
  have "engine_open env False [] cfg = Some (Inr e')"
    by (simp add: engine_open_def sb ck m rv(1) seal base wr core rv(5) st del: AList.update.simps(2))
  with q1 none e q e' ok show ?thesis by (auto simp: fresh_core_def quiet_def)
qed

section \<open>A write completes\<close>

definition record_fits :: "EngineCore \<Rightarrow> CommitRequest \<Rightarrow> bool" where
  "record_fits e req \<longleftrightarrow>
     SEG_HEADER_SIZE + FRAME_HEADER_SIZE + length (rq_payload req) \<le> sk_seg_size (ec_sink e) \<and>
     length (rq_payload req) < 2 ^ 32 \<and>
     FRAME_HEADER_SIZE + length (rq_payload req) \<le> unat (cc_max_dirty_bytes (cq_config (ec_commit e)))"

text \<open>A queue stays open and without error.\<close>

definition queue_goes_on :: "CommitCore \<Rightarrow> CommitCore \<Rightarrow> bool" where
  "queue_goes_on core core' \<longleftrightarrow>
     core_inv core' \<and> cq_config core' = cq_config core \<and> cq_error core' = None \<and> cq_shutting_down core' = cq_shutting_down core"

lemma worker_round_frees:
  assumes "core_inv core" and "worker_round core sink = (core', sink')"
  shows "core_inv core'" "cq_dirty_bytes core' = 0"
proof -
  have core': "core' = sync_done (cq_flushed_lsn core) (core\<lparr>cq_kick := False\<rparr>)"
    using assms(2) by (simp add: worker_round_def sink_sync_def Let_def)
  have inv: "core_inv (core\<lparr>cq_kick := False\<rparr>)" using assms(1) by (simp add: core_inv_def)
  show inv': "core_inv core'" unfolding core' by (rule sync_done_inv [OF inv]) simp
  have "cq_durable_lsn core' = cq_flushed_lsn core'"
    using worker_round_sel(4,5) [OF assms(2)] assms(1) by (simp add: core_inv_def max_absorb1)
  with inv' have "cq_undurable core' = []"
    by (cases "cq_undurable core'") (auto simp: core_inv_def)
  with inv' show "cq_dirty_bytes core' = 0" by (simp add: core_inv_def unat_eq_0)
qed

lemma append_then_await:
  assumes app: "app sink (cq_next_lsn core) (rq_rtype req) (rq_flags req) (rq_payload req) = Some (sink1, Inr p)"
    and err: "cq_error core = None" and inv: "core_inv core" "config_ok core"
    and len: "length (rq_payload req) < 2 ^ 32" and room: "cq_next_lsn core < - 1"
    and budget: "\<not> cc_max_dirty_bytes (cq_config core) < cq_dirty_bytes core + record_bytes req"
  shows "\<exists>core' sink' rc. Option.bind (enqueue_append app now core sink req) await_durable = Some (core', sink', Inr rc) \<and>
    (need_durable req \<longrightarrow> rc_durable rc) \<and> queue_goes_on core core' \<and>
    (sink' = sink1 \<or> sink' = sink1\<lparr>sk_synced := sw_write_pos (sk_writer sink1)\<rparr>)"
proof -
  obtain core1 out where step: "enqueue_append app now core sink req = Some (core1, sink1, out)"
    and out: "out = (if need_durable req then EnqWait (cq_next_lsn core) p
       else EnqReturn (Inr \<lparr>rc_lsn = cq_next_lsn core, rc_durable = False, rc_placement = p\<rparr>))"
    and core1: "cq_error core1 = None" "cq_flushed_lsn core1 = cq_next_lsn core"
      "cq_config core1 = cq_config core" "cq_shutting_down core1 = cq_shutting_down core"
    using app err by (cases "need_durable req") (simp_all add: enqueue_append_def Let_def)
  obtain core2 sink2 where w: "worker_round core1 sink1 = (core2, sink2)" by fastforce
  have "enqueue_poll core2 (cq_next_lsn core) p = Some (Inr \<lparr>rc_lsn = cq_next_lsn core, rc_durable = True, rc_placement = p\<rparr>)"
    using worker_round_sel [OF w] core1 by (simp add: enqueue_poll_def)
  moreover have inv1: "core_inv core1" by (rule enqueue_append_inv [OF inv len budget room step])
  ultimately show ?thesis
    using step out w core1 worker_round_frees(1) [OF inv1 w] worker_round_sel [OF w]
    by (auto simp: await_durable_def queue_goes_on_def)
qed

lemma enq_returns:
  assumes inv: "engine_inv (en_crc env) e" and ok: "healthy (Suc k) e" and fits: "record_fits e req" and lsn: "affords e 0 1"
  shows "\<exists>e' rc. enq env req e = Some (e', Inr rc) \<and> (need_durable req \<longrightarrow> rc_durable rc) \<and> healthy k e'"
proof -
  let ?app = "sink_append (en_crc env) (en_seg_clk env)" and ?core = "ec_commit e" and ?sink = "ec_sink e"
  obtain vol rs where sink: "sink_inv (en_crc env) ?sink vol rs" using inv by (auto simp: engine_inv_def engine_rep_def)
  have app: "\<exists>s' p. ?app s (cq_next_lsn core) (rq_rtype req) (rq_flags req) (rq_payload req) = Some (s', Inr p) \<and> goes_on ?sink s'"
    if s: "s = ?sink \<or> s = ?sink\<lparr>sk_synced := sw_write_pos (sk_writer ?sink)\<rparr>" for s core
  proof -
    have "sink_inv (en_crc env) s vol rs" using s sink by (auto simp: sink_inv_def writer_inv_def)
    moreover have "goes_on s s' = goes_on ?sink s'" for s' using s by (auto simp: goes_on_def)
    moreover have "writer_id (sk_writer ?sink) < - 1" using ok by (simp add: healthy_def less_max_u64)
    ultimately show ?thesis
      using s ok fits sink_append_fits [of "en_crc env" s vol rs "rq_payload req" "en_seg_clk env" "cq_next_lsn core" "rq_rtype req" "rq_flags req"]
      by (auto simp: healthy_def record_fits_def nothing_above_def)
  qed
  have len: "\<not> length (rq_payload req) > 2 ^ 32 - 1" "length (rq_payload req) < 2 ^ 32" using fits by (simp_all add: record_fits_def)
  have core: "cq_error ?core = None" "\<not> cq_shutting_down ?core" "core_inv ?core" "config_ok ?core" using ok by (simp_all add: healthy_def)
  have room: "cq_next_lsn ?core < - 1" using lsn by (simp add: affords_def less_max_u64)
  obtain core' sink' rc sink1 where run: "commit_enqueue env ?core ?sink req = Some (core', sink', Inr rc)"
      "need_durable req \<longrightarrow> rc_durable rc" "queue_goes_on ?core core'" "goes_on ?sink sink1"
      "sink' = sink1 \<or> sink' = sink1\<lparr>sk_synced := sw_write_pos (sk_writer sink1)\<rparr>"
  proof (cases "cq_dirty_bytes ?core + record_bytes req > cc_max_dirty_bytes (cq_config ?core)")
    case True
    obtain core2 sink2 where w: "worker_round ?core ?sink = (core2, sink2)" by fastforce
    note W = worker_round_frees [OF core(3) w] worker_round_sel [OF w]
    have budget: "\<not> cc_max_dirty_bytes (cq_config core2) < cq_dirty_bytes core2 + record_bytes req"
      using fits W by (simp add: record_fits_def not_less word_le_nat_alt unat_record_bytes)
    obtain s' p where "?app sink2 (cq_next_lsn core2) (rq_rtype req) (rq_flags req) (rq_payload req) = Some (s', Inr p)" "goes_on ?sink s'"
      using app [of sink2 core2] W(3) by blast
    with append_then_await [where app = ?app, OF this(1) _ W(1) _ len(2) _ budget, of "en_mono env"] W core room w len(1) True budget
    show thesis
      by (auto simp: commit_enqueue_def enqueue_def enqueue_retry_def config_ok_def queue_goes_on_def intro!: that)
  next
    case False
    obtain s' p where s': "?app ?sink (cq_next_lsn ?core) (rq_rtype req) (rq_flags req) (rq_payload req) = Some (s', Inr p)" "goes_on ?sink s'"
      using app [of ?sink ?core] by blast
    note A = append_then_await [where app = ?app, OF s'(1) core(1,3,4) len(2) room False, of "en_mono env"]
    then obtain core1 sink1 out where step: "enqueue_append ?app (en_mono env) ?core ?sink req = Some (core1, sink1, out)"
      by (auto simp: bind_eq_Some_conv)
    have "out \<noteq> EnqBlocked" using step by (auto simp: enqueue_append_def Let_def split: option.splits sum.splits if_splits)
    then have "commit_enqueue env ?core ?sink req = await_durable (core1, sink1, out)"
      using step core len(1) False by (cases out) (simp_all add: commit_enqueue_def enqueue_def enqueue_retry_def Let_def)
    with A step s'(2) show thesis by (auto intro: that)
  qed
  have "unat (writer_id (sk_writer sink1)) + k < 2 ^ 64"
    using run(4) ok unat_add_u64 [of "writer_id (sk_writer ?sink)" 1] by (auto simp: goes_on_def healthy_def)
  then have "healthy k (e\<lparr>ec_commit := core', ec_sink := sink'\<rparr>)"
    using ok run(3-5) by (auto simp: healthy_def queue_goes_on_def goes_on_def config_ok_def nothing_above_def)
  with run(1,2) show ?thesis by (auto simp: enq_def)
qed

text \<open>What \<^verbatim>\<open>write\<close> asks of a record: it fits a segment, the dirty-byte budget and the volume.\<close>

definition data_fits :: "EngineCore \<Rightarrow> bytes \<Rightarrow> bool" where
  "data_fits e data \<longleftrightarrow>
     SEG_HEADER_SIZE + FRAME_HEADER_SIZE + 12 + length data \<le> unat (we_seg_size (ec_config e)) \<and>
     unat (we_seg_size (ec_config e)) < 2 ^ 32 \<and>
     FRAME_HEADER_SIZE + 12 + length data \<le> unat (cc_max_dirty_bytes (cq_config (ec_commit e))) \<and>
     (volume_size (ec_index e) = 0 \<or>
      occupied_bytes (stats (ec_index e)) + of_nat (length data) \<le> volume_size (ec_index e))"

lemma fits_segment_data:
  assumes "SEG_HEADER_SIZE + n \<le> unat (we_seg_size (ec_config e))"
  shows "fits_segment n e"
proof -
  let ?sz = "we_seg_size (ec_config e)"
  have "n < 2 ^ 64" using assms unat_u64_bound [of ?sz] by simp
  moreover have "of_nat SEG_HEADER_SIZE \<le> ?sz" using assms by (simp add: word_le_nat_alt)
  then have "unat (?sz - of_nat SEG_HEADER_SIZE) = unat ?sz - SEG_HEADER_SIZE" by (simp add: unat_sub)
  ultimately show ?thesis
    using assms by (simp add: fits_segment_def not_less word_le_nat_alt unat_of_nat_u64)
qed

lemma DataPayload_length: "length (DataPayload_encode \<lparr>dp_needle_id = nid, dp_data = data\<rparr>) = 12 + length data"
  by (simp add: DataPayload_encode_def)

lemma write_completes:
  assumes inv: "engine_inv (en_crc env) e" and ok: "healthy (Suc k) e" and room: "affords e (length data) 1" and fits: "data_fits e data"
  shows "\<exists>e' rc. engine_write env nid data m e = Some (e', Inr rc) \<and> (m = Strict \<longrightarrow> rc_durable rc) \<and> healthy k e' \<and>
    written (en_crc env) (length data) 1 e e' ((contents (en_crc env) e)(nid \<mapsto> data))"
proof -
  let ?req = "write_request nid data m"
  have req: "rq_payload ?req = DataPayload_encode \<lparr>dp_needle_id = nid, dp_data = data\<rparr>" "m = Strict \<Longrightarrow> need_durable ?req"
    by (cases m; simp add: write_request_def in_mode_def CommitRequest_new_def strict_def need_durable_def)+
  have "fits_segment (FRAME_HEADER_SIZE + 12 + length data) e" using fits by (intro fits_segment_data) (simp add: data_fits_def)
  then have admit: "write_admit nid data e = Some (e, Inr ())"
    using fits by (auto simp: write_admit_def Let_def data_fits_def)
  have "record_fits e ?req" using fits ok by (simp add: record_fits_def data_fits_def healthy_def req DataPayload_length)
  from enq_returns [OF inv ok this affords_mono [OF room]] obtain e1 rc
    where enq: "enq env ?req e = Some (e1, Inr rc)" "m = Strict \<longrightarrow> rc_durable rc" "healthy k e1"
    using req(2) by auto
  have "write_apply env nid data rc e1 \<noteq> None"
    by (auto simp: write_apply_def ebind_def with_index_def split: sum.splits option.splits)
  then obtain e' r where ap: "write_apply env nid data rc e1 = Some (e', r)" by auto
  have "healthy k e'"
    using enq(3) ap by (auto simp: write_apply_def ebind_def with_index_def healthy_def split: sum.splits)
  with write_logged [OF enq(1) ap inv room] enq admit ap show ?thesis
    by (auto simp: engine_write_def ebind_def)
qed

section \<open>The engine as a map\<close>

text \<open>The contract of a store: operations that may fail, and what each of them does to a plain map.\<close>

inductive runs :: "('o \<Rightarrow> 's \<Rightarrow> ('s \<times> bool) option) \<Rightarrow> ('o \<Rightarrow> 's \<Rightarrow> bool) \<Rightarrow> 's \<Rightarrow> ('o \<times> bool) list \<Rightarrow> 's \<Rightarrow> bool"
  for run room where
  runs_nil: "runs run room s [] s"
| runs_cons: "room op s \<Longrightarrow> run op s = Some (s1, ok) \<Longrightarrow> runs run room s1 xs s2 \<Longrightarrow> runs run room s ((op, ok) # xs) s2"

locale map_store =
  fixes inv :: "'s \<Rightarrow> bool" and abs_map :: "'s \<Rightarrow> 'k \<Rightarrow> 'v option" and room :: "'o \<Rightarrow> 's \<Rightarrow> bool"
    and run :: "'o \<Rightarrow> 's \<Rightarrow> ('s \<times> bool) option" and spec :: "'o \<Rightarrow> bool \<Rightarrow> ('k \<Rightarrow> 'v option) \<Rightarrow> 'k \<Rightarrow> 'v option"
  assumes step_refines: "inv s \<Longrightarrow> room op s \<Longrightarrow> run op s = Some (s', ok) \<Longrightarrow> inv s' \<and> abs_map s' = spec op ok (abs_map s)"
begin

lemma runs_refine:
  assumes "runs run room s xs s'" and "inv s"
  shows "inv s' \<and> abs_map s' = fold (\<lambda>(op, ok). spec op ok) xs (abs_map s)"
  using assms by (induction rule: runs.induct) (auto dest: step_refines)

end

datatype client_op =
    CoWrite u64 bytes CommitMode
  | CoDelete u64 CommitMode
  | CoFlush u64
  | CoResize u64
  | CoCheckpoint
  | CoGc

abbreviation with_status :: "EngineCore \<times> (EngineError + 'a) \<Rightarrow> EngineCore \<times> bool" where
  "with_status r \<equiv> (fst r, \<not> isl (snd r))"

definition run_op :: "EngineEnv \<times> client_op \<Rightarrow> EngineCore \<Rightarrow> (EngineCore \<times> bool) option" where
  "run_op eo e =
     (let env = fst eo in
      case snd eo of
        CoWrite nid data m \<Rightarrow> map_option with_status (engine_write env nid data m e)
      | CoDelete nid m \<Rightarrow> map_option with_status (engine_delete env nid m e)
      | CoFlush l \<Rightarrow> map_option with_status (flush l e)
      | CoResize sz \<Rightarrow> map_option with_status (resize_impl env sz e)
      | CoCheckpoint \<Rightarrow> map_option with_status (checkpoint_impl env e)
      | CoGc \<Rightarrow> map_option with_status (run_gc_cycle env (we_gc (ec_config e)) e))"

fun spec_op :: "client_op \<Rightarrow> bool \<Rightarrow> (u64 \<Rightarrow> bytes option) \<Rightarrow> u64 \<Rightarrow> bytes option" where
  "spec_op (CoWrite nid data m) True s = s(nid \<mapsto> data)"
| "spec_op (CoDelete nid m) True s = s(nid := None)"
| "spec_op _ _ s = s"

text \<open>The operation does not use up a 64-bit counter.\<close>

definition op_room :: "(bytes \<Rightarrow> u32) \<Rightarrow> EngineEnv \<times> client_op \<Rightarrow> EngineCore \<Rightarrow> bool" where
  "op_room c eo e \<longleftrightarrow>
     en_crc (fst eo) = c \<and>
     (case snd eo of
        CoWrite nid data m \<Rightarrow> affords e (length data) 1
      | CoGc \<Rightarrow> affords e (data_in c e (dom (contents c e))) (gc_records c (fst eo) e)
      | _ \<Rightarrow> affords e 0 1)"

lemma run_op_refines:
  assumes inv: "engine_inv c e" and room: "op_room c eo e" and run: "run_op eo e = Some (e', ok)"
  shows "engine_inv c e' \<and> contents c e' = spec_op (snd eo) ok (contents c e)"
proof -
  obtain env op where eo: "eo = (env, op)" by fastforce
  have c: "c = en_crc env" using room by (simp add: op_room_def eo)
  have quiet: "engine_inv c e' \<and> contents c e' = contents c e"
    if "quiet_op c 1 (m :: 'x eng)" "map_option with_status (m e) = Some (e', ok)" "affords e 0 1" for m
    using that inv by (auto simp: quiet_op_def quiet_def)
  show ?thesis
  proof (cases op)
    case (CoWrite nid data m)
    obtain r where "engine_write env nid data m e = Some (e', r)" "ok = (\<not> isl r)"
      using run by (auto simp: run_op_def eo CoWrite)
    with engine_write_effect [OF this(1), folded c, OF inv] room show ?thesis
      by (cases r) (simp_all add: op_room_def eo CoWrite written_def)
  next
    case (CoDelete nid m)
    obtain r where "engine_delete env nid m e = Some (e', r)" "ok = (\<not> isl r)"
      using run by (auto simp: run_op_def eo CoDelete)
    with engine_delete_effect [OF this(1), folded c, OF inv] room show ?thesis
      by (cases r) (simp_all add: op_room_def eo CoDelete written_def)
  next
    case CoGc
    obtain r where "run_gc_cycle env (we_gc (ec_config e)) e = Some (e', r)"
      using run by (auto simp: run_op_def eo CoGc)
    with run_gc_cycle_kept [OF this, folded c, OF inv] room show ?thesis
      by (simp add: op_room_def eo CoGc written_def)
  next
    case (CoFlush l)
    with quiet [OF flush_quiet [of c 1 l]] run room show ?thesis by (simp add: run_op_def eo op_room_def)
  next
    case (CoResize sz)
    with quiet [OF resize_quiet [of env sz, folded c]] run room show ?thesis by (simp add: run_op_def eo op_room_def)
  next
    case CoCheckpoint
    with quiet [OF checkpoint_quiet [of env, folded c]] run room show ?thesis by (simp add: run_op_def eo op_room_def)
  qed
qed

interpretation engine_store: map_store "engine_inv c" "contents c" "op_room c" run_op "\<lambda>eo. spec_op (snd eo)" for c
  by unfold_locales (rule run_op_refines)

section \<open>Properties of the engine\<close>

definition store_env :: EngineEnv where
  "store_env = \<lparr>en_crc = sum_crc, en_seg_clk = (\<lambda>_. 0), en_replay_clk = (\<lambda>_. 0), en_now = 0, en_ms = 0, en_mono = 0, en_on_disk = 0\<rparr>"

definition store_cfg :: WalEngineConfig where
  "store_cfg = \<lparr>we_seg_size = 400, we_volume_id = 9, we_preallocate = False, we_recovery_mode = TolerateTail,
     we_verify_on_read = True, we_commit = \<lparr>cc_async_interval = 5, cc_max_dirty_bytes = 60\<rparr>, we_ckpt_interval = None,
     we_ckpt_lsn_distance = 100, we_ckpt_on_close = False, we_volume_size = 1000,
     we_gc = \<lparr>gc_interval = None, gc_exceeds = (<), gc_min_bytes = 0, gc_max_bytes_per_sec = 0\<rparr>,
     we_tombstone_retention_secs = 0\<rparr>"

lemma store_cfg_good: "good_config store_cfg"
  by (simp add: good_config_def store_cfg_def)

lemma fresh_queue: "fresh_core env cfg e \<Longrightarrow> cq_next_lsn (ec_commit e) = 1 \<and> cq_config (ec_commit e) = we_commit cfg"
  by (auto simp: fresh_core_def CommitQueue_new_def dest!: sym [of _ "ec_commit e"] split: if_splits)

lemma fresh_room: "fresh_core env cfg e \<Longrightarrow> n < 2 ^ 64 \<Longrightarrow> k < 2 ^ 63 \<Longrightarrow> affords e n k"
  using fresh_queue [of env cfg e]
  by (simp add: affords_def fresh_core_def index_bytes_def index_count_def WalIndex_new_def)

lemma store_fits: "fresh_core env store_cfg e \<Longrightarrow> length d = 3 \<Longrightarrow> data_fits e d"
  using fresh_queue [of env store_cfg e]
  by (simp add: data_fits_def fresh_core_def store_cfg_def WalIndex_new_def stats_zero_def occupied_bytes_def)

lemma store_run:
  assumes e: "fresh_core store_env store_cfg e"
  shows "\<exists>e'. runs run_op (op_room (en_crc store_env)) e [((store_env, CoWrite 7 [1, 2, 3] Async), True)] e' \<and> spends 3 1 e e'"
proof -
  have inv: "engine_inv (en_crc store_env) e" "healthy (Suc 0) e" using e by (simp_all add: fresh_core_def)
  have room: "affords e (length [1, 2, 3 :: byte]) 1" by (rule fresh_room [OF e]) simp_all
  obtain e' rc where w: "engine_write store_env 7 [1, 2, 3] Async e = Some (e', Inr rc)" "spends (length [1, 2, 3 :: byte]) 1 e e'"
    using write_completes [OF inv room store_fits [OF e], of 7 Async] by (auto simp: written_def)
  have "runs run_op (op_room (en_crc store_env)) e [((store_env, CoWrite 7 [1, 2, 3] Async), True)] e'"
    by (rule runs_cons [OF _ _ runs_nil]) (use room w in \<open>simp_all add: op_room_def run_op_def\<close>)
  with w(2) show ?thesis by (auto simp: numeral_eq_Suc)
qed

text \<open>C3: A write that is admitted completes. With an open queue and a record that fits a segment, the dirty-byte
  budget and the volume, \<open>engine_write\<close> returns a receipt, a durable one in strict mode; afterwards the needle
  reads back as the data written and every other needle reads as before.\<close>

theorem engine_write_completes:
  assumes "engine_inv (en_crc env) e" and "healthy (Suc k) e" and "affords e (length data) 1" and "data_fits e data"
  shows "\<exists>e' rc. engine_write env nid data m e = Some (e', Inr rc) \<and> (m = Strict \<longrightarrow> rc_durable rc) \<and>
    engine_inv (en_crc env) e' \<and> healthy k e' \<and> read_needle env e' nid = Inr data \<and>
    (\<forall>x. x \<noteq> nid \<longrightarrow> read_needle env e' x = read_needle env e x)"
proof -
  obtain e' rc where w: "engine_write env nid data m e = Some (e', Inr rc)" "m = Strict \<longrightarrow> rc_durable rc"
      "healthy k e'" "written (en_crc env) (length data) 1 e e' ((contents (en_crc env) e)(nid \<mapsto> data))"
    using write_completes [OF assms] by blast
  then have "engine_inv (en_crc env) e'" "contents (en_crc env) e' = (contents (en_crc env) e)(nid \<mapsto> data)"
    by (simp_all add: written_def)
  with w read_contents [OF assms(1)] read_contents [of env e'] show ?thesis by (intro exI [of _ e'] exI [of _ rc]) simp
qed

theorem engine_write_completes_witness:
  "\<exists>e e' rc. engine_open store_env False [] store_cfg = Some (Inr e) \<and>
     engine_write store_env 7 [1, 2, 3] Strict e = Some (e', Inr rc) \<and> rc_durable rc \<and>
     read_needle store_env e' 7 = Inr [1, 2, 3]"
proof -
  obtain e where e: "engine_open store_env False [] store_cfg = Some (Inr e)" "fresh_core store_env store_cfg e"
    using open_new_volume [OF store_cfg_good] by blast
  have inv: "engine_inv (en_crc store_env) e" "healthy (Suc 0) e" using e(2) by (simp_all add: fresh_core_def)
  have "affords e (length [1, 2, 3 :: byte]) 1" by (rule fresh_room [OF e(2)]) simp_all
  from engine_write_completes [OF inv this store_fits [OF e(2)], of 7 Strict] e(1) show ?thesis by auto
qed

text \<open>C2: The engine implements a plain map. After any run of writes, deletes, flushes, resizes, checkpoints and
  collection cycles on a new volume, successful or not, a read returns what the successful writes and deletes
  leave in a map from needle ids to data, and \<open>EeNotFound\<close> for the rest.\<close>

theorem engine_refines_map:
  assumes "good_config cfg" and "engine_open env False [] cfg = Some (Inr e0)"
    and "runs run_op (op_room (en_crc env)) e0 xs e"
  shows "read_needle env e nid =
    (case fold (\<lambda>(eo, ok). spec_op (snd eo) ok) xs Map.empty nid of Some data \<Rightarrow> Inr data | None \<Rightarrow> Inl (EeNotFound nid))"
proof -
  have "fresh_core env cfg e0" using open_new_volume [OF assms(1), of env] assms(2) by auto
  then have "engine_inv (en_crc env) e0" "contents (en_crc env) e0 = Map.empty" by (simp_all add: fresh_core_def)
  with engine_store.runs_refine [OF assms(3)] read_contents [of env e] show ?thesis by simp
qed

theorem engine_refines_map_witness:
  "\<exists>e0 e. engine_open store_env False [] store_cfg = Some (Inr e0) \<and>
     runs run_op (op_room (en_crc store_env)) e0 [((store_env, CoWrite 7 [1, 2, 3] Async), True)] e \<and>
     read_needle store_env e 7 = Inr [1, 2, 3] \<and> read_needle store_env e 8 = Inl (EeNotFound 8)"
proof -
  obtain e where e: "engine_open store_env False [] store_cfg = Some (Inr e)" "fresh_core store_env store_cfg e"
    using open_new_volume [OF store_cfg_good] by blast
  obtain e' where "runs run_op (op_room (en_crc store_env)) e [((store_env, CoWrite 7 [1, 2, 3] Async), True)] e'"
    using store_run [OF e(2)] by blast
  with engine_refines_map [OF store_cfg_good e(1) this] e(1) show ?thesis by auto
qed

section \<open>Reading while a segment is collected\<close>

text \<open>A step of the sink that leaves every record where it is.\<close>

definition keeps :: "(bytes \<Rightarrow> u32) \<Rightarrow> SegSink \<Rightarrow> SegSink \<Rightarrow> bool" where
  "keeps c s s' \<longleftrightarrow>
     (\<forall>vol rs. sink_inv c s vol rs \<longrightarrow> (\<exists>vol' rs'. sink_inv c s' vol' rs' \<and>
        (\<forall>n d. entry_at c vol (writer_id (sk_writer s)) rs n d \<longrightarrow> entry_at c vol' (writer_id (sk_writer s')) rs' n d)))"

lemma keeps_refl: "keeps c s s"
  unfolding keeps_def by blast

lemma keeps_trans: "keeps c s s1 \<Longrightarrow> keeps c s1 s2 \<Longrightarrow> keeps c s s2"
  unfolding keeps_def by meson

lemma keeps_grows: "sink_grows c s s' r res \<Longrightarrow> keeps c s s'"
  unfolding keeps_def
proof (intro allI impI)
  fix vol rs assume g: "sink_grows c s s' r res" and inv: "sink_inv c s vol rs"
  obtain vol' rs' pad where gr: "grown c s vol rs s' r res vol' rs' pad" using sink_growsD [OF g inv] .
  from entry_at_grown [OF gr] gr show "\<exists>vol' rs'. sink_inv c s' vol' rs' \<and>
      (\<forall>n d. entry_at c vol (writer_id (sk_writer s)) rs n d \<longrightarrow> entry_at c vol' (writer_id (sk_writer s')) rs' n d)"
    by (auto simp: grown_def intro!: exI [of _ vol'] exI [of _ rs'])
qed

lemma enq_keeps:
  assumes "enq env req e = Some (e', r)"
  shows "keeps (en_crc env) (ec_sink e) (ec_sink e')"
proof -
  obtain core sink r0 where "commit_enqueue env (ec_commit e) (ec_sink e) req = Some (core, sink, r0)"
      and e': "ec_sink e' = sink"
    using assms by (auto simp: enq_def)
  from commit_enqueue_called [OF this(1)] show ?thesis
    unfolding e' by (cases r0) (auto simp: called_def intro: keeps_grows)
qed

lemma flush_keeps: "flush l e = Some (e', r) \<Longrightarrow> keeps c (ec_sink e) (ec_sink e')"
proof (erule flush_sel)
  fix core s assume "e' = e\<lparr>ec_commit := core, ec_sink := s\<rparr>"
    "s = ec_sink e \<or> s = (ec_sink e)\<lparr>sk_synced := sw_write_pos (sk_writer (ec_sink e))\<rparr>"
  then show ?thesis by (auto simp: keeps_def sink_inv_def writer_inv_def) blast+
qed

lemma migrate_write_keeps:
  assumes "migrate_write env nid v data e = Some (e', r)"
  shows "keeps (en_crc env) (ec_sink e) (ec_sink e')"
proof -
  have "ec_sink e' = ec_sink e \<or> (\<exists>e1 r1. enq env (migrate_request nid v data) e = Some (e1, r1) \<and> ec_sink e' = ec_sink e1)"
    using assms unfolding migrate_write_def Let_def ebind_get
    by (cases rule: enq_cases [of env "migrate_request nid v data" e])
      (auto simp: ebind_simps ebind_def with_index_def split: if_splits sum.splits)
  then show ?thesis using enq_keeps keeps_refl by metis
qed

lemma migrate_each_keeps: "migrate_each env ns ml out e = Some (e', r) \<Longrightarrow> keeps (en_crc env) (ec_sink e) (ec_sink e')"
proof (induction ns arbitrary: ml out e)
  case (Cons n ns)
  from Cons.prems show ?case
    by (auto simp: keeps_refl split: sum.splits elim!: ebind_SomeE dest: migrate_write_keeps Cons.IH intro: keeps_trans)
qed (simp add: keeps_refl)

lemma migrate_segment_keeps:
  assumes "migrate_segment env sid out e = Some (e', r)"
  shows "keeps (en_crc env) (ec_sink e) (ec_sink e')"
proof -
  let ?m = "migrate_each env (seg_needles (ec_index e) sid) 0 out"
  consider "e' = e" | x where "?m e = Some (e', Inl x)"
    | e1 ml out1 r2 where "?m e = Some (e1, Inr (ml, out1))" "flush ml e1 = Some (e', r2)"
    using assms by (auto simp: migrate_segment_def split: if_splits elim!: ebind_SomeE)
  then show ?thesis
    by cases (auto intro: keeps_refl migrate_each_keeps keeps_trans [OF migrate_each_keeps flush_keeps])
qed

lemma read_attempt_contents:
  assumes "engine_inv c e" and "contents c e nid = Some d"
  shows "read_attempt c verify (ec_index e) (ec_dir e) nid = RdDone (Inr d)"
proof -
  obtain vol rs where rep: "engine_rep c e vol rs" using assms(1) by (auto simp: engine_inv_def)
  then show ?thesis
    using contents_at [OF rep, of nid d] assms(2) by (auto simp: engine_rep_def intro: read_attempt_at)
qed

lemma delete_if_dead_dir:
  assumes "delete_if_dead sid out e = Some (e', r)"
  shows "ec_dir e' = ec_dir e \<or> ec_dir e' = hm_remove (seg_file_name sid) (ec_dir e)"
  using assms by (auto simp: delete_if_dead_def put_dir_def Let_def split: if_splits prod.splits)

text \<open>C5: A read that overlaps the collection of a segment does not notice it. The reader has looked up the entry
  before the segment's needles were moved and the segment was deleted, and opens the file afterwards: it gets the
  data from the old place or, when the file is gone, from the new place in its second attempt.\<close>

theorem read_during_collection:
  assumes inv: "engine_inv (en_crc env) e" and sealed: "sealed_seg e sid"
    and room: "affords e (data_in (en_crc env) e (in_segs e {sid})) (card (in_segs e {sid}))"
    and move: "migrate_segment env sid out e = Some (e1, Inr out1)" and del: "delete_if_dead sid out1 e1 = Some (e2, r)"
  shows "engine_read (en_crc env) verify (ec_index e, ec_dir e2) (ec_index e2, ec_dir e2) nid =
    (case contents (en_crc env) e nid of Some data \<Rightarrow> Inr data | None \<Rightarrow> Inl (EeNotFound nid))"
proof -
  let ?c = "en_crc env"
  have M: "kept ?c (data_in ?c e (in_segs e {sid})) (card (in_segs e {sid})) e e1" "moved {sid} e e1 (in_segs e {sid})"
    using migrate_segment_kept [OF move inv room, of "{sid}"] sealed by simp_all
  have inv1: "engine_inv ?c e1" using M(1) by (simp add: written_def)
  have zero: "affords e1 0 0" using kept_affords [OF M(1), of 0 0] room by simp
  have dead: "in_segs e1 {sid} = {}" by (rule moved_segs [OF M(2), of "{}"]) simp_all
  have same: "contents ?c e2 = contents ?c e" and inv2: "engine_inv ?c e2"
    using delete_if_dead_kept [OF del inv1 zero dead] M(1) by (simp_all add: written_def)
  show ?thesis
  proof (cases "lookup (ec_index e) nid")
    case None
    then show ?thesis by (simp add: engine_read_def read_attempt_def contents_none [OF inv, THEN iffD2])
  next
    case (Some n)
    obtain d where d: "contents ?c e nid = Some d" using contents_len [OF inv Some] by blast
    have second: "read_attempt ?c verify (ec_index e2) (ec_dir e2) nid = RdDone (Inr d)"
      using d read_attempt_contents [OF inv2, of nid d] by (simp add: same)
    obtain vol rs where rep: "engine_rep ?c e vol rs" using inv by (auto simp: engine_inv_def)
    then have at: "entry_at ?c vol (writer_id (sk_writer (ec_sink e))) rs n d"
      using contents_at [OF rep, of nid d] d Some by auto
    then obtain vol' rs' where "sink_inv ?c (ec_sink e1) vol' rs'" "entry_at ?c vol' (writer_id (sk_writer (ec_sink e1))) rs' n d"
      using migrate_segment_keeps [OF move] rep unfolding keeps_def engine_rep_def by blast
    then have first: "read_attempt ?c verify (ec_index e) (ec_dir e1) nid = RdDone (Inr d)"
      by (intro read_attempt_at [OF _ Some])
    have "read_attempt ?c verify (ec_index e) (ec_dir e2) nid \<in> {RdDone (Inr d), RdGone}"
      using first delete_if_dead_dir [OF del] Some by (auto simp: read_attempt_def Let_def split: if_splits option.splits)
    with second d show ?thesis by (auto simp: engine_read_def)
  qed
qed

text \<open>An engine after its sink went on to the next segment.\<close>

lemma engine_rolled:
  assumes inv: "engine_inv c e" and above: "nothing_above (ec_sink e)" and room: "unat (writer_id (sk_writer (ec_sink e))) + 1 < 2 ^ 64"
  obtains e' where "engine_inv c e'" "contents c e' = contents c e" "ec_index e' = ec_index e" "ec_commit e' = ec_commit e"
    "nothing_above (ec_sink e')" "writer_id (sk_writer (ec_sink e')) = writer_id (sk_writer (ec_sink e)) + 1"
    "sealed_seg e' (writer_id (sk_writer (ec_sink e)))" "in_segs e {writer_id (sk_writer (ec_sink e)) + 1} = {}"
proof -
  let ?w = "writer_id (sk_writer (ec_sink e))"
  obtain vol rs where rep: "engine_rep c e vol rs" using inv by (auto simp: engine_inv_def)
  then have sink: "sink_inv c (ec_sink e) vol rs" by (simp add: engine_rep_def)
  have "?w < - 1" using room by (simp add: less_max_u64)
  from sink_roll_fresh [OF sink above this, of "\<lambda>_. 0" 1] obtain s'
    where s': "sink_roll c (\<lambda>_. 0) (ec_sink e) 1 = (s', Inr ())" "nothing_above s'" "writer_id (sk_writer s') = ?w + 1" by blast
  obtain h z where h: "sh_seg_id h = ?w" "sink_inv c s' (vol @ [(h, rs, z)]) []" using sink_roll_inv [OF sink s'(1)] by auto
  obtain vol' rs' where K: "sink_inv c s' vol' rs'"
      "\<And>n d. entry_at c vol ?w rs n d \<Longrightarrow> entry_at c vol' (writer_id (sk_writer s')) rs' n d"
    using keeps_grows [OF grows_roll [OF s'(1), of "(Pad, 0, 1, [])"]] sink by (auto simp: keeps_def rec_lsn_def) metis
  define e' where "e' = e\<lparr>ec_sink := s'\<rparr>"
  have rep': "engine_rep c e' vol' rs'" using rep K by (auto simp: engine_rep_def e'_def located_def) blast
  have same: "contents c e' x = contents c e x" for x
    by (rule contents_same [OF rep rep']) (simp_all add: e'_def K(2))
  have "ne_seg_id n \<noteq> ?w + 1" if live: "lookup (ec_index e) x = Some n" for x n
  proof -
    obtain d where "entry_at c vol ?w rs n d" using rep live unfolding engine_rep_def located_def by blast
    then have "ne_seg_id n \<in> set (seg_ids vol) \<union> {?w}"
      by (auto simp: entry_at_def in_log_def seg_ids_def image_iff) force
    moreover have "distinct (seg_ids vol @ [?w, ?w + 1])" using h s'(3) by (simp add: sink_inv_def seg_ids_def)
    ultimately show ?thesis by auto
  qed
  then have "in_segs e {?w + 1} = {}" by (auto simp: in_segs_def)
  moreover have "sealed_seg e' ?w" using h s'(3) by (auto simp: e'_def sealed_seg_def sink_inv_def seg_ids_def simp del: set_map)
  ultimately show thesis
    using rep' same s'(2,3) by (intro that [of e']) (auto simp: engine_inv_def e'_def)
qed

theorem read_during_collection_witness:
  "\<exists>e sid e1 out1 e2 r. sealed_seg e sid \<and> migrate_segment store_env sid outcome_zero e = Some (e1, Inr out1) \<and>
     delete_if_dead sid out1 e1 = Some (e2, r) \<and>
     engine_read (en_crc store_env) True (ec_index e, ec_dir e2) (ec_index e2, ec_dir e2) 7 = Inr [1, 2, 3]"
proof -
  let ?c = "en_crc store_env"
  obtain e0 where e0: "fresh_core store_env store_cfg e0" using open_new_volume [OF store_cfg_good] by blast
  have inv0: "engine_inv ?c e0" "healthy (Suc 5) e0" using e0 by (simp_all add: fresh_core_def)
  have room: "affords e0 (length [1, 2, 3 :: byte]) 1" by (rule fresh_room [OF e0]) simp_all
  obtain e1 where e1: "healthy 5 e1" "engine_inv ?c e1" "contents ?c e1 7 = Some [1, 2, 3]" "spends 3 1 e0 e1"
    using write_completes [OF inv0 room store_fits [OF e0], of 7 Async] by (auto simp: written_def numeral_eq_Suc)
  have "affords e0 3 2" by (rule fresh_room [OF e0]) simp_all
  then have "affords e1 0 1" using spends_affords [OF e1(4), of 0 1] by (simp add: numeral_2_eq_2)
  then have zero1: "affords e1 0 0" by (rule affords_mono) simp_all
  have a1: "nothing_above (ec_sink e1)" "unat (writer_id (sk_writer (ec_sink e1))) + 1 < 2 ^ 64"
    using e1(1) by (simp_all add: healthy_def)
  obtain e2 where e2: "engine_inv ?c e2" "contents ?c e2 = contents ?c e1" "ec_index e2 = ec_index e1" "ec_commit e2 = ec_commit e1"
    "nothing_above (ec_sink e2)"
    "writer_id (sk_writer (ec_sink e2)) = writer_id (sk_writer (ec_sink e1)) + 1"
    "in_segs e1 {writer_id (sk_writer (ec_sink e1)) + 1} = {}"
    using e1(2) a1 by (rule engine_rolled)
  let ?sid = "writer_id (sk_writer (ec_sink e1)) + 1"
  have "unat (writer_id (sk_writer (ec_sink e2))) + 1 < 2 ^ 64"
    using e1(1) unat_add_u64 [of "writer_id (sk_writer (ec_sink e1))" 1] by (simp add: e2(6) healthy_def)
  with e2(1,5) obtain e3 where e3: "engine_inv ?c e3" "contents ?c e3 = contents ?c e2" "ec_index e3 = ec_index e2"
    "ec_commit e3 = ec_commit e2" "sealed_seg e3 ?sid"
    by (rule engine_rolled) (auto simp: e2(6))
  have none: "in_segs e3 {?sid} = {}" using e2(7) by (simp add: in_segs_def e2(3) e3(3))
  have zero3: "affords e3 (data_in ?c e3 (in_segs e3 {?sid})) (card (in_segs e3 {?sid}))"
    using zero1 unfolding none by (simp add: affords_def e2 e3 data_in_def)
  have "seg_needles (ec_index e3) ?sid = []" using seg_needles_cost(1) [OF e3(1), of ?sid] none by simp
  then have move: "migrate_segment store_env ?sid outcome_zero e3 = Some (e3, Inr outcome_zero)" by (simp add: migrate_segment_def)
  obtain e4 r where del: "delete_if_dead ?sid outcome_zero e3 = Some (e4, r)"
    by (cases "delete_if_dead ?sid outcome_zero e3") (auto simp: delete_if_dead_def Let_def split: if_splits prod.splits)
  have "engine_read ?c True (ec_index e3, ec_dir e4) (ec_index e4, ec_dir e4) 7 = Inr [1, 2, 3]"
    using read_during_collection [OF e3(1,5) zero3 move del, of True 7] e1(3) by (simp add: e2 e3)
  with move del e3(5) show ?thesis by blast
qed

section \<open>The volume's capacity\<close>

text \<open>How an operation may change the index: the relation holds between the index before and after it.\<close>

definition index_step :: "(WalIndex \<Rightarrow> WalIndex \<Rightarrow> bool) \<Rightarrow> 'a eng \<Rightarrow> bool" where
  "index_step R m \<longleftrightarrow> (\<forall>e e' r. m e = Some (e', r) \<longrightarrow> R (ec_index e) (ec_index e'))"

lemma index_stepD: "index_step R m \<Longrightarrow> m e = Some (e', r) \<Longrightarrow> R (ec_index e) (ec_index e')"
  unfolding index_step_def by blast

text \<open>Capacity and pinned bytes stay, and the deleted data does not grow.\<close>

definition cap_shrinks :: "WalIndex \<Rightarrow> WalIndex \<Rightarrow> bool" where
  "cap_shrinks idx idx' \<longleftrightarrow>
     volume_size idx' = volume_size idx \<and> pinned_bytes (stats idx') = pinned_bytes (stats idx) \<and>
     hm_sum tomb_len (tombstones idx') \<le> hm_sum tomb_len (tombstones idx)"

lemma cap_shrinks_refl [simp]: "cap_shrinks idx idx"
  by (simp add: cap_shrinks_def)

lemma cap_shrinks_trans: "cap_shrinks a b \<Longrightarrow> cap_shrinks b c \<Longrightarrow> cap_shrinks a c"
  by (simp add: cap_shrinks_def)

lemma shrinks_bind: "index_step cap_shrinks m \<Longrightarrow> (\<And>a. index_step cap_shrinks (f a)) \<Longrightarrow> index_step cap_shrinks (ebind m f)"
  unfolding index_step_def [of _ "ebind m f"]
  by (auto elim!: ebind_SomeE dest: index_stepD intro: cap_shrinks_trans)

lemma shrinks_basic [simp]:
  "index_step cap_shrinks (eret x)" "index_step cap_shrinks (efail y)" "index_step cap_shrinks (eget g)"
  "index_step cap_shrinks (enq env req)" "index_step cap_shrinks (flush l)" "index_step cap_shrinks (store_superblock env q)"
  "index_step cap_shrinks (write_ckpt env data)"
  by (auto simp: index_step_def enq_def flush_def store_superblock_def write_ckpt_def put_dir_def Let_def split: sum.splits)

lemma shrinks_put: "(\<And>e. ec_index (f e) = ec_index e) \<Longrightarrow> index_step cap_shrinks (eput f)"
  by (simp add: index_step_def)

lemma shrinks_with_index:
  "(\<And>idx idx' a. F idx = Inr (idx', a) \<Longrightarrow> cap_shrinks idx idx') \<Longrightarrow> index_step cap_shrinks (with_index F)"
  by (auto simp: index_step_def with_index_def split: sum.splits prod.splits)

lemma hm_sum_remove_le: "hm_sum f (hm_remove k m) \<le> hm_sum f m"
  by (induction m) (auto simp: hm_sum_def)

lemma shrinks_effects [simp]:
  "cap_shrinks idx (data_effect e idx)" "cap_shrinks idx (fst (migrate_effect e v idx))" "cap_shrinks idx (purge_effect l n idx)"
  "cap_shrinks idx (apply_ckpt_anchor idx q a l)" "cap_shrinks idx (fst (prune_purge_markers idx l))"
  "cap_shrinks idx (fst (remove_seg_garbage idx sid))"
  by (auto simp: cap_shrinks_def data_effect_def put_data_def insert_fresh_def bury_tomb_def overwrite_def migrate_effect_def
      purge_effect_def apply_ckpt_anchor_def prune_purge_markers_def remove_seg_garbage_def Let_def hm_sum_remove_le
      split: option.splits)

lemma checkpoint_shrinks: "index_step cap_shrinks (checkpoint_impl env)"
  unfolding checkpoint_impl_def split_def
  by (intro shrinks_bind shrinks_basic shrinks_put shrinks_with_index) auto

lemma shrinks_if: "index_step R m \<Longrightarrow> index_step R m' \<Longrightarrow> index_step R (if b then m else m')"
  by simp

lemma apply_gc_migrate_shrinks: "apply_gc_migrate idx s o1 c l p now = Inr (idx', a) \<Longrightarrow> cap_shrinks idx idx'"
proof -
  assume "apply_gc_migrate idx s o1 c l p now = Inr (idx', a)"
  then obtain ent v where "migrate_effect ent v idx = (idx', a)"
    by (auto simp: apply_gc_migrate_def Let_def split: if_splits)
  then show ?thesis using shrinks_effects(2) [of idx ent v] by simp
qed

lemma migrate_write_shrinks: "index_step cap_shrinks (migrate_write env n v d)"
  unfolding migrate_write_def Let_def
  by (intro shrinks_bind shrinks_basic shrinks_with_index shrinks_if) (rule apply_gc_migrate_shrinks)

lemma purge_write_shrinks: "index_step cap_shrinks (purge_write env n l)"
  unfolding purge_write_def Let_def
  by (intro shrinks_bind shrinks_basic shrinks_with_index) (auto simp: apply_tomb_purge_encode)

lemma purge_all_shrinks: "index_step cap_shrinks (purge_all env xs out)"
  by (induction xs arbitrary: out) (auto intro: shrinks_bind purge_write_shrinks)

lemma migrate_each_shrinks: "index_step cap_shrinks (migrate_each env ns l out)"
  by (induction ns arbitrary: l out) (auto intro!: shrinks_bind migrate_write_shrinks split: sum.splits)

lemma delete_if_dead_shrinks: "index_step cap_shrinks (delete_if_dead sid out)"
proof -
  have "cap_shrinks idx idx'" if "remove_seg_garbage idx sid = (idx', n)" for idx idx' n
    using shrinks_effects(6) [of idx sid] by (simp add: that)
  then show ?thesis
    by (auto simp: index_step_def delete_if_dead_def put_dir_def Let_def split: prod.splits if_splits)
qed

lemma collect_each_shrinks: "index_step cap_shrinks (collect_each env sids out)"
proof (induction sids arbitrary: out)
  case (Cons sid sids)
  have "index_step cap_shrinks (migrate_segment env sid out)"
    unfolding migrate_segment_def split_def
    by (intro shrinks_bind shrinks_basic migrate_each_shrinks shrinks_if)
  with Cons show ?case by (auto intro!: shrinks_bind delete_if_dead_shrinks)
qed simp

lemma gc_shrinks: "index_step cap_shrinks (run_gc_cycle env cfg)"
proof -
  have "index_step cap_shrinks gc_prune_markers"
    by (auto simp: index_step_def gc_prune_markers_def split: option.splits)
  then show ?thesis
    unfolding run_gc_cycle_def by (intro shrinks_bind shrinks_basic purge_all_shrinks collect_each_shrinks)
qed

lemma hm_sum_dom:
  assumes "hm_wf m"
  shows "hm_sum f m = (\<Sum>x\<in>dom (hm_get m). f (the (hm_get m x)))"
proof -
  have "hm_sum f m = (\<Sum>p\<leftarrow>m. f (the (hm_get m (fst p))))"
    using assms by (auto simp: hm_sum_def hm_wf_def intro!: arg_cong [of _ _ sum_list] map_cong)
  also have "\<dots> = (\<Sum>x\<leftarrow>map fst m. f (the (hm_get m x)))" by (simp add: o_def)
  also have "\<dots> = (\<Sum>x\<in>set (map fst m). f (the (hm_get m x)))"
    using assms by (intro sum_list_distinct_conv_sum_set) (simp add: hm_wf_def)
  finally show ?thesis by (simp add: dom_map_of_conv_image_fst)
qed

lemma live_bytes:
  assumes "engine_inv c e"
  shows "hm_sum needle_len (needles (ec_index e)) = data_in c e (dom (contents c e))"
proof -
  have "hm_wf (needles (ec_index e))" using assms by (auto simp: engine_inv_def engine_rep_def index_inv_def index_wf_def)
  note this [THEN hm_sum_dom, of needle_len]
  also have "dom (hm_get (needles (ec_index e))) = dom (contents c e)" using contents_dom [OF assms] by (simp add: lookup_def dom_def)
  also have "(\<Sum>x\<in>dom (contents c e). needle_len (the (hm_get (needles (ec_index e)) x))) = data_in c e (dom (contents c e))"
    unfolding data_in_def
  proof (rule sum.cong [OF refl])
    fix x assume "x \<in> dom (contents c e)"
    then obtain n where n: "lookup (ec_index e) x = Some n" using contents_dom [OF assms] by auto
    with contents_len [OF assms n] show "needle_len (the (hm_get (needles (ec_index e)) x)) = length (the (contents c e x))"
      by (auto simp: lookup_def)
  qed
  finally show ?thesis .
qed

text \<open>The data held, live and deleted, is within the volume's size.\<close>

definition cap_inv :: "EngineCore \<Rightarrow> bool" where
  "cap_inv e \<longleftrightarrow> pinned_bytes (stats (ec_index e)) = 0 \<and>
     (volume_size (ec_index e) = 0 \<or>
      hm_sum needle_len (needles (ec_index e)) + hm_sum tomb_len (tombstones (ec_index e)) \<le> unat (volume_size (ec_index e)))"

lemma occupied_exact:
  assumes "engine_inv c e" and "pinned_bytes (stats (ec_index e)) = 0" and "affords e 0 0"
  shows "unat (occupied_bytes (stats (ec_index e))) =
    hm_sum needle_len (needles (ec_index e)) + hm_sum tomb_len (tombstones (ec_index e))"
  using assms unat_add_u64 [of "used_bytes (stats (ec_index e))" "staging_bytes (stats (ec_index e))"]
  by (auto simp: engine_inv_def engine_rep_def index_inv_def stats_ok_def occupied_bytes_def affords_def index_bytes_def)

lemma cap_quiet:
  assumes "engine_inv c e" and "engine_inv c e'" and "contents c e' = contents c e"
    and "cap_shrinks (ec_index e) (ec_index e')" and "cap_inv e"
  shows "cap_inv e'"
  using assms by (auto simp: cap_inv_def cap_shrinks_def live_bytes data_in_def)

lemma cap_write:
  assumes run: "engine_write env nid data m e = Some (e', r)" and inv: "engine_inv (en_crc env) e"
    and k: "affords e (length data) 1" and cap: "cap_inv e"
  shows "cap_inv e'"
proof -
  let ?c = "en_crc env"
  have inv': "engine_inv ?c e'" using engine_write_effect [OF run inv k] by (simp add: written_def)
  have admit: "write_admit nid data e = Some (e, Inr ()) \<or> (e' = e \<and> isl r)"
    using run unfolding engine_write_def
    by (auto simp: write_admit_def Let_def elim!: ebind_SomeE split: if_splits)
  have shrinks: "cap_shrinks (ec_index e) (ec_index e')"
  proof -
    have "index_step cap_shrinks (write_admit nid data)" by (auto simp: index_step_def write_admit_def Let_def split: if_splits)
    moreover have "index_step cap_shrinks (write_apply env nid data rc)" for rc
      unfolding write_apply_def by (intro shrinks_bind shrinks_basic shrinks_with_index) (auto simp: apply_data_def Let_def split: if_splits)
    ultimately have "index_step cap_shrinks (engine_write env nid data m)"
      unfolding engine_write_def by (intro shrinks_bind shrinks_basic)
    then show ?thesis using run by (rule index_stepD)
  qed
  show ?thesis
  proof (cases r)
    case (Inl x)
    with engine_write_effect [OF run inv k] show ?thesis by (intro cap_quiet [OF inv inv' _ shrinks cap]) (simp add: written_def)
  next
    case (Inr rc)
    have new: "contents ?c e' = (contents ?c e)(nid \<mapsto> data)" using engine_write_effect [OF run inv k] Inr by (simp add: written_def)
    have "data_in ?c e' (dom (contents ?c e')) = length data + (\<Sum>x\<in>dom (contents ?c e) - {nid}. length (the (contents ?c e x)))"
      using finite_contents [OF inv] by (simp add: data_in_def new sum.insert_remove)
    also have "\<dots> \<le> length data + data_in ?c e (dom (contents ?c e))"
      using finite_contents [OF inv] by (simp add: data_in_def sum_mono2)
    finally have live: "hm_sum needle_len (needles (ec_index e')) \<le> length data + hm_sum needle_len (needles (ec_index e))"
      by (simp add: live_bytes [OF inv] live_bytes [OF inv'])
    have zero: "affords e 0 0" using k by (rule affords_mono) simp_all
    have fit: "occupied_bytes (stats (ec_index e)) + of_nat (length data) \<le> volume_size (ec_index e)" if "volume_size (ec_index e) \<noteq> 0"
      using admit Inr that by (auto simp: write_admit_def Let_def word_gt_0 split: if_splits)
    have "unat (occupied_bytes (stats (ec_index e)) + of_nat (length data)) =
        hm_sum needle_len (needles (ec_index e)) + hm_sum tomb_len (tombstones (ec_index e)) + length data"
      using occupied_exact [OF inv _ zero] cap k
      by (subst unat_add_u64) (auto simp: cap_inv_def affords_def index_bytes_def unat_of_nat_u64)
    then have "hm_sum needle_len (needles (ec_index e)) + hm_sum tomb_len (tombstones (ec_index e)) + length data
        \<le> unat (volume_size (ec_index e))" if "volume_size (ec_index e) \<noteq> 0"
      using fit [OF that] by (simp add: word_le_nat_alt)
    with live shrinks cap show ?thesis by (cases "volume_size (ec_index e) = 0") (simp_all add: cap_inv_def cap_shrinks_def)
  qed
qed

lemma delete_effect_held:
  assumes inv: "index_inv idx"
  shows "hm_sum needle_len (needles (delete_effect l n at until idx)) + hm_sum tomb_len (tombstones (delete_effect l n at until idx)) =
      hm_sum needle_len (needles idx) + hm_sum tomb_len (tombstones idx)"
    and "volume_size (delete_effect l n at until idx) = volume_size idx"
    and "pinned_bytes (stats (delete_effect l n at until idx)) = pinned_bytes (stats idx)"
proof -
  have "hm_sum needle_len (hm_remove n (needles idx)) + needle_len a = hm_sum needle_len (needles idx)"
    "hm_get (tombstones idx) n = None" if "hm_get (needles idx) n = Some a" for a
    using inv that hm_sum_remove [of "needles idx" n a needle_len] by (auto simp: index_inv_def index_wf_def)
  then show "hm_sum needle_len (needles (delete_effect l n at until idx)) + hm_sum tomb_len (tombstones (delete_effect l n at until idx)) =
      hm_sum needle_len (needles idx) + hm_sum tomb_len (tombstones idx)"
    by (auto simp: delete_effect_def Let_def hm_sum_insert_new split: option.split)
qed (auto simp: delete_effect_def Let_def split: option.split)

lemma engine_delete_index:
  assumes "engine_delete env nid m e = Some (e', r)"
  shows "ec_index e' = ec_index e \<or> (\<exists>l at until. ec_index e' = delete_effect l nid at until (ec_index e))"
proof (cases "lookup (ec_index e) nid = None \<and> tombstone_of (ec_index e) nid = None")
  case False
  let ?until = "en_now env + we_tombstone_retention_secs (ec_config e)"
  let ?req = "in_mode m (CommitRequest_new Delete (DeletePayload_encode
    \<lparr>del_needle_id = nid, del_deleted_at = en_now env, del_retention_until = ?until\<rparr>))"
  have ix: "ec_index e1 = ec_index e" if "enq env ?req e = Some (e1, x)" for e1 x using that by (auto simp: enq_def)
  have "ec_index e' = (case enq env ?req e of Some (_, Inr rc) \<Rightarrow> delete_effect (rc_lsn rc) nid (en_now env) ?until (ec_index e) | _ \<Rightarrow> ec_index e)"
    using assms False unfolding engine_delete_def Let_def ebind_get
    by (cases rule: enq_cases [of env ?req e]) (auto simp: ebind_def with_index_def apply_delete_encode dest: ix)
  then show ?thesis by (auto split: option.splits sum.splits prod.splits)
qed (use assms in \<open>simp add: engine_delete_def\<close>)

lemma resize_index:
  assumes "resize_impl env sz e = Some (e', r)"
  shows "ec_index e' = ec_index e \<or>
    (occupied_bytes (stats (ec_index e)) \<le> sz \<and> needles (ec_index e') = needles (ec_index e) \<and>
     tombstones (ec_index e') = tombstones (ec_index e) \<and> stats (ec_index e') = stats (ec_index e) \<and> volume_size (ec_index e') = sz)"
proof -
  have enq: "ec_index e1 = ec_index e" if "enq env req e = Some (e1, x)" for req e1 x using that by (auto simp: enq_def)
  have sb: "ec_index e2 = ec_index e1" if "store_superblock env q e1 = Some (e2, x)" for q e1 e2 x
    using that by (auto simp: store_superblock_def put_dir_def Let_def)
  from assms show ?thesis
    unfolding resize_impl_def Let_def ebind_get
    by (auto simp: with_index_def apply_volume_meta_encode not_less split: if_splits elim!: ebind_SomeE dest!: enq sb)
qed

lemma run_op_cap:
  assumes inv: "engine_inv c e" and room: "op_room c eo e" and run: "run_op eo e = Some (e', ok)" and cap: "cap_inv e"
  shows "cap_inv e'"
proof -
  obtain env op where eo: "eo = (env, op)" by fastforce
  have c: "c = en_crc env" using room by (simp add: op_room_def eo)
  have inv': "engine_inv c e'" and next_map: "contents c e' = spec_op op ok (contents c e)"
    using run_op_refines [OF inv room run] by (simp_all add: eo)
  have quiet: "cap_inv e'" if "index_step cap_shrinks m" "map_option with_status (m e) = Some (e', ok)" "contents c e' = contents c e" for m :: "'x eng"
    using that cap_quiet [OF inv inv' that(3) _ cap] by (auto dest: index_stepD)
  show ?thesis
  proof (cases op)
    case (CoWrite nid data m)
    with run room show ?thesis
      by (auto simp: run_op_def op_room_def eo c [symmetric] intro: cap_write [OF _ inv [unfolded c] _ cap])
  next
    case (CoDelete nid m)
    then obtain r where "engine_delete env nid m e = Some (e', r)" using run by (auto simp: run_op_def eo)
    moreover have "index_inv (ec_index e)" using inv by (auto simp: engine_inv_def engine_rep_def)
    ultimately show ?thesis
      using engine_delete_index [of env nid m e e' r] delete_effect_held [of "ec_index e"] cap by (auto simp: cap_inv_def)
  next
    case (CoResize sz)
    then obtain r where "resize_impl env sz e = Some (e', r)" using run by (auto simp: run_op_def eo)
    moreover have "affords e 0 0" using room affords_mono [of e 0 1 0 0] by (simp add: op_room_def eo CoResize)
    ultimately show ?thesis
      using resize_index [of env sz e e' r] occupied_exact [OF inv, unfolded c] cap by (auto simp: cap_inv_def word_le_nat_alt)
  next
    case (CoFlush l)
    with next_map run show ?thesis by (intro quiet [OF shrinks_basic(5)]) (simp_all add: run_op_def eo)
  next
    case CoCheckpoint
    with next_map run show ?thesis by (intro quiet [OF checkpoint_shrinks]) (simp_all add: run_op_def eo)
  next
    case CoGc
    with next_map run show ?thesis by (intro quiet [OF gc_shrinks]) (simp_all add: run_op_def eo)
  qed
qed

text \<open>C4: A volume is never overfilled. After any run of operations on a new volume of limited size, the occupied
  bytes that the engine reports are the exact sum of the live and deleted data, without wrap-around, and do not
  exceed the volume's size.\<close>

theorem volume_within_capacity:
  assumes "good_config cfg" and "engine_open env False [] cfg = Some (Inr e0)"
    and "runs run_op (op_room (en_crc env)) e0 xs e" and "affords e 0 0"
  shows "unat (occupied_bytes (stats (ec_index e))) =
      hm_sum needle_len (needles (ec_index e)) + hm_sum tomb_len (tombstones (ec_index e)) \<and>
    (volume_size (ec_index e) = 0 \<or> occupied_bytes (stats (ec_index e)) \<le> volume_size (ec_index e))"
proof -
  let ?c = "en_crc env"
  have "fresh_core env cfg e0" using open_new_volume [OF assms(1), of env] assms(2) by auto
  then have start: "engine_inv ?c e0" "cap_inv e0"
    by (simp_all add: fresh_core_def cap_inv_def WalIndex_new_def stats_zero_def)
  from assms(3) start have "engine_inv ?c e \<and> cap_inv e"
    by (induction rule: runs.induct) (auto dest: run_op_refines run_op_cap)
  with occupied_exact [of ?c e] assms(4) show ?thesis by (auto simp: cap_inv_def word_le_nat_alt)
qed

theorem volume_within_capacity_witness:
  "\<exists>e0 e. engine_open store_env False [] store_cfg = Some (Inr e0) \<and>
     runs run_op (op_room (en_crc store_env)) e0 [((store_env, CoWrite 7 [1, 2, 3] Async), True)] e \<and>
     (volume_size (ec_index e) = 0 \<or> occupied_bytes (stats (ec_index e)) \<le> volume_size (ec_index e))"
proof -
  obtain e where e: "engine_open store_env False [] store_cfg = Some (Inr e)" "fresh_core store_env store_cfg e"
    using open_new_volume [OF store_cfg_good] by blast
  obtain e' where run: "runs run_op (op_room (en_crc store_env)) e [((store_env, CoWrite 7 [1, 2, 3] Async), True)] e'"
      and spent: "spends 3 1 e e'"
    using store_run [OF e(2)] by blast
  have "affords e 3 1" by (rule fresh_room [OF e(2)]) simp_all
  then have "affords e' 0 0" using spends_affords [OF spent, of 0 0] by simp
  with volume_within_capacity [OF store_cfg_good e(1) run] e(1) run show ?thesis by blast
qed

end
