(* ===== verification/Lease_Store.thy ===== *)
theory Lease_Store
  imports PFS_Prelude
begin

text \<open>
  The server-side lease store of \<^verbatim>\<open>powerfs-lease\<close> (\<^verbatim>\<open>token.rs\<close>, \<^verbatim>\<open>error.rs\<close>, \<^verbatim>\<open>store.rs\<close>,
  \<^verbatim>\<open>persistence.rs\<close>): the entry codec of the persistence backend and every operation of
  \<^verbatim>\<open>MemoryLeaseStore\<close>. The resource key (trait \<^verbatim>\<open>LeaseKey\<close>) and the persistence backend (trait
  \<^verbatim>\<open>LeasePersistence\<close>) are records of operations that the definitions take as arguments. What a
  call takes from its surroundings, the readings of the clocks and the random UUID, is an argument
  as well: one reading per call of \<^verbatim>\<open>Instant::now\<close>.
\<close>

section \<open>Strings, clocks and errors\<close>

text \<open>An \<^verbatim>\<open>Instant\<close> is a number of nanoseconds since some origin, a
  \<^verbatim>\<open>Duration\<close> a number of nanoseconds.\<close>

type_synonym instant = nat
type_synonym duration = nat

definition ascii :: "string \<Rightarrow> str" where
  "ascii cs = map of_char cs"

text \<open>The decimal digits that \<^verbatim>\<open>format!("{}", n)\<close> prints.\<close>

fun decimal :: "nat \<Rightarrow> str" where
  "decimal n = (if n < 10 then [48 + of_nat n] else decimal (n div 10) @ [48 + of_nat (n mod 10)])"

declare decimal.simps [simp del]

definition from_millis :: "u64 \<Rightarrow> duration" where
  "from_millis ms = unat ms * 1000000"

text \<open>The text of a conflict is kept as the values it is formatted from.\<close>

datatype ConflictText =
    HeldBy u64 str
  | BatchHeldBy u64 str
  | BatchInternal u64

datatype InternalText =
    UnexpectedEnd
  | InvalidTokenUtf8
  | InvalidHolderUtf8
  | KeyTooShort
  | NoBackend
  | BackendFailed str

datatype LeaseError =
    NotFound
  | HolderMismatch str str
  | Expired
  | ExpiredBeyondGrace
  | Conflict ConflictText
  | KeyNotCovered
  | Internal InternalText

datatype LeaseMode = Shared | Exclusive

definition is_exclusive :: "LeaseMode \<Rightarrow> bool" where
  "is_exclusive m = (case m of Shared \<Rightarrow> False | Exclusive \<Rightarrow> True)"

section \<open>Keys, entries and backends\<close>

record 'k LeaseKey =
  group_id :: "'k \<Rightarrow> u64"
  conflicts :: "'k \<Rightarrow> 'k \<Rightarrow> bool"
  key_encode :: "'k \<Rightarrow> bytes"
  key_decode :: "bytes \<Rightarrow> LeaseError + 'k"

record 'k LeaseEntry =
  le_key :: 'k
  le_holder :: str
  le_token :: str
  le_mode :: LeaseMode
  le_acquired_at :: instant
  le_expire_at :: instant
  le_epoch :: u64

definition is_expired :: "instant \<Rightarrow> 'k LeaseEntry \<Rightarrow> bool" where
  "is_expired now e \<longleftrightarrow> le_expire_at e < now"

definition is_expired_beyond :: "instant \<Rightarrow> duration \<Rightarrow> 'k LeaseEntry \<Rightarrow> bool" where
  "is_expired_beyond now grace e \<longleftrightarrow> le_expire_at e + grace < now"

text \<open>A backend keeps a state of type \<open>'p\<close>; each call gives its result and the next state.\<close>

record 'p LeasePersistence =
  p_save :: "str \<Rightarrow> bytes \<Rightarrow> 'p \<Rightarrow> (LeaseError + unit) \<times> 'p"
  p_delete :: "str \<Rightarrow> 'p \<Rightarrow> (LeaseError + unit) \<times> 'p"
  p_load_all :: "'p \<Rightarrow> LeaseError + (str \<times> bytes) list"
  p_save_epoch :: "u64 \<Rightarrow> 'p \<Rightarrow> (LeaseError + unit) \<times> 'p"
  p_load_epoch :: "'p \<Rightarrow> LeaseError + u64"

section \<open>The entry codec\<close>

definition write_bytes :: "bytes \<Rightarrow> bytes" where
  "write_bytes d = u32_le (of_nat (length d)) @ d"

text \<open>The readers take the buffer and the position and return the value with the next position.\<close>

definition rd_u8 :: "bytes \<Rightarrow> nat \<Rightarrow> LeaseError + byte \<times> nat" where
  "rd_u8 d pos = (if length d \<le> pos then Inl (Internal UnexpectedEnd) else Inr (d ! pos, pos + 1))"

definition rd_u32 :: "bytes \<Rightarrow> nat \<Rightarrow> LeaseError + u32 \<times> nat" where
  "rd_u32 d pos =
     (if length d < pos + 4 then Inl (Internal UnexpectedEnd)
      else Inr (of_le (subslice pos (pos + 4) d), pos + 4))"

definition rd_u64 :: "bytes \<Rightarrow> nat \<Rightarrow> LeaseError + u64 \<times> nat" where
  "rd_u64 d pos =
     (if length d < pos + 8 then Inl (Internal UnexpectedEnd)
      else Inr (of_le (subslice pos (pos + 8) d), pos + 8))"

definition read_bytes :: "bytes \<Rightarrow> nat \<Rightarrow> LeaseError + bytes \<times> nat" where
  "read_bytes d pos0 =
     rbind (rd_u32 d pos0) (\<lambda>(n, pos).
       (let len = unat n in
        if length d < pos + len then Inl (Internal UnexpectedEnd)
        else Inr (subslice pos (pos + len) d, pos + len)))"

text \<open>A reading of both clocks: the wall clock since the Unix epoch and the monotonic one. A
  wall clock before the epoch reads as zero.\<close>

record Clocks =
  now_system :: duration
  now_instant :: instant

definition instant_to_unix_millis :: "Clocks \<Rightarrow> instant \<Rightarrow> u64" where
  "instant_to_unix_millis c i =
     (let offset = (if now_instant c \<le> i then now_system c + (i - now_instant c)
                    else now_system c - (now_instant c - i))
      in of_nat (offset div 1000000))"

definition unix_millis_to_instant :: "Clocks \<Rightarrow> u64 \<Rightarrow> instant" where
  "unix_millis_to_instant c ms =
     (let target = from_millis ms in
      if now_system c \<le> target then now_instant c + (target - now_system c) else now_instant c)"

definition encode_entry :: "'k LeaseKey \<Rightarrow> Clocks \<Rightarrow> 'k LeaseEntry \<Rightarrow> bytes" where
  "encode_entry K c e =
     write_bytes (le_token e) @ write_bytes (le_holder e)
     @ [if is_exclusive (le_mode e) then 1 else 0]
     @ u64_le (instant_to_unix_millis c (le_expire_at e))
     @ u64_le (le_epoch e)
     @ write_bytes (key_encode K (le_key e))"

text \<open>\<open>now\<close> and \<open>now2\<close> are the clock when the expiry is tested and when the entry is built.\<close>

definition decode_entry ::
  "'k LeaseKey \<Rightarrow> Clocks \<Rightarrow> instant \<Rightarrow> instant \<Rightarrow> bytes \<Rightarrow> LeaseError + 'k LeaseEntry option"
where
  "decode_entry K c now now2 d =
     rbind (read_bytes d 0) (\<lambda>(token, p1).
     if \<not> utf8_valid token then Inl (Internal InvalidTokenUtf8) else
     rbind (read_bytes d p1) (\<lambda>(holder, p2).
     if \<not> utf8_valid holder then Inl (Internal InvalidHolderUtf8) else
     rbind (rd_u8 d p2) (\<lambda>(mode_byte, p3).
     let mode = (if mode_byte = 1 then Exclusive else Shared) in
     rbind (rd_u64 d p3) (\<lambda>(expire_ms, p4).
     rbind (rd_u64 d p4) (\<lambda>(epoch, p5).
     rbind (read_bytes d p5) (\<lambda>(key_bytes, p6).
     rbind (key_decode K key_bytes) (\<lambda>key.
     let expire_at = unix_millis_to_instant c expire_ms in
     if expire_at < now then Inr None
     else Inr (Some \<lparr>le_key = key, le_holder = holder, le_token = token, le_mode = mode,
                     le_acquired_at = now2, le_expire_at = expire_at, le_epoch = epoch\<rparr>))))))))"

section \<open>The store\<close>

text \<open>A \<^verbatim>\<open>HashSet<String>\<close> is a list without repetitions, in the order of its iteration.\<close>

record ('k, 'p) MemoryLeaseStore =
  leases :: "(str, 'k LeaseEntry) hmap"
  group_index :: "(u64, str list) hmap"
  holder_index :: "(str, str list) hmap"
  holder_count :: u64
  epoch_counter :: u64
  shutdown_flag :: bool
  cleanup_grace :: duration
  persistence :: "'p option"
  acquire_total :: u64
  acquire_conflict_total :: u64
  renew_total :: u64
  release_total :: u64
  expired_total :: u64
  disconnected_total :: u64

record LeaseStats =
  st_active_count :: nat
  st_active_holders :: u64
  st_acquire_total :: u64
  st_acquire_conflict_total :: u64
  st_renew_total :: u64
  st_release_total :: u64
  st_expired_total :: u64
  st_disconnected_total :: u64

definition MemoryLeaseStore_new :: "('k, 'p) MemoryLeaseStore" where
  "MemoryLeaseStore_new =
     \<lparr>leases = [], group_index = [], holder_index = [], holder_count = 0, epoch_counter = 0,
      shutdown_flag = False, cleanup_grace = from_millis 5000, persistence = None,
      acquire_total = 0, acquire_conflict_total = 0, renew_total = 0, release_total = 0,
      expired_total = 0, disconnected_total = 0\<rparr>"

definition with_cleanup_grace ::
  "duration \<Rightarrow> ('k, 'p) MemoryLeaseStore \<Rightarrow> ('k, 'p) MemoryLeaseStore" where
  "with_cleanup_grace grace s = s\<lparr>cleanup_grace := grace\<rparr>"

definition with_persistence :: "'p \<Rightarrow> ('k, 'p) MemoryLeaseStore \<Rightarrow> ('k, 'p) MemoryLeaseStore" where
  "with_persistence backend s = s\<lparr>persistence := Some backend\<rparr>"

text \<open>Best-effort calls of the backend: an error is logged, the store goes on.\<close>

definition backend_save ::
  "'p LeasePersistence \<Rightarrow> str \<Rightarrow> bytes \<Rightarrow> ('k, 'p) MemoryLeaseStore \<Rightarrow> ('k, 'p) MemoryLeaseStore"
where
  "backend_save P token data s =
     (case persistence s of None \<Rightarrow> s
      | Some p \<Rightarrow> s\<lparr>persistence := Some (snd (p_save P token data p))\<rparr>)"

definition backend_delete ::
  "'p LeasePersistence \<Rightarrow> str \<Rightarrow> ('k, 'p) MemoryLeaseStore \<Rightarrow> ('k, 'p) MemoryLeaseStore"
where
  "backend_delete P token s =
     (case persistence s of None \<Rightarrow> s
      | Some p \<Rightarrow> s\<lparr>persistence := Some (snd (p_delete P token p))\<rparr>)"

definition persist_epoch ::
  "'p LeasePersistence \<Rightarrow> ('k, 'p) MemoryLeaseStore
     \<Rightarrow> (LeaseError + unit) \<times> ('k, 'p) MemoryLeaseStore"
where
  "persist_epoch P s =
     (case persistence s of None \<Rightarrow> (Inr (), s)
      | Some p \<Rightarrow> (let (r, p') = p_save_epoch P (epoch_counter s) p
                   in (r, s\<lparr>persistence := Some p'\<rparr>)))"

definition or_default :: "'v list option \<Rightarrow> 'v list" where
  "or_default x = (case x of None \<Rightarrow> [] | Some v \<Rightarrow> v)"

definition group_tokens :: "('k, 'p) MemoryLeaseStore \<Rightarrow> u64 \<Rightarrow> str list" where
  "group_tokens s g = or_default (hm_get (group_index s) g)"

definition holder_tokens :: "('k, 'p) MemoryLeaseStore \<Rightarrow> str \<Rightarrow> str list" where
  "holder_tokens s h = or_default (hm_get (holder_index s) h)"

text \<open>\<^verbatim>\<open>leases.insert\<close>, then \<^verbatim>\<open>group_index.entry(g).or_default().push\<close>.\<close>

definition index_lease ::
  "u64 \<Rightarrow> str \<Rightarrow> 'k LeaseEntry \<Rightarrow> ('k, 'p) MemoryLeaseStore \<Rightarrow> ('k, 'p) MemoryLeaseStore"
where
  "index_lease g token e s =
     s\<lparr>leases := hm_insert token e (leases s),
       group_index := hm_insert g (group_tokens s g @ [token]) (group_index s)\<rparr>"

text \<open>\<^verbatim>\<open>holder_index.entry(h).or_default().insert(token)\<close>, with whether the set was empty.\<close>

definition index_holder ::
  "str \<Rightarrow> str \<Rightarrow> ('k, 'p) MemoryLeaseStore \<Rightarrow> bool \<times> ('k, 'p) MemoryLeaseStore"
where
  "index_holder h token s =
     (let set0 = holder_tokens s h
      in (set0 = [], s\<lparr>holder_index := hm_insert h (List.insert token set0) (holder_index s)\<rparr>))"

definition count_holder :: "bool \<Rightarrow> ('k, 'p) MemoryLeaseStore \<Rightarrow> ('k, 'p) MemoryLeaseStore" where
  "count_holder new s = (if new then s\<lparr>holder_count := holder_count s + 1\<rparr> else s)"

subsection \<open>Loading\<close>

text \<open>One recovered entry. The lease is filed under the backend's key, the holder set gets the
  token inside the entry.\<close>

definition restore_entry ::
  "'k LeaseKey \<Rightarrow> str \<Rightarrow> 'k LeaseEntry \<Rightarrow> ('k, 'p) MemoryLeaseStore \<Rightarrow> ('k, 'p) MemoryLeaseStore"
where
  "restore_entry K token e s =
     (let s1 = (if epoch_counter s \<le> le_epoch e then s\<lparr>epoch_counter := le_epoch e + 1\<rparr> else s);
          s2 = index_lease (group_id K (le_key e)) token e s1;
          (is_new, s3) = index_holder (le_holder e) (le_token e) s2
      in count_holder is_new s3)"

text \<open>The clock readings of one decoded entry.\<close>

record LoadEnv =
  ld_clocks :: Clocks
  ld_now :: instant
  ld_now2 :: instant

fun load_entries ::
  "'k LeaseKey \<Rightarrow> 'p LeasePersistence \<Rightarrow> (str \<Rightarrow> LoadEnv) \<Rightarrow> (str \<times> bytes) list \<Rightarrow> nat
     \<Rightarrow> ('k, 'p) MemoryLeaseStore \<Rightarrow> nat \<times> ('k, 'p) MemoryLeaseStore"
where
  "load_entries K P r [] restored s = (restored, s)"
| "load_entries K P r ((token, data) # es) restored s =
     (case decode_entry K (ld_clocks (r token)) (ld_now (r token)) (ld_now2 (r token)) data of
        Inr (Some e) \<Rightarrow> load_entries K P r es (restored + 1) (restore_entry K token e s)
      | Inr None \<Rightarrow> load_entries K P r es restored (backend_delete P token s)
      | Inl _ \<Rightarrow> load_entries K P r es restored s)"

definition restore_epoch ::
  "'p LeasePersistence \<Rightarrow> 'p \<Rightarrow> ('k, 'p) MemoryLeaseStore \<Rightarrow> ('k, 'p) MemoryLeaseStore"
where
  "restore_epoch P p s =
     (case p_load_epoch P p of
        Inr stored \<Rightarrow> if epoch_counter s < stored then s\<lparr>epoch_counter := stored + 1\<rparr> else s
      | Inl _ \<Rightarrow> s)"

definition load_from_persistence ::
  "'k LeaseKey \<Rightarrow> 'p LeasePersistence \<Rightarrow> (str \<Rightarrow> LoadEnv) \<Rightarrow> ('k, 'p) MemoryLeaseStore
     \<Rightarrow> (LeaseError + nat) \<times> ('k, 'p) MemoryLeaseStore"
where
  "load_from_persistence K P r s =
     (case persistence s of None \<Rightarrow> (Inl (Internal NoBackend), s)
      | Some p \<Rightarrow>
          (let s1 = restore_epoch P p s in
           case p_load_all P p of
             Inl e \<Rightarrow> (Inl e, s1)
           | Inr entries \<Rightarrow>
               (let (restored, s2) = load_entries K P r entries 0 s1 in (Inr restored, s2))))"

subsection \<open>Acquiring\<close>

definition token_text :: "u64 \<Rightarrow> str \<Rightarrow> str" where
  "token_text epoch uuid = ascii ''lease-'' @ decimal (unat epoch) @ ascii ''-'' @ uuid"

definition generate_token ::
  "str \<Rightarrow> ('k, 'p) MemoryLeaseStore \<Rightarrow> (str \<times> u64) \<times> ('k, 'p) MemoryLeaseStore"
where
  "generate_token uuid s =
     (let epoch = epoch_counter s
      in ((token_text epoch uuid, epoch), s\<lparr>epoch_counter := epoch + 1\<rparr>))"

text \<open>The scan of a group's tokens. \<open>chk t\<close> is the clock when the lease of token \<open>t\<close> is looked
  at.\<close>

fun find_conflict ::
  "'k LeaseKey \<Rightarrow> (str, 'k LeaseEntry) hmap \<Rightarrow> (str \<Rightarrow> instant) \<Rightarrow> 'k \<Rightarrow> str \<Rightarrow> LeaseMode
     \<Rightarrow> str list \<Rightarrow> 'k LeaseEntry option"
where
  "find_conflict K ls chk key holder mode [] = None"
| "find_conflict K ls chk key holder mode (t # ts) =
     (case hm_get ls t of None \<Rightarrow> find_conflict K ls chk key holder mode ts
      | Some existing \<Rightarrow>
          if is_expired (chk t) existing then find_conflict K ls chk key holder mode ts
          else if le_holder existing = holder then find_conflict K ls chk key holder mode ts
          else if (is_exclusive (le_mode existing) \<or> is_exclusive mode)
                  \<and> conflicts K (le_key existing) key
          then Some existing
          else find_conflict K ls chk key holder mode ts)"

definition existing_conflict ::
  "'k LeaseKey \<Rightarrow> (str \<Rightarrow> instant) \<Rightarrow> 'k \<Rightarrow> str \<Rightarrow> LeaseMode \<Rightarrow> ('k, 'p) MemoryLeaseStore
     \<Rightarrow> 'k LeaseEntry option"
where
  "existing_conflict K chk key holder mode s =
     (case hm_get (group_index s) (group_id K key) of None \<Rightarrow> None
      | Some existing_tokens \<Rightarrow> find_conflict K (leases s) chk key holder mode existing_tokens)"

definition count_conflict :: "('k, 'p) MemoryLeaseStore \<Rightarrow> ('k, 'p) MemoryLeaseStore" where
  "count_conflict s =
     s\<lparr>acquire_total := acquire_total s + 1,
       acquire_conflict_total := acquire_conflict_total s + 1\<rparr>"

text \<open>The inline housekeeping: the group's index keeps the tokens of leases that have not expired.\<close>

definition sweep_group ::
  "(str \<Rightarrow> instant) \<Rightarrow> u64 \<Rightarrow> ('k, 'p) MemoryLeaseStore \<Rightarrow> ('k, 'p) MemoryLeaseStore"
where
  "sweep_group swp g s =
     (case hm_get (group_index s) g of None \<Rightarrow> s
      | Some tokens \<Rightarrow>
          s\<lparr>group_index := hm_insert g
              (filter (\<lambda>t. case hm_get (leases s) t of None \<Rightarrow> False
                          | Some l \<Rightarrow> \<not> is_expired (swp t) l) tokens)
              (group_index s)\<rparr>)"

text \<open>What one call of \<^verbatim>\<open>acquire\<close> reads: the clock at its start, at the test of each lease, at the
  sweep of each lease, the UUID, and the clocks when the entry is encoded.\<close>

record AcquireEnv =
  ae_now :: instant
  ae_check :: "str \<Rightarrow> instant"
  ae_sweep :: "str \<Rightarrow> instant"
  ae_uuid :: str
  ae_clocks :: Clocks

definition acquire ::
  "'k LeaseKey \<Rightarrow> 'p LeasePersistence \<Rightarrow> AcquireEnv \<Rightarrow> 'k \<Rightarrow> str \<Rightarrow> LeaseMode \<Rightarrow> duration
     \<Rightarrow> ('k, 'p) MemoryLeaseStore \<Rightarrow> (LeaseError + 'k LeaseEntry) \<times> ('k, 'p) MemoryLeaseStore"
where
  "acquire K P r key holder mode dur s =
     (let now = ae_now r; expire_at = now + dur; g = group_id K key in
      case existing_conflict K (ae_check r) key holder mode s of
        Some existing \<Rightarrow> (Inl (Conflict (HeldBy g (le_holder existing))), count_conflict s)
      | None \<Rightarrow>
          (let s1 = sweep_group (ae_sweep r) g s;
               ((token, epoch), s2) = generate_token (ae_uuid r) s1;
               entry = \<lparr>le_key = key, le_holder = holder, le_token = token, le_mode = mode,
                        le_acquired_at = now, le_expire_at = expire_at, le_epoch = epoch\<rparr>;
               s3 = index_lease g token entry s2;
               (is_new_holder, s4) = index_holder holder token s3;
               s5 = count_holder is_new_holder s4;
               s6 = backend_save P token (encode_entry K (ae_clocks r) entry) s5
           in (Inr entry, s6\<lparr>acquire_total := acquire_total s6 + 1\<rparr>)))"

subsection \<open>Acquiring a batch\<close>

text \<open>One key of the batch, with what its turn reads: the clock at the test of each lease, the
  UUID, and the clocks when its entry is encoded.\<close>

record 'k BatchItem =
  bi_key :: 'k
  bi_check :: "str \<Rightarrow> instant"
  bi_uuid :: str
  bi_clocks :: Clocks

text \<open>Phase 1. \<open>pending\<close> are the entries of the keys checked so far.\<close>

fun check_batch ::
  "'k LeaseKey \<Rightarrow> str \<Rightarrow> LeaseMode \<Rightarrow> instant \<Rightarrow> instant \<Rightarrow> 'k BatchItem list \<Rightarrow> 'k LeaseEntry list
     \<Rightarrow> ('k, 'p) MemoryLeaseStore
     \<Rightarrow> (LeaseError + 'k LeaseEntry list) \<times> ('k, 'p) MemoryLeaseStore"
where
  "check_batch K holder mode now expire_at [] pending s = (Inr pending, s)"
| "check_batch K holder mode now expire_at (b # bs) pending s =
     (let key = bi_key b; g = group_id K key in
      case existing_conflict K (bi_check b) key holder mode s of
        Some existing \<Rightarrow> (Inl (Conflict (BatchHeldBy g (le_holder existing))), count_conflict s)
      | None \<Rightarrow>
          if is_exclusive mode
             \<and> (\<exists>p\<in>set pending. group_id K (le_key p) = g \<and> conflicts K (le_key p) key)
          then (Inl (Conflict (BatchInternal g)), count_conflict s)
          else
            (let ((token, epoch), s1) = generate_token (bi_uuid b) s;
                 entry = \<lparr>le_key = key, le_holder = holder, le_token = token, le_mode = mode,
                          le_acquired_at = now, le_expire_at = expire_at, le_epoch = epoch\<rparr>
             in check_batch K holder mode now expire_at bs (pending @ [entry]) s1))"

text \<open>Phase 2: every pending entry is filed and saved.\<close>

fun commit_batch ::
  "'k LeaseKey \<Rightarrow> 'p LeasePersistence \<Rightarrow> str \<Rightarrow> ('k LeaseEntry \<times> Clocks) list \<Rightarrow> bool
     \<Rightarrow> ('k, 'p) MemoryLeaseStore \<Rightarrow> bool \<times> ('k, 'p) MemoryLeaseStore"
where
  "commit_batch K P holder [] new_holder s = (new_holder, s)"
| "commit_batch K P holder ((entry, c) # es) new_holder s =
     (let token = le_token entry;
          s1 = index_lease (group_id K (le_key entry)) token entry s;
          (was_empty, s2) = index_holder holder token s1;
          s3 = backend_save P token (encode_entry K c entry) s2
      in commit_batch K P holder es (new_holder \<or> was_empty) s3)"

definition acquire_batch ::
  "'k LeaseKey \<Rightarrow> 'p LeasePersistence \<Rightarrow> instant \<Rightarrow> 'k BatchItem list \<Rightarrow> str \<Rightarrow> LeaseMode \<Rightarrow> duration
     \<Rightarrow> ('k, 'p) MemoryLeaseStore
     \<Rightarrow> (LeaseError + 'k LeaseEntry list) \<times> ('k, 'p) MemoryLeaseStore"
where
  "acquire_batch K P now items holder mode dur s =
     (if items = [] then (Inr [], s)
      else
        (let expire_at = now + dur in
         case check_batch K holder mode now expire_at items [] s of
           (Inl e, s1) \<Rightarrow> (Inl e, s1)
         | (Inr pending, s1) \<Rightarrow>
             (let (new_holder, s2) =
                    commit_batch K P holder (zip pending (map bi_clocks items)) False s1;
                  s3 = count_holder new_holder s2
              in (Inr pending, s3\<lparr>acquire_total := acquire_total s3 + of_nat (length pending)\<rparr>))))"

subsection \<open>Renewing and releasing\<close>

record RenewEnv =
  re_now :: instant
  re_clocks :: Clocks

definition renew ::
  "'k LeaseKey \<Rightarrow> 'p LeasePersistence \<Rightarrow> RenewEnv \<Rightarrow> str \<Rightarrow> str \<Rightarrow> duration
     \<Rightarrow> ('k, 'p) MemoryLeaseStore \<Rightarrow> (LeaseError + unit) \<times> ('k, 'p) MemoryLeaseStore"
where
  "renew K P r token holder dur s =
     (case hm_get (leases s) token of
        Some entry \<Rightarrow>
          if le_holder entry \<noteq> holder then (Inl (HolderMismatch (le_holder entry) holder), s)
          else
            (let entry' = entry\<lparr>le_expire_at := re_now r + dur, le_epoch := epoch_counter s\<rparr>;
                 s1 = s\<lparr>leases := hm_insert token entry' (leases s),
                        epoch_counter := epoch_counter s + 1\<rparr>;
                 s2 = backend_save P token (encode_entry K (re_clocks r) entry') s1
             in (Inr (), s2\<lparr>renew_total := renew_total s2 + 1\<rparr>))
      | None \<Rightarrow> (Inl NotFound, s))"

text \<open>\<^verbatim>\<open>release\<close> takes the three locks one after the other, so other calls may run in between: its
  three critical sections are operations of their own.\<close>

definition release_lease ::
  "'k LeaseKey \<Rightarrow> str \<Rightarrow> str \<Rightarrow> ('k, 'p) MemoryLeaseStore
     \<Rightarrow> (LeaseError + u64) \<times> ('k, 'p) MemoryLeaseStore"
where
  "release_lease K token holder s =
     (case hm_get (leases s) token of None \<Rightarrow> (Inl NotFound, s)
      | Some entry \<Rightarrow>
          if le_holder entry \<noteq> holder then (Inl (HolderMismatch (le_holder entry) holder), s)
          else (Inr (group_id K (le_key entry)), s\<lparr>leases := hm_remove token (leases s)\<rparr>))"

definition release_group ::
  "str \<Rightarrow> u64 \<Rightarrow> ('k, 'p) MemoryLeaseStore \<Rightarrow> ('k, 'p) MemoryLeaseStore"
where
  "release_group token g s =
     (case hm_get (group_index s) g of None \<Rightarrow> s
      | Some tokens \<Rightarrow>
          s\<lparr>group_index := hm_insert g (filter (\<lambda>t. t \<noteq> token) tokens) (group_index s)\<rparr>)"

text \<open>A token leaves a holder's set; an empty set leaves the index and the count.\<close>

definition drop_holder ::
  "str \<Rightarrow> str \<Rightarrow> ('k, 'p) MemoryLeaseStore \<Rightarrow> ('k, 'p) MemoryLeaseStore"
where
  "drop_holder holder token s =
     (case hm_get (holder_index s) holder of None \<Rightarrow> s
      | Some tokens \<Rightarrow>
          (let tokens' = removeAll token tokens in
           if tokens' = []
           then s\<lparr>holder_index := hm_remove holder (holder_index s),
                  holder_count := holder_count s - 1\<rparr>
           else s\<lparr>holder_index := hm_insert holder tokens' (holder_index s)\<rparr>))"

definition release_holder ::
  "'p LeasePersistence \<Rightarrow> str \<Rightarrow> str \<Rightarrow> ('k, 'p) MemoryLeaseStore \<Rightarrow> ('k, 'p) MemoryLeaseStore"
where
  "release_holder P token holder s =
     (let s1 = backend_delete P token (drop_holder holder token s)
      in s1\<lparr>release_total := release_total s1 + 1\<rparr>)"

definition release ::
  "'k LeaseKey \<Rightarrow> 'p LeasePersistence \<Rightarrow> str \<Rightarrow> str \<Rightarrow> ('k, 'p) MemoryLeaseStore
     \<Rightarrow> (LeaseError + unit) \<times> ('k, 'p) MemoryLeaseStore"
where
  "release K P token holder s =
     (case release_lease K token holder s of
        (Inl e, s1) \<Rightarrow> (Inl e, s1)
      | (Inr g, s1) \<Rightarrow> (Inr (), release_holder P token holder (release_group token g s1)))"

subsection \<open>Queries\<close>

definition validate_token ::
  "instant \<Rightarrow> str \<Rightarrow> str \<Rightarrow> ('k, 'p) MemoryLeaseStore \<Rightarrow> LeaseError + unit"
where
  "validate_token now token holder s =
     (case hm_get (leases s) token of None \<Rightarrow> Inl NotFound
      | Some entry \<Rightarrow>
          if is_expired now entry then Inl Expired
          else if le_holder entry \<noteq> holder then Inl (HolderMismatch (le_holder entry) holder)
          else Inr ())"

definition validate_token_with_grace ::
  "instant \<Rightarrow> str \<Rightarrow> str \<Rightarrow> duration \<Rightarrow> ('k, 'p) MemoryLeaseStore \<Rightarrow> LeaseError + unit"
where
  "validate_token_with_grace now token holder grace s =
     (case hm_get (leases s) token of None \<Rightarrow> Inl NotFound
      | Some entry \<Rightarrow>
          if le_holder entry \<noteq> holder then Inl (HolderMismatch (le_holder entry) holder)
          else if le_expire_at entry + grace < now then Inl ExpiredBeyondGrace
          else Inr ())"

definition get_entry :: "str \<Rightarrow> ('k, 'p) MemoryLeaseStore \<Rightarrow> 'k LeaseEntry option" where
  "get_entry token s = hm_get (leases s) token"

text \<open>The entries of a token list, in its order.\<close>

definition entries_of :: "(str, 'k LeaseEntry) hmap \<Rightarrow> str list \<Rightarrow> (str \<times> 'k LeaseEntry) list" where
  "entries_of ls ts =
     List.map_filter (\<lambda>t. case hm_get ls t of None \<Rightarrow> None | Some e \<Rightarrow> Some (t, e)) ts"

definition get_all_entries_by_group ::
  "u64 \<Rightarrow> ('k, 'p) MemoryLeaseStore \<Rightarrow> 'k LeaseEntry list" where
  "get_all_entries_by_group g s = map snd (entries_of (leases s) (group_tokens s g))"

definition get_entries_by_group ::
  "(str \<Rightarrow> instant) \<Rightarrow> u64 \<Rightarrow> ('k, 'p) MemoryLeaseStore \<Rightarrow> 'k LeaseEntry list" where
  "get_entries_by_group chk g s =
     map snd (filter (\<lambda>(t, e). \<not> is_expired (chk t) e) (entries_of (leases s) (group_tokens s g)))"

definition get_entries_by_holder ::
  "(str \<Rightarrow> instant) \<Rightarrow> str \<Rightarrow> ('k, 'p) MemoryLeaseStore \<Rightarrow> 'k LeaseEntry list" where
  "get_entries_by_holder chk h s =
     map snd (filter (\<lambda>(t, e). \<not> is_expired (chk t) e) (entries_of (leases s) (holder_tokens s h)))"

definition active_count :: "(str \<Rightarrow> instant) \<Rightarrow> ('k, 'p) MemoryLeaseStore \<Rightarrow> nat" where
  "active_count chk s = length (filter (\<lambda>(t, e). \<not> is_expired (chk t) e) (leases s))"

definition active_holders_count :: "('k, 'p) MemoryLeaseStore \<Rightarrow> u64" where
  "active_holders_count s = holder_count s"

definition stats :: "(str \<Rightarrow> instant) \<Rightarrow> ('k, 'p) MemoryLeaseStore \<Rightarrow> LeaseStats" where
  "stats chk s =
     \<lparr>st_active_count = active_count chk s, st_active_holders = active_holders_count s,
      st_acquire_total = acquire_total s, st_acquire_conflict_total = acquire_conflict_total s,
      st_renew_total = renew_total s, st_release_total = release_total s,
      st_expired_total = expired_total s, st_disconnected_total = disconnected_total s\<rparr>"

definition request_shutdown :: "('k, 'p) MemoryLeaseStore \<Rightarrow> ('k, 'p) MemoryLeaseStore" where
  "request_shutdown s = s\<lparr>shutdown_flag := True\<rparr>"

subsection \<open>Disconnecting and cleaning up\<close>

text \<open>A token leaves its group; an empty group leaves the index.\<close>

definition drop_from_group :: "u64 \<Rightarrow> str \<Rightarrow> ('k, 'p) MemoryLeaseStore \<Rightarrow> ('k, 'p) MemoryLeaseStore"
where
  "drop_from_group g token s =
     (case hm_get (group_index s) g of None \<Rightarrow> s
      | Some tokens \<Rightarrow>
          (let tokens' = filter (\<lambda>t. t \<noteq> token) tokens in
           if tokens' = [] then s\<lparr>group_index := hm_remove g (group_index s)\<rparr>
           else s\<lparr>group_index := hm_insert g tokens' (group_index s)\<rparr>))"

fun disconnect_each ::
  "'k LeaseKey \<Rightarrow> str list \<Rightarrow> str list \<Rightarrow> ('k, 'p) MemoryLeaseStore
     \<Rightarrow> str list \<times> ('k, 'p) MemoryLeaseStore"
where
  "disconnect_each K [] removed s = (removed, s)"
| "disconnect_each K (t # ts) removed s =
     (case hm_get (leases s) t of None \<Rightarrow> disconnect_each K ts removed s
      | Some entry \<Rightarrow>
          disconnect_each K ts (removed @ [t])
            (drop_from_group (group_id K (le_key entry)) t
               (s\<lparr>leases := hm_remove t (leases s)\<rparr>)))"

definition disconnect_holder ::
  "'k LeaseKey \<Rightarrow> 'p LeasePersistence \<Rightarrow> str \<Rightarrow> ('k, 'p) MemoryLeaseStore
     \<Rightarrow> nat \<times> ('k, 'p) MemoryLeaseStore"
where
  "disconnect_holder K P holder s =
     (let tokens_to_remove = holder_tokens s holder;
          (removed_tokens, s1) = disconnect_each K tokens_to_remove [] s;
          s2 = (case hm_get (holder_index s1) holder of None \<Rightarrow> s1
                | Some tokens \<Rightarrow>
                    if tokens = []
                    then s1\<lparr>holder_index := hm_remove holder (holder_index s1),
                            holder_count := holder_count s1 - 1\<rparr>
                    else s1);
          s3 = fold (backend_delete P) removed_tokens s2;
          removed = length removed_tokens
      in (removed,
          if 0 < removed then s3\<lparr>disconnected_total := disconnected_total s3 + of_nat removed\<rparr>
          else s3))"

fun cleanup_each ::
  "'k LeaseKey \<Rightarrow> 'p LeasePersistence \<Rightarrow> str list \<Rightarrow> nat \<Rightarrow> ('k, 'p) MemoryLeaseStore
     \<Rightarrow> nat \<times> ('k, 'p) MemoryLeaseStore"
where
  "cleanup_each K P [] removed s = (removed, s)"
| "cleanup_each K P (t # ts) removed s =
     (case hm_get (leases s) t of None \<Rightarrow> cleanup_each K P ts removed s
      | Some entry \<Rightarrow>
          cleanup_each K P ts (removed + 1)
            (backend_delete P t
               (drop_holder (le_holder entry) t
                  (drop_from_group (group_id K (le_key entry)) t
                     (s\<lparr>leases := hm_remove t (leases s)\<rparr>)))))"

definition cleanup_expired ::
  "'k LeaseKey \<Rightarrow> 'p LeasePersistence \<Rightarrow> instant \<Rightarrow> ('k, 'p) MemoryLeaseStore
     \<Rightarrow> nat \<times> ('k, 'p) MemoryLeaseStore"
where
  "cleanup_expired K P now s =
     (let expired_tokens =
            map fst (filter (\<lambda>(_, e). is_expired_beyond now (cleanup_grace s) e) (leases s));
          (removed, s1) = cleanup_each K P expired_tokens 0 s
      in (removed,
          if 0 < removed then s1\<lparr>expired_total := expired_total s1 + of_nat removed\<rparr> else s1))"

end
