(* ===== verification/Lease_Laws.thy ===== *)
theory Lease_Laws
  imports Lease_Store
begin

text \<open>
  What the lease store promises: the contract of a lease key, the invariant that no two live leases
  clash and that every live lease is found through its group, its preservation by every operation,
  the uniqueness of tokens, and a server whose handlers interleave.
\<close>

section \<open>Exclusion\<close>

text \<open>A lease is live at an instant while it is filed and has not expired. Two leases clash when
  their holders differ, one of them is exclusive and their keys conflict.\<close>

definition live :: "instant \<Rightarrow> ('k, 'p) MemoryLeaseStore \<Rightarrow> str \<Rightarrow> 'k LeaseEntry \<Rightarrow> bool" where
  "live T s t e \<longleftrightarrow> hm_get (leases s) t = Some e \<and> \<not> is_expired T e"

definition clash :: "'k LeaseKey \<Rightarrow> 'k LeaseEntry \<Rightarrow> 'k LeaseEntry \<Rightarrow> bool" where
  "clash K e e' \<longleftrightarrow>
     le_holder e \<noteq> le_holder e' \<and> (is_exclusive (le_mode e) \<or> is_exclusive (le_mode e'))
     \<and> conflicts K (le_key e) (le_key e')"

definition indexed :: "'k LeaseKey \<Rightarrow> instant \<Rightarrow> ('k, 'p) MemoryLeaseStore \<Rightarrow> bool" where
  "indexed K T s \<longleftrightarrow>
     (\<forall>t e. live T s t e \<longrightarrow> t \<in> set (group_tokens s (group_id K (le_key e))))"

definition exclusion :: "'k LeaseKey \<Rightarrow> instant \<Rightarrow> ('k, 'p) MemoryLeaseStore \<Rightarrow> bool" where
  "exclusion K T s \<longleftrightarrow> (\<forall>t e t' e'. live T s t e \<longrightarrow> live T s t' e' \<longrightarrow> \<not> clash K e e')"

definition lease_inv :: "'k LeaseKey \<Rightarrow> instant \<Rightarrow> ('k, 'p) MemoryLeaseStore \<Rightarrow> bool" where
  "lease_inv K T s \<longleftrightarrow> indexed K T s \<and> exclusion K T s"

named_theorems lease_frame \<open>which tables of the store an operation leaves alone\<close>

lemma is_expired_mono: "is_expired T e \<Longrightarrow> T \<le> T' \<Longrightarrow> is_expired T' e"
  by (simp add: is_expired_def)

lemma live_mono: "live T' s t e \<Longrightarrow> T \<le> T' \<Longrightarrow> live T s t e"
  by (auto simp: live_def dest: is_expired_mono)

lemma lease_inv_mono: "lease_inv K T s \<Longrightarrow> T \<le> T' \<Longrightarrow> lease_inv K T' s"
  unfolding lease_inv_def indexed_def exclusion_def by (blast dest: live_mono)

lemma group_tokens_insert [simp]:
  "group_tokens (s\<lparr>group_index := hm_insert g v m\<rparr>) h = (if h = g then v else or_default (hm_get m h))"
  by (simp add: group_tokens_def or_default_def)

lemma group_tokens_remove [simp]:
  "group_tokens (s\<lparr>group_index := hm_remove g m\<rparr>) h = (if h = g then [] else or_default (hm_get m h))"
  by (simp add: group_tokens_def or_default_def)

lemma or_default_simps [simp]: "or_default None = []" "or_default (Some v) = v"
  by (simp_all add: or_default_def)

lemma count_conflict_frame [lease_frame, simp]:
  "leases (count_conflict s) = leases s" "group_index (count_conflict s) = group_index s"
  "holder_index (count_conflict s) = holder_index s"
  "holder_count (count_conflict s) = holder_count s"
  "persistence (count_conflict s) = persistence s"
  "epoch_counter (count_conflict s) = epoch_counter s"
  by (simp_all add: count_conflict_def)

lemma count_holder_frame [lease_frame, simp]:
  "leases (count_holder b s) = leases s" "group_index (count_holder b s) = group_index s"
  "holder_index (count_holder b s) = holder_index s"
  "persistence (count_holder b s) = persistence s"
  "epoch_counter (count_holder b s) = epoch_counter s"
  by (simp_all add: count_holder_def)

lemma index_holder_frame [lease_frame, simp]:
  "leases (snd (index_holder h t s)) = leases s"
  "group_index (snd (index_holder h t s)) = group_index s"
  "persistence (snd (index_holder h t s)) = persistence s"
  "epoch_counter (snd (index_holder h t s)) = epoch_counter s"
  "holder_count (snd (index_holder h t s)) = holder_count s"
  by (simp_all add: index_holder_def Let_def)

lemma drop_holder_frame [lease_frame, simp]:
  "leases (drop_holder h t s) = leases s" "group_index (drop_holder h t s) = group_index s"
  "persistence (drop_holder h t s) = persistence s"
  "epoch_counter (drop_holder h t s) = epoch_counter s"
  by (simp_all add: drop_holder_def Let_def split: option.split)

lemma drop_from_group_frame [lease_frame, simp]:
  "leases (drop_from_group g t s) = leases s"
  "holder_index (drop_from_group g t s) = holder_index s"
  "holder_count (drop_from_group g t s) = holder_count s"
  "persistence (drop_from_group g t s) = persistence s"
  "epoch_counter (drop_from_group g t s) = epoch_counter s"
  by (simp_all add: drop_from_group_def Let_def split: option.split)

lemma backend_save_frame [lease_frame, simp]:
  "leases (backend_save P t d s) = leases s" "group_index (backend_save P t d s) = group_index s"
  "holder_index (backend_save P t d s) = holder_index s"
  "holder_count (backend_save P t d s) = holder_count s"
  "epoch_counter (backend_save P t d s) = epoch_counter s"
  by (simp_all add: backend_save_def split: option.split)

lemma backend_delete_frame [lease_frame, simp]:
  "leases (backend_delete P t s) = leases s" "group_index (backend_delete P t s) = group_index s"
  "holder_index (backend_delete P t s) = holder_index s"
  "holder_count (backend_delete P t s) = holder_count s"
  "epoch_counter (backend_delete P t s) = epoch_counter s"
  by (simp_all add: backend_delete_def split: option.split)

lemma backend_deletes_frame [lease_frame, simp]:
  "leases (fold (backend_delete P) ts s) = leases s"
  "group_index (fold (backend_delete P) ts s) = group_index s"
  "holder_index (fold (backend_delete P) ts s) = holder_index s"
  "holder_count (fold (backend_delete P) ts s) = holder_count s"
  "epoch_counter (fold (backend_delete P) ts s) = epoch_counter s"
  by (induction ts arbitrary: s) simp_all

lemma generate_token_frame [lease_frame, simp]:
  "leases (snd (generate_token u s)) = leases s"
  "group_index (snd (generate_token u s)) = group_index s"
  "holder_index (snd (generate_token u s)) = holder_index s"
  "holder_count (snd (generate_token u s)) = holder_count s"
  "persistence (snd (generate_token u s)) = persistence s"
  "epoch_counter (snd (generate_token u s)) = epoch_counter s + 1"
  by (simp_all add: generate_token_def Let_def)

lemma lease_inv_cong:
  "leases s' = leases s \<Longrightarrow> group_index s' = group_index s \<Longrightarrow> lease_inv K T s' = lease_inv K T s"
  by (simp add: lease_inv_def indexed_def exclusion_def live_def group_tokens_def)

lemma lease_inv_new: "lease_inv K T MemoryLeaseStore_new"
  by (simp add: lease_inv_def indexed_def exclusion_def live_def MemoryLeaseStore_new_def)

text \<open>An operation that only takes leases away, and from the index only tokens that belong to no
  live lease afterwards, keeps the invariant.\<close>

lemma lease_inv_shrink:
  assumes inv: "lease_inv K T s"
    and sub: "\<And>t e. hm_get (leases s') t = Some e \<Longrightarrow> hm_get (leases s) t = Some e"
    and idx: "\<And>t e g. t \<in> set (group_tokens s g) \<Longrightarrow> live T s' t e \<Longrightarrow> t \<in> set (group_tokens s' g)"
  shows "lease_inv K T s'"
proof -
  have live_sub: "live T s t e" if "live T s' t e" for t e
    using that sub by (simp add: live_def)
  then show ?thesis
    using inv idx unfolding lease_inv_def indexed_def exclusion_def by blast
qed

lemma group_tokens_sweep:
  "group_tokens (sweep_group swp g s) h =
     (if h = g then filter (\<lambda>t. case hm_get (leases s) t of None \<Rightarrow> False
                            | Some l \<Rightarrow> \<not> is_expired (swp t) l) (group_tokens s g)
      else group_tokens s h)"
  by (auto simp: sweep_group_def group_tokens_def or_default_def split: option.split)

lemma sweep_group_frame [lease_frame, simp]:
  "leases (sweep_group swp g s) = leases s"
  "holder_index (sweep_group swp g s) = holder_index s"
  "holder_count (sweep_group swp g s) = holder_count s"
  "persistence (sweep_group swp g s) = persistence s"
  "epoch_counter (sweep_group swp g s) = epoch_counter s"
  by (simp_all add: sweep_group_def split: option.split)

lemma lease_inv_sweep [inv_intros]:
  assumes "lease_inv K T s" and "\<And>t. swp t \<le> T"
  shows "lease_inv K T (sweep_group swp g s)"
proof (rule lease_inv_shrink [OF assms(1)])
  fix t e h
  assume "t \<in> set (group_tokens s h)" and "live T (sweep_group swp g s) t e"
  moreover from this(2) assms(2) have "\<not> is_expired (swp t) e"
    by (auto simp: live_def dest: is_expired_mono)
  ultimately show "t \<in> set (group_tokens (sweep_group swp g s) h)"
    by (auto simp: group_tokens_sweep live_def)
qed simp

lemma find_conflict_None:
  assumes "find_conflict K ls chk key holder mode ts = None" and "t \<in> set ts"
    and "hm_get ls t = Some e" and "\<not> is_expired (chk t) e"
  shows "le_holder e = holder
    \<or> \<not> ((is_exclusive (le_mode e) \<or> is_exclusive mode) \<and> conflicts K (le_key e) key)"
  using assms by (induction ts) (auto split: option.splits if_splits)

lemma find_conflict_Some:
  assumes "find_conflict K ls chk key holder mode ts = Some e"
  shows "\<exists>t\<in>set ts. hm_get ls t = Some e \<and> \<not> is_expired (chk t) e \<and> le_holder e \<noteq> holder
    \<and> (is_exclusive (le_mode e) \<or> is_exclusive mode) \<and> conflicts K (le_key e) key"
  using assms by (induction ts) (auto split: option.splits if_splits)

text \<open>The laws a lease key promises its store: conflicts are symmetric, and keys of different groups
  never conflict, so that a scan of one group is enough.\<close>

locale lease_key =
  fixes K :: "'k LeaseKey"
  assumes conflicts_sym: "conflicts K a b \<Longrightarrow> conflicts K b a"
    and conflicts_group: "conflicts K a b \<Longrightarrow> group_id K a = group_id K b"
    and decode_encode: "key_decode K (key_encode K a) = Inr a"
begin

lemma clash_sym: "clash K e e' \<Longrightarrow> clash K e' e"
  unfolding clash_def by (metis conflicts_sym)

text \<open>A new lease may be filed when no live lease clashes with it.\<close>

lemma lease_inv_index:
  assumes inv: "lease_inv K T s" and free: "\<And>t' e'. live T s t' e' \<Longrightarrow> \<not> clash K e' e"
    and g: "g = group_id K (le_key e)"
  shows "lease_inv K T (index_lease g t e s)"
proof -
  let ?s = "index_lease g t e s"
  have live_new: "live T ?s u d \<Longrightarrow> u = t \<and> d = e \<or> u \<noteq> t \<and> live T s u d" for u d
    by (auto simp: index_lease_def live_def split: if_splits)
  have toks: "set (group_tokens s h) \<subseteq> set (group_tokens ?s h)" "t \<in> set (group_tokens ?s g)" for h
    by (auto simp: index_lease_def group_tokens_def)
  have "indexed K T ?s"
    unfolding indexed_def
  proof (intro allI impI)
    fix u d
    assume "live T ?s u d"
    then consider "u = t" "d = e" | "live T s u d" using live_new by blast
    then show "u \<in> set (group_tokens ?s (group_id K (le_key d)))"
    proof cases
      case 2
      with inv have "u \<in> set (group_tokens s (group_id K (le_key d)))"
        by (simp add: lease_inv_def indexed_def)
      with toks(1) show ?thesis by blast
    qed (use toks(2) g in simp)
  qed
  moreover have "exclusion K T ?s"
    unfolding exclusion_def
  proof (intro allI impI)
    fix u d u' d'
    assume "live T ?s u d" and "live T ?s u' d'"
    then have "d = e \<or> live T s u d" and "d' = e \<or> live T s u' d'"
      using live_new by blast+
    moreover have "\<not> clash K e e" by (simp add: clash_def)
    moreover have "\<not> clash K e d'" if "live T s u' d'" using free [OF that] clash_sym by blast
    moreover have "\<not> clash K d d'" if "live T s u d" "live T s u' d'"
      using inv that unfolding lease_inv_def exclusion_def by blast
    ultimately show "\<not> clash K d d'" using free by blast
  qed
  ultimately show ?thesis by (simp add: lease_inv_def)
qed

lemma no_conflict_no_clash:
  assumes inv: "lease_inv K T s" and none: "existing_conflict K chk (le_key e) (le_holder e) (le_mode e) s = None"
    and chk: "\<And>t. chk t \<le> T" and lv: "live T s t' e'"
  shows "\<not> clash K e' e"
proof
  assume cl: "clash K e' e"
  then have "group_id K (le_key e') = group_id K (le_key e)"
    using conflicts_group by (simp add: clash_def)
  with inv lv have mem: "t' \<in> set (group_tokens s (group_id K (le_key e)))"
    unfolding lease_inv_def indexed_def by metis
  then obtain ts where "hm_get (group_index s) (group_id K (le_key e)) = Some ts" "t' \<in> set ts"
    by (cases "hm_get (group_index s) (group_id K (le_key e))") (auto simp: group_tokens_def)
  with none have "find_conflict K (leases s) chk (le_key e) (le_holder e) (le_mode e) ts = None"
    by (simp add: existing_conflict_def)
  moreover have "hm_get (leases s) t' = Some e'" "\<not> is_expired (chk t') e'"
    using lv chk by (auto simp: live_def dest: is_expired_mono)
  ultimately have "le_holder e' = le_holder e
      \<or> \<not> ((is_exclusive (le_mode e') \<or> is_exclusive (le_mode e)) \<and> conflicts K (le_key e') (le_key e))"
    by (intro find_conflict_None [OF _ \<open>t' \<in> set ts\<close>])
  with cl show False by (simp add: clash_def)
qed

end

subsection \<open>What the operations do to the tables\<close>

definition new_entry :: "'k \<Rightarrow> str \<Rightarrow> LeaseMode \<Rightarrow> instant \<Rightarrow> duration \<Rightarrow> str \<Rightarrow> u64 \<Rightarrow> 'k LeaseEntry" where
  "new_entry key holder mode now dur uuid epoch =
     \<lparr>le_key = key, le_holder = holder, le_token = token_text epoch uuid, le_mode = mode,
      le_acquired_at = now, le_expire_at = now + dur, le_epoch = epoch\<rparr>"

lemma new_entry_simps [simp]:
  "le_key (new_entry k h m n d u ep) = k" "le_holder (new_entry k h m n d u ep) = h"
  "le_token (new_entry k h m n d u ep) = token_text ep u" "le_mode (new_entry k h m n d u ep) = m"
  "le_expire_at (new_entry k h m n d u ep) = n + d" "le_epoch (new_entry k h m n d u ep) = ep"
  by (simp_all add: new_entry_def)

lemma index_lease_frame [lease_frame, simp]:
  "leases (index_lease g t e s) = hm_insert t e (leases s)"
  "group_index (index_lease g t e s) = hm_insert g (group_tokens s g @ [t]) (group_index s)"
  "holder_index (index_lease g t e s) = holder_index s"
  "holder_count (index_lease g t e s) = holder_count s"
  "persistence (index_lease g t e s) = persistence s"
  "epoch_counter (index_lease g t e s) = epoch_counter s"
  by (simp_all add: index_lease_def)

text \<open>A granted \<^verbatim>\<open>acquire\<close>, table by table.\<close>

lemma acquire_granted:
  fixes s :: "('k, 'p) MemoryLeaseStore" and dur :: duration and P :: "'p LeasePersistence"
  assumes free: "existing_conflict K (ae_check r) key holder mode s = None"
  defines "e \<equiv> new_entry key holder mode (ae_now r) dur (ae_uuid r) (epoch_counter s)"
  defines "g \<equiv> group_id K key"
  shows "fst (acquire K P r key holder mode dur s) = Inr e"
    and "leases (snd (acquire K P r key holder mode dur s)) = hm_insert (le_token e) e (leases s)"
    and "group_index (snd (acquire K P r key holder mode dur s)) =
           group_index (index_lease g (le_token e) e (sweep_group (ae_sweep r) g s))"
    and "holder_index (snd (acquire K P r key holder mode dur s)) =
           hm_insert holder (List.insert (le_token e) (holder_tokens s holder)) (holder_index s)"
    and "holder_count (snd (acquire K P r key holder mode dur s)) =
           (if holder_tokens s holder = [] then holder_count s + 1 else holder_count s)"
    and "epoch_counter (snd (acquire K P r key holder mode dur s)) = epoch_counter s + 1"
    and "persistence (snd (acquire K P r key holder mode dur s)) =
           persistence (backend_save P (le_token e) (encode_entry K (ae_clocks r) e) s)"
proof -
  let ?a = "acquire K P r key holder mode dur s"
  note unfold = acquire_def Let_def generate_token_def index_holder_def free e_def g_def new_entry_def
  have gen: "group_tokens (x\<lparr>epoch_counter := c\<rparr>) h = group_tokens x h"
    "holder_tokens (index_lease g t d (x\<lparr>epoch_counter := c\<rparr>)) k = holder_tokens x k"
    "holder_tokens (sweep_group w g x) k = holder_tokens x k" for x t d h w c g k
    by (simp_all add: group_tokens_def holder_tokens_def)
  show "fst ?a = Inr e" and "leases (snd ?a) = hm_insert (le_token e) e (leases s)"
    and "epoch_counter (snd ?a) = epoch_counter s + 1"
    and "group_index (snd ?a) = group_index (index_lease g (le_token e) e (sweep_group (ae_sweep r) g s))"
    and "holder_index (snd ?a) =
      hm_insert holder (List.insert (le_token e) (holder_tokens s holder)) (holder_index s)"
    and "holder_count (snd ?a) =
      (if holder_tokens s holder = [] then holder_count s + 1 else holder_count s)"
    by (simp_all add: unfold gen count_holder_def)
  show "persistence (snd ?a) =
      persistence (backend_save P (le_token e) (encode_entry K (ae_clocks r) e) s)"
    by (simp add: unfold backend_save_def split: option.split)
qed

lemma acquire_refused:
  assumes "existing_conflict K (ae_check r) key holder mode s = Some x"
  shows "acquire K P r key holder mode dur s =
    (Inl (Conflict (HeldBy (group_id K key) (le_holder x))), count_conflict s)"
  using assms by (simp add: acquire_def Let_def)

lemma acquire_Inr:
  "fst (acquire K P r key holder mode dur s) = Inr e \<Longrightarrow>
     existing_conflict K (ae_check r) key holder mode s = None
     \<and> e = new_entry key holder mode (ae_now r) dur (ae_uuid r) (epoch_counter s)"
  using acquire_refused [of K r key holder mode s] acquire_granted(1) [of K r key holder mode s P dur]
  by (cases "existing_conflict K (ae_check r) key holder mode s") auto

lemma renew_cases:
  obtains (missing) "hm_get (leases s) token = None" "renew K P r token holder dur s = (Inl NotFound, s)"
  | (foreign) e where "hm_get (leases s) token = Some e" "le_holder e \<noteq> holder"
      "renew K P r token holder dur s = (Inl (HolderMismatch (le_holder e) holder), s)"
  | (renewed) e where "hm_get (leases s) token = Some e" "le_holder e = holder"
      "fst (renew K P r token holder dur s) = Inr ()"
      "leases (snd (renew K P r token holder dur s)) =
         hm_insert token (e\<lparr>le_expire_at := re_now r + dur, le_epoch := epoch_counter s\<rparr>) (leases s)"
      "group_index (snd (renew K P r token holder dur s)) = group_index s"
      "holder_index (snd (renew K P r token holder dur s)) = holder_index s"
      "holder_count (snd (renew K P r token holder dur s)) = holder_count s"
      "epoch_counter (snd (renew K P r token holder dur s)) = epoch_counter s + 1"
      "persistence (snd (renew K P r token holder dur s)) =
         persistence (backend_save P token (encode_entry K (re_clocks r)
           (e\<lparr>le_expire_at := re_now r + dur, le_epoch := epoch_counter s\<rparr>)) s)"
proof (cases "hm_get (leases s) token")
  case None
  then show ?thesis by (intro missing) (simp_all add: renew_def)
next
  case (Some e)
  show ?thesis
  proof (cases "le_holder e = holder")
    case False
    with Some show ?thesis by (intro foreign [of e]) (simp_all add: renew_def)
  next
    case True
    with Some show ?thesis
      by (intro renewed [of e])
        (simp_all add: renew_def Let_def backend_save_def split: option.split)
  qed
qed

lemma group_tokens_leases: "group_tokens (s\<lparr>leases := ls\<rparr>) g = group_tokens s g"
  by (simp add: group_tokens_def)

lemma group_tokens_release:
  "group_tokens (release_group t g s) h =
     (if h = g then filter (\<lambda>u. u \<noteq> t) (group_tokens s h) else group_tokens s h)"
  by (auto simp: release_group_def group_tokens_def split: option.split)

lemma group_tokens_drop:
  "group_tokens (drop_from_group g t s) h =
     (if h = g then filter (\<lambda>u. u \<noteq> t) (group_tokens s h) else group_tokens s h)"
  by (auto simp: drop_from_group_def group_tokens_def Let_def split: option.split)

lemma release_group_frame [lease_frame, simp]:
  "leases (release_group t g s) = leases s"
  "holder_index (release_group t g s) = holder_index s"
  "holder_count (release_group t g s) = holder_count s"
  "persistence (release_group t g s) = persistence s"
  "epoch_counter (release_group t g s) = epoch_counter s"
  by (simp_all add: release_group_def split: option.split)

lemma lease_inv_release_lease [inv_intros]:
  "lease_inv K T s \<Longrightarrow> lease_inv K T (snd (release_lease K' t h s))"
  by (rule lease_inv_shrink [of K T s])
    (auto simp: release_lease_def group_tokens_def split: option.splits if_splits)

text \<open>Once a token has no lease, dropping it from an index is harmless.\<close>

lemma lease_inv_release_group [inv_intros]:
  "lease_inv K T s \<Longrightarrow> hm_get (leases s) t = None \<Longrightarrow> lease_inv K T (release_group t g s)"
  by (rule lease_inv_shrink [of K T s]) (auto simp: group_tokens_release live_def)

lemma lease_inv_drop [inv_intros]:
  "lease_inv K T s \<Longrightarrow> lease_inv K T (drop_from_group g t (s\<lparr>leases := hm_remove t (leases s)\<rparr>))"
  by (rule lease_inv_shrink [of K T s])
    (auto simp: group_tokens_drop live_def group_tokens_leases split: if_splits)

lemma lease_inv_release_holder [inv_intros]:
  "lease_inv K T s \<Longrightarrow> lease_inv K T (release_holder P t h s)"
  by (simp add: release_holder_def Let_def cong: lease_inv_cong)

lemma lease_inv_disconnect_each:
  "lease_inv K T s \<Longrightarrow> lease_inv K T (snd (disconnect_each K' ts removed s))"
  by (induction K' ts removed s rule: disconnect_each.induct)
    (auto simp: lease_inv_drop split: option.split)

lemma lease_inv_disconnect [inv_intros]:
  "lease_inv K T s \<Longrightarrow> lease_inv K T (snd (disconnect_holder K' P h s))"
proof -
  assume inv: "lease_inv K T s"
  let ?s = "snd (disconnect_each K' (holder_tokens s h) [] s)"
  have "leases (snd (disconnect_holder K' P h s)) = leases ?s"
    "group_index (snd (disconnect_holder K' P h s)) = group_index ?s"
    by (simp_all add: disconnect_holder_def Let_def split: prod.split option.split)
  then have "lease_inv K T (snd (disconnect_holder K' P h s)) = lease_inv K T ?s"
    by (rule lease_inv_cong)
  then show ?thesis using lease_inv_disconnect_each [OF inv] by simp
qed

lemma lease_inv_cleanup_each:
  "lease_inv K T s \<Longrightarrow> lease_inv K T (snd (cleanup_each K' P ts removed s))"
proof (induction K' P ts removed s rule: cleanup_each.induct)
  case (2 K' P t ts removed s)
  show ?case
  proof (cases "hm_get (leases s) t")
    case None
    with 2 show ?thesis by simp
  next
    case (Some e)
    let ?d = "drop_from_group (group_id K' (le_key e)) t (s\<lparr>leases := hm_remove t (leases s)\<rparr>)"
    let ?b = "backend_delete P t (drop_holder (le_holder e) t ?d)"
    have "lease_inv K T ?b \<longleftrightarrow> lease_inv K T ?d" by (rule lease_inv_cong) simp_all
    then have "lease_inv K T ?b" using "2.prems" lease_inv_drop by blast
    then show ?thesis using "2.IH"(2) [OF Some] Some by simp
  qed
qed simp

lemma lease_inv_cleanup [inv_intros]:
  "lease_inv K T s \<Longrightarrow> lease_inv K T (snd (cleanup_expired K' P now s))"
proof -
  assume inv: "lease_inv K T s"
  let ?ts = "map fst (filter (\<lambda>(_, e). is_expired_beyond now (cleanup_grace s) e) (leases s))"
  let ?s = "snd (cleanup_each K' P ?ts 0 s)"
  have "leases (snd (cleanup_expired K' P now s)) = leases ?s"
    "group_index (snd (cleanup_expired K' P now s)) = group_index ?s"
    by (simp_all add: cleanup_expired_def Let_def split: prod.split)
  then have "lease_inv K T (snd (cleanup_expired K' P now s)) = lease_inv K T ?s"
    by (rule lease_inv_cong)
  then show ?thesis using lease_inv_cleanup_each [OF inv] by simp
qed

text \<open>Phase 1 of a batch: only the epoch counter and the statistics change; when it succeeds, every
  pending entry belongs to the caller and none of its keys was refused.\<close>

lemma check_batch_frame:
  "leases (snd (check_batch K h m now x bs pending s)) = leases s"
  "group_index (snd (check_batch K h m now x bs pending s)) = group_index s"
  "holder_index (snd (check_batch K h m now x bs pending s)) = holder_index s"
  "holder_count (snd (check_batch K h m now x bs pending s)) = holder_count s"
  "persistence (snd (check_batch K h m now x bs pending s)) = persistence s"
  by (induction bs arbitrary: pending s)
    (simp_all add: Let_def generate_token_def split: option.split)

lemma existing_conflict_frame:
  "leases s' = leases s \<Longrightarrow> group_index s' = group_index s \<Longrightarrow>
     existing_conflict K chk key h m s' = existing_conflict K chk key h m s"
  by (simp add: existing_conflict_def cong: option.case_cong)

lemma existing_conflict_epoch [simp]:
  "existing_conflict K chk key h m (s\<lparr>epoch_counter := c\<rparr>) = existing_conflict K chk key h m s"
  by (rule existing_conflict_frame) simp_all

lemma check_batch_pending:
  assumes "fst (check_batch K h m now x bs pending s) = Inr es"
  shows "\<exists>new. es = pending @ new \<and> map le_key new = map bi_key bs
    \<and> (\<forall>e\<in>set new. le_holder e = h \<and> le_mode e = m \<and> le_expire_at e = x)
    \<and> (\<forall>b\<in>set bs. existing_conflict K (bi_check b) (bi_key b) h m s = None)"
  using assms
proof (induction bs arbitrary: pending s)
  case Nil
  then show ?case by simp
next
  case (Cons b bs)
  let ?e = "\<lparr>le_key = bi_key b, le_holder = h, le_token = token_text (epoch_counter s) (bi_uuid b),
    le_mode = m, le_acquired_at = now, le_expire_at = x, le_epoch = epoch_counter s\<rparr>"
  let ?s = "s\<lparr>epoch_counter := epoch_counter s + 1\<rparr>"
  from Cons.prems have none: "existing_conflict K (bi_check b) (bi_key b) h m s = None"
    and rest: "fst (check_batch K h m now x bs (pending @ [?e]) ?s) = Inr es"
    by (auto simp: Let_def generate_token_def split: option.splits if_splits)
  from Cons.IH [OF rest]
  obtain new where new: "es = (pending @ [?e]) @ new" "map le_key new = map bi_key bs"
    "\<forall>e\<in>set new. le_holder e = h \<and> le_mode e = m \<and> le_expire_at e = x"
    "\<forall>b\<in>set bs. existing_conflict K (bi_check b) (bi_key b) h m ?s = None"
    by blast
  show ?case
    by (rule exI [of _ "?e # new"]) (use new none in auto)
qed

lemma commit_batch_leases:
  "leases (snd (commit_batch K P h es b s)) =
     fold (\<lambda>(e, _). hm_insert (le_token e) e) es (leases s)"
  by (induction K P h es b s rule: commit_batch.induct) (simp_all add: Let_def split_beta)

context lease_key
begin

lemma lease_inv_commit_batch:
  assumes "lease_inv K T s" and "\<forall>(e, _)\<in>set es. le_holder e = h"
    and "\<And>t' e' e. live T s t' e' \<Longrightarrow> e \<in> fst ` set es \<Longrightarrow> \<not> clash K e' e"
  shows "lease_inv K T (snd (commit_batch K P h es b s))"
  using assms
proof (induction es arbitrary: b s)
  case Nil
  then show ?case by simp
next
  case (Cons ec es)
  obtain e c where ec: "ec = (e, c)" by (cases ec)
  let ?i = "index_lease (group_id K (le_key e)) (le_token e) e s"
  let ?s = "backend_save P (le_token e) (encode_entry K c e) (snd (index_holder h (le_token e) ?i))"
  have inv_i: "lease_inv K T ?i"
    using Cons.prems(1,3) ec by (intro lease_inv_index) auto
  have inv: "lease_inv K T ?s"
    using inv_i lease_inv_cong [of ?s ?i K T] by simp
  have "\<not> clash K e' d" if lv: "live T ?s t' e'" and d: "d \<in> fst ` set es" for t' e' d
  proof (cases "e' = e")
    case True
    moreover from d Cons.prems(2) ec have "le_holder d = h" "le_holder e = h" by auto
    ultimately show ?thesis by (simp add: clash_def)
  next
    case False
    with lv have "live T s t' e'" by (auto simp: live_def split: if_splits)
    with Cons.prems(3) d show ?thesis by simp
  qed
  then show ?case
    using Cons.IH [OF inv] Cons.prems(2) ec
    by (simp add: Let_def split_beta)
qed

lemma lease_inv_acquire [inv_intros]:
  assumes inv: "lease_inv K T s" and chk: "\<And>t. ae_check r t \<le> T" and swp: "\<And>t. ae_sweep r t \<le> T"
  shows "lease_inv K T (snd (acquire K P r key holder mode dur s))"
proof (cases "existing_conflict K (ae_check r) key holder mode s")
  case None
  let ?e = "new_entry key holder mode (ae_now r) dur (ae_uuid r) (epoch_counter s)"
  let ?w = "sweep_group (ae_sweep r) (group_id K key) s"
  let ?s = "index_lease (group_id K key) (le_token ?e) ?e ?w"
  have "\<not> clash K e' ?e" if "live T ?w t' e'" for t' e'
    using no_conflict_no_clash [OF inv _ chk, where e = ?e and t' = t' and e' = e'] None that
    by (simp add: live_def)
  then have "lease_inv K T ?s"
    by (intro lease_inv_index lease_inv_sweep inv swp) auto
  moreover have "lease_inv K T (snd (acquire K P r key holder mode dur s)) = lease_inv K T ?s"
    by (rule lease_inv_cong) (simp_all add: acquire_granted(2,3) [OF None])
  ultimately show ?thesis by simp
next
  case (Some x)
  then show ?thesis using inv by (simp add: acquire_refused cong: lease_inv_cong)
qed

lemma lease_inv_acquire_batch [inv_intros]:
  assumes inv: "lease_inv K T s" and chk: "\<And>b t. b \<in> set items \<Longrightarrow> bi_check b t \<le> T"
  shows "lease_inv K T (snd (acquire_batch K P now items holder mode dur s))"
proof (cases "items = []")
  case True
  then show ?thesis using inv by (simp add: acquire_batch_def)
next
  case False
  let ?c = "check_batch K holder mode now (now + dur) items [] s"
  have inv1: "lease_inv K T (snd ?c)"
    using inv lease_inv_cong [of "snd ?c" s] by (simp add: check_batch_frame)
  show ?thesis
  proof (cases "fst ?c")
    case (Inl e)
    then show ?thesis using False inv1 by (cases ?c) (simp add: acquire_batch_def Let_def)
  next
    case (Inr es)
    from check_batch_pending [OF Inr] have keys: "map le_key es = map bi_key items"
      and own: "\<forall>e\<in>set es. le_holder e = holder \<and> le_mode e = mode"
      and none: "\<forall>b\<in>set items. existing_conflict K (bi_check b) (bi_key b) holder mode s = None"
      by auto
    let ?z = "zip es (map bi_clocks items)"
    let ?m = "commit_batch K P holder ?z False (snd ?c)"
    have free: "\<not> clash K e' e" if lv: "live T (snd ?c) t' e'" and e: "e \<in> fst ` set ?z" for t' e' e
    proof -
      from e have es: "e \<in> set es" by (auto dest: set_zip_leftD)
      then have "le_key e \<in> set (map bi_key items)" unfolding keys [symmetric] by simp
      then obtain b where b: "b \<in> set items" "le_key e = bi_key b" by auto
      have "live T s t' e'" using lv by (simp add: live_def check_batch_frame)
      moreover have "existing_conflict K (bi_check b) (le_key e) (le_holder e) (le_mode e) s = None"
        using none b own es by simp
      ultimately show ?thesis using no_conflict_no_clash [OF inv] chk b(1) by blast
    qed
    have inv2: "lease_inv K T (snd ?m)"
      by (rule lease_inv_commit_batch [OF inv1 _ free]) (use own in \<open>auto dest: set_zip_leftD\<close>)
    have "leases (snd (acquire_batch K P now items holder mode dur s)) = leases (snd ?m)"
      "group_index (snd (acquire_batch K P now items holder mode dur s)) = group_index (snd ?m)"
      using False Inr by (cases ?c; simp add: acquire_batch_def Let_def split_beta)+
    then have "lease_inv K T (snd (acquire_batch K P now items holder mode dur s)) = lease_inv K T (snd ?m)"
      by (rule lease_inv_cong)
    with inv2 show ?thesis by simp
  qed
qed

text \<open>A lease that is still live may be renewed.\<close>

lemma lease_inv_renew [inv_intros]:
  assumes inv: "lease_inv K T s" and T: "T \<le> re_now r"
    and timely: "\<And>e. hm_get (leases s) token = Some e \<Longrightarrow> \<not> is_expired (re_now r) e"
  shows "lease_inv K (re_now r) (snd (renew K P r token holder dur s))"
proof -
  have inv': "lease_inv K (re_now r) s" using inv T by (rule lease_inv_mono)
  let ?s = "snd (renew K P r token holder dur s)"
  show ?thesis
  proof (cases rule: renew_cases [where K = K and P = P and r = r and token = token
        and holder = holder and dur = dur and s = s])
    case (renewed e)
    from renewed(1) timely have lv: "live (re_now r) s token e" by (simp add: live_def)
    let ?e = "e\<lparr>le_expire_at := re_now r + dur, le_epoch := epoch_counter s\<rparr>"
    have same: "\<exists>d'. live (re_now r) s u d' \<and> le_key d = le_key d' \<and> le_holder d = le_holder d'
        \<and> le_mode d = le_mode d'" if "live (re_now r) ?s u d" for u d
    proof (cases "u = token")
      case True
      with that renewed(4) have "d = ?e" by (simp add: live_def)
      with True lv show ?thesis by (intro exI [of _ e]) simp
    next
      case False
      with that renewed(4) show ?thesis by (intro exI [of _ d]) (simp add: live_def)
    qed
    have toks: "group_tokens ?s g = group_tokens s g" for g
      using renewed(5) by (simp add: group_tokens_def)
    have "indexed K (re_now r) ?s"
      using inv' same toks unfolding lease_inv_def indexed_def by metis
    moreover have "exclusion K (re_now r) ?s"
      using inv' same unfolding lease_inv_def exclusion_def clash_def by metis
    ultimately show ?thesis by (simp add: lease_inv_def)
  qed (use inv' in simp_all)
qed

end

section \<open>Tokens\<close>

text \<open>The epoch can be read off a token, so tokens of different epochs differ whatever the UUIDs
  are.\<close>

definition decimal_value :: "str \<Rightarrow> nat" where
  "decimal_value bs = foldl (\<lambda>a b. 10 * a + unat (b - 48)) 0 bs"

lemma decimal_value_decimal: "decimal_value (decimal n) = n"
proof (induction n rule: decimal.induct)
  case (1 n)
  have digit: "unat (48 + of_nat d - 48 :: byte) = d" if "d < 10" for d
    using that by (simp add: unat_of_nat_small)
  show ?case
  proof (cases "n < 10")
    case True
    then show ?thesis using digit by (simp add: decimal.simps [of n] decimal_value_def)
  next
    case False
    with 1 have "decimal_value (decimal (n div 10)) = n div 10" by simp
    with False digit [of "n mod 10"] show ?thesis
      by (simp add: decimal.simps [of n] decimal_value_def)
  qed
qed

lemma decimal_no_dash: "(45 :: byte) \<notin> set (decimal n)"
proof (induction n rule: decimal.induct)
  case (1 n)
  have digit: "48 + of_nat d \<noteq> (45 :: byte)" if "d < 10" for d :: nat
  proof -
    have "d = 0 \<or> d = 1 \<or> d = 2 \<or> d = 3 \<or> d = 4 \<or> d = 5 \<or> d = 6 \<or> d = 7 \<or> d = 8 \<or> d = 9"
      using that by arith
    then show ?thesis by auto
  qed
  from 1 digit [of n] digit [of "n mod 10"] show ?case
    by (auto simp: decimal.simps [of n])
qed

lemma token_text_epoch: "token_text e u = token_text e' u' \<Longrightarrow> e = e'"
proof -
  assume "token_text e u = token_text e' u'"
  then have "takeWhile (\<lambda>b. b \<noteq> 45) (decimal (unat e) @ 45 # u) =
      takeWhile (\<lambda>b. b \<noteq> 45) (decimal (unat e') @ 45 # u')"
    by (simp add: token_text_def ascii_def)
  moreover have "takeWhile (\<lambda>b. b \<noteq> 45) (decimal n @ 45 # v) = decimal n" for n v
    using decimal_no_dash [of n] by (subst takeWhile_append2) auto
  ultimately have "decimal (unat e) = decimal (unat e')" by simp
  then have "unat e = unat e'" using decimal_value_decimal by metis
  then show ?thesis by (simp add: word_unat_eq_iff)
qed

text \<open>Every token in use was issued under an epoch below the counter.\<close>

definition issued :: "u64 \<Rightarrow> str \<Rightarrow> bool" where
  "issued c t \<longleftrightarrow> (\<exists>e u. t = token_text e u \<and> e < c)"

definition tokens_issued :: "('k, 'p) MemoryLeaseStore \<Rightarrow> bool" where
  "tokens_issued s \<longleftrightarrow> (\<forall>t e. hm_get (leases s) t = Some e \<longrightarrow> issued (epoch_counter s) t)"

lemma issued_mono: "issued c t \<Longrightarrow> c \<le> d \<Longrightarrow> issued d t"
  unfolding issued_def by (blast dest: less_le_trans)

lemma issued_fresh: "issued c t \<Longrightarrow> c \<le> d \<Longrightarrow> t \<noteq> token_text d u"
  unfolding issued_def using token_text_epoch by (metis linorder_not_less)

lemma issued_new: "c < - 1 \<Longrightarrow> issued (c + 1) (token_text c u)"
  unfolding issued_def using less_plus_one_u64 by blast

lemma epoch_room: "unat (c :: u64) + 1 < 2 ^ 64 \<Longrightarrow> c < c + 1"
  using less_plus_one_u64 less_max_u64 by blast

section \<open>Interleaved callers\<close>

text \<open>
  A server with many request handlers: the store, the clock, and the releases that are between two
  of their critical sections. Each operation holds its locks throughout, except \<^verbatim>\<open>release\<close>, whose
  three sections are steps of their own. The steps stand for runs in which a client renews a lease
  only while it has not expired, and in which fewer than \<open>2 ^ 64\<close> epochs are handed out.
\<close>

record ('k, 'p) Server =
  clock :: instant
  store :: "('k, 'p) MemoryLeaseStore"
  ungrouped :: "(str \<times> u64 \<times> str) list"
  unheld :: "(str \<times> str) list"

inductive lease_step ::
  "'k LeaseKey \<Rightarrow> 'p LeasePersistence \<Rightarrow> ('k, 'p) Server \<Rightarrow> ('k, 'p) Server \<Rightarrow> bool"
  for K :: "'k LeaseKey" and P :: "'p LeasePersistence"
where
  acquired: "\<lbrakk>unat (epoch_counter (store w)) + 1 < 2 ^ 64; clock w \<le> T; \<And>t. ae_check r t \<le> T; \<And>t. ae_sweep r t \<le> T\<rbrakk> \<Longrightarrow>
    lease_step K P w (w\<lparr>clock := T, store := snd (acquire K P r key h m dur (store w))\<rparr>)"
| batched: "\<lbrakk>unat (epoch_counter (store w)) + length items < 2 ^ 64; clock w \<le> T; \<And>b t. b \<in> set items \<Longrightarrow> bi_check b t \<le> T\<rbrakk> \<Longrightarrow>
    lease_step K P w (w\<lparr>clock := T, store := snd (acquire_batch K P now items h m dur (store w))\<rparr>)"
| renewed: "\<lbrakk>unat (epoch_counter (store w)) + 1 < 2 ^ 64; clock w \<le> re_now r; re_now r \<le> T;
      \<And>e. hm_get (leases (store w)) t = Some e \<Longrightarrow> \<not> is_expired (re_now r) e\<rbrakk> \<Longrightarrow>
    lease_step K P w (w\<lparr>clock := T, store := snd (renew K P r t h dur (store w))\<rparr>)"
| unleased: "release_lease K t h (store w) = (Inr g, s) \<Longrightarrow>
    lease_step K P w (w\<lparr>store := s, ungrouped := (t, g, h) # ungrouped w\<rparr>)"
| refused: "release_lease K t h (store w) = (Inl e, s) \<Longrightarrow>
    lease_step K P w (w\<lparr>store := s\<rparr>)"
| degrouped: "\<lbrakk>(t, g, h) \<in> set (ungrouped w)\<rbrakk> \<Longrightarrow>
    lease_step K P w (w\<lparr>store := release_group t g (store w),
      ungrouped := remove1 (t, g, h) (ungrouped w), unheld := (t, h) # unheld w\<rparr>)"
| released: "\<lbrakk>(t, h) \<in> set (unheld w)\<rbrakk> \<Longrightarrow>
    lease_step K P w (w\<lparr>store := release_holder P t h (store w), unheld := remove1 (t, h) (unheld w)\<rparr>)"
| disconnected: "lease_step K P w (w\<lparr>store := snd (disconnect_holder K P h (store w))\<rparr>)"
| cleaned: "lease_step K P w (w\<lparr>store := snd (cleanup_expired K P now (store w))\<rparr>)"
| waited: "clock w \<le> T \<Longrightarrow> lease_step K P w (w\<lparr>clock := T\<rparr>)"

text \<open>Successful phases hand out one epoch per key.\<close>

lemma check_batch_Cons:
  assumes "fst (check_batch K h m now x (b # bs) pending s) = Inr es"
  obtains e where "le_token e = token_text (epoch_counter s) (bi_uuid b)"
    "check_batch K h m now x (b # bs) pending s =
       check_batch K h m now x bs (pending @ [e]) (s\<lparr>epoch_counter := epoch_counter s + 1\<rparr>)"
proof (rule that [of "\<lparr>le_key = bi_key b, le_holder = h,
    le_token = token_text (epoch_counter s) (bi_uuid b), le_mode = m, le_acquired_at = now,
    le_expire_at = x, le_epoch = epoch_counter s\<rparr>"])
qed (use assms in \<open>auto simp: Let_def generate_token_def split: option.splits if_splits\<close>)

lemma check_batch_counter:
  assumes "fst (check_batch K h m now x bs pending s) = Inr es"
    and "unat (epoch_counter s) + length bs < 2 ^ 64"
  shows "unat (epoch_counter (snd (check_batch K h m now x bs pending s))) =
      unat (epoch_counter s) + length bs"
  using assms
proof (induction bs arbitrary: pending s)
  case (Cons b bs)
  obtain e where step: "check_batch K h m now x (b # bs) pending s =
       check_batch K h m now x bs (pending @ [e]) (s\<lparr>epoch_counter := epoch_counter s + 1\<rparr>)"
    using Cons.prems(1) by (rule check_batch_Cons)
  have "unat (epoch_counter s + 1) = unat (epoch_counter s) + 1"
    using Cons.prems(2) unat_add_u64 [of "epoch_counter s" 1] by simp
  then show ?case
    using Cons.IH [of "pending @ [e]" "s\<lparr>epoch_counter := epoch_counter s + 1\<rparr>"] Cons.prems
    unfolding step by simp
qed simp

lemma check_batch_tokens:
  assumes "fst (check_batch K h m now x bs pending s) = Inr es"
    and "unat (epoch_counter s) + length bs < 2 ^ 64"
  shows "\<exists>new. es = pending @ new \<and> (\<forall>e\<in>set new. \<exists>c u. le_token e = token_text c u
      \<and> epoch_counter s \<le> c \<and> c < epoch_counter (snd (check_batch K h m now x bs pending s)))"
  using assms
proof (induction bs arbitrary: pending s)
  case (Cons b bs)
  let ?s = "s\<lparr>epoch_counter := epoch_counter s + 1\<rparr>"
  obtain e where e: "le_token e = token_text (epoch_counter s) (bi_uuid b)" and
    step: "check_batch K h m now x (b # bs) pending s = check_batch K h m now x bs (pending @ [e]) ?s"
    using Cons.prems(1) by (rule check_batch_Cons)
  have rest: "fst (check_batch K h m now x bs (pending @ [e]) ?s) = Inr es"
    using Cons.prems(1) unfolding step .
  have up: "unat (epoch_counter s + 1) = unat (epoch_counter s) + 1"
    using Cons.prems(2) unat_add_u64 [of "epoch_counter s" 1] by simp
  with Cons.prems(2) have room: "unat (epoch_counter ?s) + length bs < 2 ^ 64" by simp
  let ?c = "epoch_counter (snd (check_batch K h m now x bs (pending @ [e]) ?s))"
  from check_batch_counter [OF rest room] up
  have c: "epoch_counter s < ?c" "epoch_counter s \<le> epoch_counter s + 1"
    by (simp_all add: word_less_nat_alt word_le_nat_alt)
  from Cons.IH [OF rest room] obtain new where new: "es = (pending @ [e]) @ new"
    "\<forall>d\<in>set new. \<exists>c u. le_token d = token_text c u \<and> epoch_counter ?s \<le> c \<and> c < ?c"
    by blast
  have "\<exists>c u. le_token d = token_text c u \<and> epoch_counter s \<le> c \<and> c < ?c"
    if d: "d \<in> set (e # new)" for d
  proof (cases "d = e")
    case True
    with e c(1) show ?thesis by blast
  next
    case False
    with d new(2) obtain k u where "le_token d = token_text k u" "epoch_counter s + 1 \<le> k" "k < ?c"
      by auto
    with c(2) show ?thesis by (blast intro: order_trans)
  qed
  then show ?case
    unfolding step using new(1) by (intro exI [of _ "e # new"]) simp
qed simp

lemma acquire_batch_cases:
  obtains (idle) "items = []" "acquire_batch K P now items h m dur s = (Inr [], s)"
  | (refused) x where "fst (check_batch K h m now (now + dur) items [] s) = Inl x"
      "fst (acquire_batch K P now items h m dur s) = Inl x"
      "snd (acquire_batch K P now items h m dur s) = snd (check_batch K h m now (now + dur) items [] s)"
  | (granted) es where "fst (check_batch K h m now (now + dur) items [] s) = Inr es"
      "fst (acquire_batch K P now items h m dur s) = Inr es"
      "leases (snd (acquire_batch K P now items h m dur s)) =
         fold (\<lambda>e. hm_insert (le_token e) e) es (leases s)"
      "epoch_counter (snd (acquire_batch K P now items h m dur s)) =
         epoch_counter (snd (check_batch K h m now (now + dur) items [] s))"
proof (cases "items = []")
  case True
  then show ?thesis by (intro idle) (simp_all add: acquire_batch_def)
next
  case False
  let ?c = "check_batch K h m now (now + dur) items [] s"
  show ?thesis
  proof (cases "fst ?c")
    case (Inl x)
    with False show ?thesis by (cases ?c) (auto simp: acquire_batch_def intro!: refused)
  next
    case (Inr es)
    have ls: "leases (snd ?c) = leases s" by (rule check_batch_frame)
    have len: "length es = length items"
      using check_batch_pending [OF Inr] by (auto dest: map_eq_imp_length_eq)
    have "fold (\<lambda>(e, _). hm_insert (le_token e) e) (zip es cs) ls = fold (\<lambda>e. hm_insert (le_token e) e) es ls"
      if "length cs = length es" for cs :: "Clocks list" and ls
      using that by (induction es cs arbitrary: ls rule: list_induct2') auto
    moreover have "epoch_counter (snd (commit_batch K P h z b t)) = epoch_counter t" for z b t
      by (induction z arbitrary: b t) (auto simp: Let_def split_beta)
    ultimately show ?thesis
      using Inr False len ls
      by (cases ?c) (intro granted [of es]; simp add: acquire_batch_def Let_def split_beta
          commit_batch_leases)
  qed
qed

subsection \<open>The invariant of the server\<close>

definition server_inv :: "'k LeaseKey \<Rightarrow> ('k, 'p) Server \<Rightarrow> bool" where
  "server_inv K w \<longleftrightarrow>
     lease_inv K (clock w) (store w) \<and> tokens_issued (store w)
     \<and> (\<forall>(t, g, h)\<in>set (ungrouped w). issued (epoch_counter (store w)) t \<and> hm_get (leases (store w)) t = None)"

definition fresh_server :: "instant \<Rightarrow> ('k, 'p) Server" where
  "fresh_server T = \<lparr>clock = T, store = MemoryLeaseStore_new, ungrouped = [], unheld = []\<rparr>"

lemma server_inv_fresh: "server_inv K (fresh_server T)"
  by (simp add: server_inv_def fresh_server_def lease_inv_new tokens_issued_def)
    (simp add: MemoryLeaseStore_new_def)

text \<open>The leases of a step were there before or carry a token of a new epoch.\<close>

definition grants :: "('k, 'p) MemoryLeaseStore \<Rightarrow> ('k, 'p) MemoryLeaseStore \<Rightarrow> bool" where
  "grants s s' \<longleftrightarrow> epoch_counter s \<le> epoch_counter s'
     \<and> (\<forall>t e. hm_get (leases s') t = Some e \<longrightarrow> hm_get (leases s) t = None \<longrightarrow>
         (\<exists>c u. t = token_text c u \<and> epoch_counter s \<le> c \<and> c < epoch_counter s'))"

lemma server_inv_grants:
  assumes inv: "server_inv K w" and gr: "grants (store w) s" and li: "lease_inv K T s"
  shows "server_inv K (w\<lparr>clock := T, store := s\<rparr>)"
proof -
  let ?c = "epoch_counter (store w)"
  have le: "?c \<le> epoch_counter s" using gr by (simp add: grants_def)
  have iss: "issued ?c t" if "hm_get (leases (store w)) t \<noteq> None" for t
    using inv that by (auto simp: server_inv_def tokens_issued_def)
  have "issued (epoch_counter s) t" if e: "hm_get (leases s) t = Some e" for t e
  proof (cases "hm_get (leases (store w)) t")
    case None
    with gr e show ?thesis unfolding grants_def issued_def by blast
  next
    case Some
    then show ?thesis using iss le by (auto intro: issued_mono)
  qed
  moreover have "hm_get (leases s) t = None" if t: "issued ?c t" "hm_get (leases (store w)) t = None" for t
  proof (rule ccontr)
    assume "hm_get (leases s) t \<noteq> None"
    with gr t(2) obtain k u where "t = token_text k u" "?c \<le> k" unfolding grants_def by blast
    with t(1) issued_fresh show False by blast
  qed
  ultimately show ?thesis
    using inv li le unfolding server_inv_def tokens_issued_def by (auto intro: issued_mono)
qed

lemma grants_refl_sub:
  "epoch_counter s' = epoch_counter s \<Longrightarrow>
     (\<And>t e. hm_get (leases s') t = Some e \<Longrightarrow> hm_get (leases s) t = Some e) \<Longrightarrow> grants s s'"
  by (auto simp: grants_def)

lemma grants_acquire:
  assumes "unat (epoch_counter s) + 1 < 2 ^ 64"
  shows "grants s (snd (acquire K P r key h m dur s))"
proof (cases "existing_conflict K (ae_check r) key h m s")
  case None
  from epoch_room [OF assms] acquire_granted(2,6) [OF None, of P dur] show ?thesis
    by (auto simp: grants_def split: if_splits)
qed (simp add: acquire_refused grants_def)

lemma fold_insert_new:
  "hm_get (fold (\<lambda>e. hm_insert (le_token e) e) es ls) t \<noteq> None \<Longrightarrow> hm_get ls t = None \<Longrightarrow>
     \<exists>e\<in>set es. t = le_token e"
proof (induction es arbitrary: ls)
  case (Cons e es)
  show ?case
  proof (cases "t = le_token e")
    case False
    with Cons.prems Cons.IH [of "hm_insert (le_token e) e ls"] show ?thesis by simp
  qed simp
qed simp

lemma check_batch_counter_mono:
  "unat (epoch_counter s) + length bs < 2 ^ 64 \<Longrightarrow>
     epoch_counter s \<le> epoch_counter (snd (check_batch K h m now x bs pending s))"
proof (induction bs arbitrary: pending s)
  case (Cons b bs)
  have up: "unat (epoch_counter s + 1) = unat (epoch_counter s) + 1"
    using Cons.prems unat_add_u64 [of "epoch_counter s" 1] by simp
  then have le: "epoch_counter s \<le> epoch_counter s + 1" by (simp add: word_le_nat_alt)
  have "epoch_counter s + 1 \<le> epoch_counter (snd (check_batch K h m now x bs p
      (s\<lparr>epoch_counter := epoch_counter s + 1\<rparr>)))" for p
    using Cons.IH [of "s\<lparr>epoch_counter := epoch_counter s + 1\<rparr>" p] Cons.prems up by simp
  with le show ?case
    by (auto simp: Let_def generate_token_def split: option.split intro: order_trans)
qed simp

lemma grants_acquire_batch:
  assumes room: "unat (epoch_counter s) + length items < 2 ^ 64"
  shows "grants s (snd (acquire_batch K P now items h m dur s))"
proof (cases rule: acquire_batch_cases [where K = K and P = P and now = now and items = items
      and h = h and m = m and dur = dur and s = s])
  case idle
  then show ?thesis by (simp add: grants_def)
next
  case (refused x)
  then show ?thesis
    using check_batch_counter_mono [OF room]
    by (auto simp: grants_def check_batch_frame)
next
  case (granted es)
  let ?s = "snd (acquire_batch K P now items h m dur s)"
  from check_batch_tokens [OF granted(1) room] granted(4)
  have toks: "\<forall>e\<in>set es. \<exists>c u. le_token e = token_text c u \<and> epoch_counter s \<le> c \<and> c < epoch_counter ?s"
    by auto
  have "\<exists>c u. t = token_text c u \<and> epoch_counter s \<le> c \<and> c < epoch_counter ?s"
    if "hm_get (leases ?s) t = Some e" and old: "hm_get (leases s) t = None" for t e
  proof -
    have "hm_get (fold (\<lambda>e. hm_insert (le_token e) e) es (leases s)) t \<noteq> None"
      using that granted(3) by simp
    from fold_insert_new [OF this old] toks show ?thesis by blast
  qed
  then show ?thesis
    using check_batch_counter_mono [OF room] granted(4) by (simp add: grants_def)
qed

lemma grants_renew:
  assumes "unat (epoch_counter s) + 1 < 2 ^ 64"
  shows "grants s (snd (renew K P r t h dur s))"
  by (cases rule: renew_cases [where K = K and P = P and r = r and token = t
        and holder = h and dur = dur and s = s])
    (use epoch_room [OF assms] in \<open>auto simp: grants_def split: if_splits\<close>)

lemma disconnect_each_sub:
  "hm_get (leases (snd (disconnect_each K ts removed s))) t = Some e \<Longrightarrow> hm_get (leases s) t = Some e"
  "epoch_counter (snd (disconnect_each K ts removed s)) = epoch_counter s"
  by (induction K ts removed s rule: disconnect_each.induct) (auto split: option.splits if_splits)

lemma grants_disconnect: "grants s (snd (disconnect_holder K P h s))"
proof -
  let ?d = "snd (disconnect_each K (holder_tokens s h) [] s)"
  have "leases (snd (disconnect_holder K P h s)) = leases ?d"
    "epoch_counter (snd (disconnect_holder K P h s)) = epoch_counter ?d"
    by (simp_all add: disconnect_holder_def Let_def split: prod.split option.split)
  then show ?thesis by (auto intro!: grants_refl_sub dest: disconnect_each_sub(1) simp: disconnect_each_sub(2))
qed

lemma cleanup_each_sub:
  "hm_get (leases (snd (cleanup_each K P ts removed s))) t = Some e \<Longrightarrow> hm_get (leases s) t = Some e"
  "epoch_counter (snd (cleanup_each K P ts removed s)) = epoch_counter s"
  by (induction K P ts removed s rule: cleanup_each.induct) (auto split: option.splits if_splits)

lemma grants_cleanup: "grants s (snd (cleanup_expired K P now s))"
proof -
  let ?ts = "map fst (filter (\<lambda>(_, e). is_expired_beyond now (cleanup_grace s) e) (leases s))"
  let ?d = "snd (cleanup_each K P ?ts 0 s)"
  have "leases (snd (cleanup_expired K P now s)) = leases ?d"
    "epoch_counter (snd (cleanup_expired K P now s)) = epoch_counter ?d"
    by (simp_all add: cleanup_expired_def Let_def split: prod.split)
  then show ?thesis by (auto intro!: grants_refl_sub dest: cleanup_each_sub(1) simp: cleanup_each_sub(2))
qed

context lease_key
begin

lemma server_inv_store:
  assumes "server_inv K w" and "grants (store w) s" and "lease_inv K (clock w) s"
  shows "server_inv K (w\<lparr>store := s\<rparr>)"
  using server_inv_grants [OF assms] by simp

lemma server_inv_degroup:
  assumes inv: "server_inv K w" and mem: "(t, g, h) \<in> set (ungrouped w)"
  shows "server_inv K (w\<lparr>store := release_group t g (store w),
    ungrouped := remove1 (t, g, h) (ungrouped w), unheld := u\<rparr>)"
proof -
  from inv mem have "hm_get (leases (store w)) t = None" by (auto simp: server_inv_def)
  with inv have "lease_inv K (clock w) (release_group t g (store w))"
    by (simp add: server_inv_def lease_inv_release_group)
  with inv show ?thesis
    by (auto simp: server_inv_def tokens_issued_def dest!: set_remove1_subset [THEN subsetD])
qed

lemma server_inv_unlease:
  assumes inv: "server_inv K w" and rel: "release_lease K t h (store w) = (Inr g, s)"
  shows "server_inv K (w\<lparr>store := s, ungrouped := (t, g, h) # ungrouped w\<rparr>)"
proof -
  from rel obtain e where e: "hm_get (leases (store w)) t = Some e"
    and s: "s = (store w)\<lparr>leases := hm_remove t (leases (store w))\<rparr>"
    by (auto simp: release_lease_def split: option.splits if_splits)
  have "lease_inv K (clock w) s"
    using inv lease_inv_release_lease [of K "clock w" "store w" K t h] rel by (simp add: server_inv_def)
  moreover have "issued (epoch_counter (store w)) t"
    using inv e by (simp add: server_inv_def tokens_issued_def)
  ultimately show ?thesis
    using inv s unfolding server_inv_def tokens_issued_def by (auto split: if_splits)
qed

lemma server_inv_step:
  assumes "lease_step K P w w'" and inv: "server_inv K w"
  shows "server_inv K w'"
  using assms
proof (cases rule: lease_step.cases)
  case (acquired T r key h m dur)
  have "lease_inv K T (store w)"
    using inv acquired by (auto simp: server_inv_def intro: lease_inv_mono)
  then have "lease_inv K T (snd (acquire K P r key h m dur (store w)))"
    using acquired by (intro lease_inv_acquire) auto
  with inv acquired show ?thesis by (simp add: server_inv_grants grants_acquire)
next
  case (batched items T now h m dur)
  have "lease_inv K T (store w)"
    using inv batched by (auto simp: server_inv_def intro: lease_inv_mono)
  then have "lease_inv K T (snd (acquire_batch K P now items h m dur (store w)))"
    using batched by (intro lease_inv_acquire_batch) auto
  with inv batched show ?thesis by (simp add: server_inv_grants grants_acquire_batch)
next
  case (renewed r T t h dur)
  have "lease_inv K (re_now r) (snd (renew K P r t h dur (store w)))"
    using inv renewed by (intro lease_inv_renew [of "clock w"]) (auto simp: server_inv_def)
  then have "lease_inv K T (snd (renew K P r t h dur (store w)))"
    using renewed by (auto intro: lease_inv_mono)
  with inv renewed show ?thesis by (simp add: server_inv_grants grants_renew)
next
  case (unleased t h g s)
  then show ?thesis using inv server_inv_unlease by simp
next
  case (refused t h e s)
  then have "s = store w" by (auto simp: release_lease_def split: option.splits if_splits)
  with refused inv show ?thesis by simp
next
  case (degrouped t g h)
  then show ?thesis using inv server_inv_degroup by simp
next
  case (released t h)
  have "server_inv K (w\<lparr>store := release_holder P t h (store w)\<rparr>)"
    using inv by (intro server_inv_store grants_refl_sub)
      (auto simp: server_inv_def lease_inv_release_holder, auto simp: release_holder_def Let_def)
  with released show ?thesis by (simp add: server_inv_def)
next
  case (disconnected h)
  moreover have "lease_inv K (clock w) (store w)" using inv by (simp add: server_inv_def)
  ultimately show ?thesis
    using server_inv_store [OF inv grants_disconnect lease_inv_disconnect] by simp
next
  case (cleaned now)
  moreover have "lease_inv K (clock w) (store w)" using inv by (simp add: server_inv_def)
  ultimately show ?thesis
    using server_inv_store [OF inv grants_cleanup lease_inv_cleanup] by simp
next
  case (waited T)
  with inv show ?thesis by (auto simp: server_inv_def intro: lease_inv_mono)
qed

lemma server_inv_runs: "(lease_step K P)\<^sup>*\<^sup>* w w' \<Longrightarrow> server_inv K w \<Longrightarrow> server_inv K w'"
  by (induction rule: rtranclp_induct) (auto intro: server_inv_step)

text \<open>Whatever the handlers do, two tokens that validate at the same time for different holders
  never clash.\<close>

lemma validated_no_clash:
  assumes "(lease_step K P)\<^sup>*\<^sup>* (fresh_server T0) w"
    and "validate_token (clock w) t h (store w) = Inr ()" and "hm_get (leases (store w)) t = Some e"
    and "validate_token (clock w) t' h' (store w) = Inr ()" and "hm_get (leases (store w)) t' = Some e'"
  shows "\<not> clash K e e'"
proof -
  have "server_inv K w" using assms(1) server_inv_fresh by (rule server_inv_runs)
  moreover have "live (clock w) (store w) t e" "live (clock w) (store w) t' e'"
    using assms(2-5) by (auto simp: validate_token_def live_def split: if_splits)
  ultimately show ?thesis by (simp add: server_inv_def lease_inv_def exclusion_def)
qed

end

text \<open>More on batches: the only error is a conflict, and the tokens of a batch differ.\<close>

lemma check_batch_error:
  "fst (check_batch K h m now x bs pending s) = Inl err \<Longrightarrow> \<exists>c. err = Conflict c"
  by (induction bs arbitrary: pending s)
    (auto simp: Let_def generate_token_def split: option.splits if_splits)

lemma check_batch_distinct:
  assumes "fst (check_batch K h m now x bs pending s) = Inr es"
    and "unat (epoch_counter s) + length bs < 2 ^ 64"
  shows "distinct (map le_token (drop (length pending) es))"
  using assms
proof (induction bs arbitrary: pending s)
  case (Cons b bs)
  let ?s = "s\<lparr>epoch_counter := epoch_counter s + 1\<rparr>"
  obtain e where e: "le_token e = token_text (epoch_counter s) (bi_uuid b)" and
    step: "check_batch K h m now x (b # bs) pending s = check_batch K h m now x bs (pending @ [e]) ?s"
    using Cons.prems(1) by (rule check_batch_Cons)
  have rest: "fst (check_batch K h m now x bs (pending @ [e]) ?s) = Inr es"
    using Cons.prems(1) unfolding step .
  have up: "unat (epoch_counter s + 1) = unat (epoch_counter s) + 1"
    using Cons.prems(2) unat_add_u64 [of "epoch_counter s" 1] by simp
  with Cons.prems(2) have room: "unat (epoch_counter ?s) + length bs < 2 ^ 64" by simp
  let ?c = "epoch_counter (snd (check_batch K h m now x bs (pending @ [e]) ?s))"
  from check_batch_tokens [OF rest room] obtain new where new: "es = (pending @ [e]) @ new"
    "\<forall>d\<in>set new. \<exists>c u. le_token d = token_text c u \<and> epoch_counter ?s \<le> c \<and> c < ?c"
    by blast
  have "le_token e \<noteq> le_token d" if "d \<in> set new" for d
  proof -
    from new(2) that obtain c u where "le_token d = token_text c u" "epoch_counter s + 1 \<le> c"
      by auto
    moreover from this(2) up have "epoch_counter s \<noteq> c" by (auto simp: word_le_nat_alt)
    ultimately show ?thesis using e token_text_epoch by metis
  qed
  moreover have "distinct (map le_token new)"
    using Cons.IH [OF rest room] new(1) by simp
  ultimately show ?case using new(1) by auto
qed simp

lemma fold_insert_other:
  "t \<notin> le_token ` set es \<Longrightarrow> hm_get (fold (\<lambda>e. hm_insert (le_token e) e) es ls) t = hm_get ls t"
  by (induction es arbitrary: ls) auto

lemma fold_insert_get:
  "distinct (map le_token es) \<Longrightarrow> e \<in> set es \<Longrightarrow>
     hm_get (fold (\<lambda>e. hm_insert (le_token e) e) es ls) (le_token e) = Some e"
proof (induction es arbitrary: ls)
  case (Cons d es)
  then show ?case
    by (cases "e = d") (auto simp: fold_insert_other image_iff)
qed simp

end
