(* ===== verification/Range_Lease.thy ===== *)
theory Range_Lease
  imports Lease_Laws
begin

text \<open>
  The volume server's stripe leases (\<^verbatim>\<open>powerfs-volume/src/range_lease.rs\<close>) on top of the generic
  store: the stripe key as an instance of the key contract, every method of \<^verbatim>\<open>RangeLeaseManager\<close>, mutual
  exclusion of stripe writers under all interleavings of the handlers, the renewal that breaks it, and
  all-or-nothing batches.
\<close>

section \<open>Stripe keys\<close>

record StripeKey =
  sk_inode :: u64
  sk_start :: u64
  sk_count :: u64

definition StripeKey_new :: "u64 \<Rightarrow> u64 \<Rightarrow> u64 \<Rightarrow> StripeKey" where
  "StripeKey_new inode start count = \<lparr>sk_inode = inode, sk_start = start, sk_count = count\<rparr>"

definition covers_stripe :: "StripeKey \<Rightarrow> u64 \<Rightarrow> bool" where
  "covers_stripe k stripe \<longleftrightarrow> sk_start k \<le> stripe \<and> stripe < sk_start k + sk_count k"

definition stripe_conflicts :: "StripeKey \<Rightarrow> StripeKey \<Rightarrow> bool" where
  "stripe_conflicts a b =
     (if sk_inode a \<noteq> sk_inode b then False
      else let self_end = sk_start a + sk_count a; other_end = sk_start b + sk_count b
           in sk_start a < other_end \<and> sk_start b < self_end)"

definition stripe_encode :: "StripeKey \<Rightarrow> bytes" where
  "stripe_encode k = u64_le (sk_inode k) @ u64_le (sk_start k) @ u64_le (sk_count k)"

definition stripe_decode :: "bytes \<Rightarrow> LeaseError + StripeKey" where
  "stripe_decode d =
     (if length d < 24 then Inl (Internal KeyTooShort)
      else Inr \<lparr>sk_inode = of_le (subslice 0 8 d), sk_start = of_le (subslice 8 16 d),
                sk_count = of_le (subslice 16 24 d)\<rparr>)"

definition stripe_key :: "StripeKey LeaseKey" where
  "stripe_key = \<lparr>group_id = sk_inode, conflicts = stripe_conflicts, key_encode = stripe_encode,
                 key_decode = stripe_decode\<rparr>"

section \<open>The manager\<close>

record RangeLease =
  rl_inode :: u64
  rl_stripe_start :: u64
  rl_stripe_count :: u64
  rl_holder :: str
  rl_token :: str
  rl_exclusive :: bool
  rl_stripe_size :: u64
  rl_acquired_at :: instant
  rl_expire_at :: instant
  rl_epoch :: u64

definition rl_is_expired :: "instant \<Rightarrow> RangeLease \<Rightarrow> bool" where
  "rl_is_expired now l \<longleftrightarrow> rl_expire_at l < now"

definition rl_covers_stripe :: "RangeLease \<Rightarrow> u64 \<Rightarrow> bool" where
  "rl_covers_stripe l stripe \<longleftrightarrow>
     rl_stripe_start l \<le> stripe \<and> stripe < rl_stripe_start l + rl_stripe_count l"

definition rl_overlaps :: "RangeLease \<Rightarrow> RangeLease \<Rightarrow> bool" where
  "rl_overlaps a b =
     (if rl_inode a \<noteq> rl_inode b then False
      else let self_end = rl_stripe_start a + rl_stripe_count a;
               other_end = rl_stripe_start b + rl_stripe_count b
           in rl_stripe_start a < other_end \<and> rl_stripe_start b < self_end)"

definition entry_to_range_lease :: "StripeKey LeaseEntry \<Rightarrow> u64 \<Rightarrow> RangeLease" where
  "entry_to_range_lease e stripe_size =
     \<lparr>rl_inode = sk_inode (le_key e), rl_stripe_start = sk_start (le_key e),
      rl_stripe_count = sk_count (le_key e), rl_holder = le_holder e, rl_token = le_token e,
      rl_exclusive = is_exclusive (le_mode e), rl_stripe_size = stripe_size,
      rl_acquired_at = le_acquired_at e, rl_expire_at = le_expire_at e, rl_epoch = le_epoch e\<rparr>"

record 'p RangeLeaseManager =
  rm_store :: "(StripeKey, 'p) MemoryLeaseStore"
  default_stripe_size :: u64

text \<open>The error texts: a store error printed, or one of the manager's own.\<close>

datatype RangeError =
    StoreError LeaseError
  | TokenNotFound
  | StripeNotCovered u64 u64 u64
  | LeaseIsExpired
  | HolderMismatched
  | InodeMismatch u64 u64
  | BeyondGracePeriod

definition RangeLeaseManager_new :: "u64 \<Rightarrow> 'p RangeLeaseManager" where
  "RangeLeaseManager_new sz = \<lparr>rm_store = MemoryLeaseStore_new, default_stripe_size = sz\<rparr>"

definition new_with_grace :: "u64 \<Rightarrow> u64 \<Rightarrow> 'p RangeLeaseManager" where
  "new_with_grace sz grace_ms =
     \<lparr>rm_store = with_cleanup_grace (from_millis grace_ms) MemoryLeaseStore_new,
      default_stripe_size = sz\<rparr>"

definition new_with_persistence :: "u64 \<Rightarrow> 'p \<Rightarrow> 'p RangeLeaseManager" where
  "new_with_persistence sz backend =
     \<lparr>rm_store = with_persistence backend MemoryLeaseStore_new, default_stripe_size = sz\<rparr>"

definition with_defaults :: "'p RangeLeaseManager" where
  "with_defaults = RangeLeaseManager_new (64 * 1024 * 1024)"

definition rm_load_from_persistence ::
  "'p LeasePersistence \<Rightarrow> (str \<Rightarrow> LoadEnv) \<Rightarrow> 'p RangeLeaseManager
     \<Rightarrow> (RangeError + nat) \<times> 'p RangeLeaseManager"
where
  "rm_load_from_persistence P r m =
     (let (x, s) = load_from_persistence stripe_key P r (rm_store m)
      in (map_err StoreError x, m\<lparr>rm_store := s\<rparr>))"

definition rm_persist_epoch ::
  "'p LeasePersistence \<Rightarrow> 'p RangeLeaseManager \<Rightarrow> (RangeError + unit) \<times> 'p RangeLeaseManager"
where
  "rm_persist_epoch P m =
     (let (x, s) = persist_epoch P (rm_store m) in (map_err StoreError x, m\<lparr>rm_store := s\<rparr>))"

text \<open>Kept for old callers; it changes nothing.\<close>

definition with_cleanup_grace_ms :: "u64 \<Rightarrow> 'p RangeLeaseManager \<Rightarrow> 'p RangeLeaseManager" where
  "with_cleanup_grace_ms grace_ms m = m"

definition rm_request_shutdown :: "'p RangeLeaseManager \<Rightarrow> 'p RangeLeaseManager" where
  "rm_request_shutdown m = m\<lparr>rm_store := request_shutdown (rm_store m)\<rparr>"

definition stripe_size_or_default :: "'p RangeLeaseManager \<Rightarrow> u64 \<Rightarrow> u64" where
  "stripe_size_or_default m stripe_size =
     (if 0 < stripe_size then stripe_size else default_stripe_size m)"

definition mode_of :: "bool \<Rightarrow> LeaseMode" where
  "mode_of exclusive = (if exclusive then Exclusive else Shared)"

definition rm_acquire ::
  "'p LeasePersistence \<Rightarrow> AcquireEnv \<Rightarrow> u64 \<Rightarrow> u64 \<Rightarrow> u64 \<Rightarrow> str \<Rightarrow> u64 \<Rightarrow> bool \<Rightarrow> u64
     \<Rightarrow> 'p RangeLeaseManager \<Rightarrow> (RangeError + RangeLease) \<times> 'p RangeLeaseManager"
where
  "rm_acquire P r inode start count client_id duration_ms exclusive stripe_size0 m =
     (let stripe_size = stripe_size_or_default m stripe_size0;
          key = StripeKey_new inode start count;
          (x, s) = acquire stripe_key P r key client_id (mode_of exclusive)
                     (from_millis duration_ms) (rm_store m)
      in (rbind (map_err StoreError x) (\<lambda>e. Inr (entry_to_range_lease e stripe_size)),
          m\<lparr>rm_store := s\<rparr>))"

text \<open>A range of the batch comes with what its turn reads.\<close>

record StripeSpec =
  ss_start :: u64
  ss_count :: u64
  ss_check :: "str \<Rightarrow> instant"
  ss_uuid :: str
  ss_clocks :: Clocks

definition spec_item :: "u64 \<Rightarrow> StripeSpec \<Rightarrow> StripeKey BatchItem" where
  "spec_item inode sp = \<lparr>bi_key = StripeKey_new inode (ss_start sp) (ss_count sp),
     bi_check = ss_check sp, bi_uuid = ss_uuid sp, bi_clocks = ss_clocks sp\<rparr>"

definition rm_acquire_batch ::
  "'p LeasePersistence \<Rightarrow> instant \<Rightarrow> u64 \<Rightarrow> StripeSpec list \<Rightarrow> str \<Rightarrow> u64 \<Rightarrow> bool \<Rightarrow> u64
     \<Rightarrow> 'p RangeLeaseManager \<Rightarrow> (RangeError + RangeLease list) \<times> 'p RangeLeaseManager"
where
  "rm_acquire_batch P now inode stripe_specs client_id duration_ms exclusive stripe_size0 m =
     (let stripe_size = stripe_size_or_default m stripe_size0;
          keys = map (spec_item inode) stripe_specs;
          (x, s) = acquire_batch stripe_key P now keys client_id (mode_of exclusive)
                     (from_millis duration_ms) (rm_store m)
      in (rbind (map_err StoreError x) (\<lambda>es. Inr (map (\<lambda>e. entry_to_range_lease e stripe_size) es)),
          m\<lparr>rm_store := s\<rparr>))"

definition rm_renew ::
  "'p LeasePersistence \<Rightarrow> RenewEnv \<Rightarrow> str \<Rightarrow> str \<Rightarrow> u64 \<Rightarrow> 'p RangeLeaseManager
     \<Rightarrow> (RangeError + unit) \<times> 'p RangeLeaseManager"
where
  "rm_renew P r token holder duration_ms m =
     (let (x, s) = renew stripe_key P r token holder (from_millis duration_ms) (rm_store m)
      in (map_err StoreError x, m\<lparr>rm_store := s\<rparr>))"

definition rm_release ::
  "'p LeasePersistence \<Rightarrow> str \<Rightarrow> str \<Rightarrow> 'p RangeLeaseManager
     \<Rightarrow> (RangeError + unit) \<times> 'p RangeLeaseManager"
where
  "rm_release P token holder m =
     (let (x, s) = release stripe_key P token holder (rm_store m)
      in (map_err StoreError x, m\<lparr>rm_store := s\<rparr>))"

definition rm_validate_token ::
  "instant \<Rightarrow> str \<Rightarrow> str \<Rightarrow> u64 \<Rightarrow> 'p RangeLeaseManager \<Rightarrow> RangeError + unit"
where
  "rm_validate_token now token holder stripe m =
     (case get_entry token (rm_store m) of None \<Rightarrow> Inl TokenNotFound
      | Some entry \<Rightarrow>
          rbind (map_err StoreError (validate_token now token holder (rm_store m))) (\<lambda>_.
            if \<not> covers_stripe (le_key entry) stripe
            then Inl (StripeNotCovered stripe (sk_start (le_key entry))
                        (sk_start (le_key entry) + sk_count (le_key entry)))
            else Inr ()))"

definition validate_token_for_inode ::
  "instant \<Rightarrow> str \<Rightarrow> str \<Rightarrow> u64 \<Rightarrow> 'p RangeLeaseManager \<Rightarrow> RangeError + unit"
where
  "validate_token_for_inode now token holder inode m =
     (case get_entry token (rm_store m) of None \<Rightarrow> Inl TokenNotFound
      | Some entry \<Rightarrow>
          if is_expired now entry then Inl LeaseIsExpired
          else if le_holder entry \<noteq> holder then Inl HolderMismatched
          else if sk_inode (le_key entry) \<noteq> inode
          then Inl (InodeMismatch inode (sk_inode (le_key entry)))
          else Inr ())"

definition validate_token_with_grace_period ::
  "instant \<Rightarrow> str \<Rightarrow> str \<Rightarrow> u64 \<Rightarrow> u64 \<Rightarrow> 'p RangeLeaseManager \<Rightarrow> RangeError + unit"
where
  "validate_token_with_grace_period now token holder inode grace_ms m =
     (case get_entry token (rm_store m) of None \<Rightarrow> Inl TokenNotFound
      | Some entry \<Rightarrow>
          if le_holder entry \<noteq> holder then Inl HolderMismatched
          else if sk_inode (le_key entry) \<noteq> inode
          then Inl (InodeMismatch inode (sk_inode (le_key entry)))
          else if le_expire_at entry + from_millis grace_ms < now then Inl BeyondGracePeriod
          else Inr ())"

definition get_active_leases_count :: "(str \<Rightarrow> instant) \<Rightarrow> 'p RangeLeaseManager \<Rightarrow> nat" where
  "get_active_leases_count chk m = active_count chk (rm_store m)"

definition get_active_holders_count :: "'p RangeLeaseManager \<Rightarrow> u64" where
  "get_active_holders_count m = active_holders_count (rm_store m)"

definition rm_stats :: "(str \<Rightarrow> instant) \<Rightarrow> 'p RangeLeaseManager \<Rightarrow> LeaseStats" where
  "rm_stats chk m = stats chk (rm_store m)"

definition get_leases_by_holder ::
  "(str \<Rightarrow> instant) \<Rightarrow> str \<Rightarrow> 'p RangeLeaseManager \<Rightarrow> RangeLease list" where
  "get_leases_by_holder chk holder m =
     map (\<lambda>e. entry_to_range_lease e (default_stripe_size m))
       (get_entries_by_holder chk holder (rm_store m))"

definition get_leases_for_inode ::
  "(str \<Rightarrow> instant) \<Rightarrow> u64 \<Rightarrow> 'p RangeLeaseManager \<Rightarrow> RangeLease list" where
  "get_leases_for_inode chk inode m =
     map (\<lambda>e. entry_to_range_lease e (default_stripe_size m))
       (get_entries_by_group chk inode (rm_store m))"

definition rm_disconnect_holder ::
  "'p LeasePersistence \<Rightarrow> str \<Rightarrow> 'p RangeLeaseManager \<Rightarrow> nat \<times> 'p RangeLeaseManager" where
  "rm_disconnect_holder P holder m =
     (let (n, s) = disconnect_holder stripe_key P holder (rm_store m) in (n, m\<lparr>rm_store := s\<rparr>))"

definition rm_cleanup_expired ::
  "'p LeasePersistence \<Rightarrow> instant \<Rightarrow> 'p RangeLeaseManager \<Rightarrow> nat \<times> 'p RangeLeaseManager" where
  "rm_cleanup_expired P now m =
     (let (n, s) = cleanup_expired stripe_key P now (rm_store m) in (n, m\<lparr>rm_store := s\<rparr>))"

section \<open>The stripe key honours the key contract\<close>

lemma stripe_key_simps [simp]:
  "group_id stripe_key = sk_inode" "conflicts stripe_key = stripe_conflicts"
  "key_encode stripe_key = stripe_encode" "key_decode stripe_key = stripe_decode"
  by (simp_all add: stripe_key_def)

lemma stripe_decode_encode: "stripe_decode (stripe_encode k) = Inr k"
  by (simp add: stripe_decode_def stripe_encode_def codec_simps)

interpretation stripe: lease_key stripe_key
  by unfold_locales
    (auto simp: stripe_conflicts_def Let_def stripe_decode_encode split: if_splits)

text \<open>Two ranges of one inode that cover a common stripe conflict, whatever their ends do at the
  width of the integers.\<close>

lemma covers_conflicts:
  "sk_inode a = sk_inode b \<Longrightarrow> covers_stripe a x \<Longrightarrow> covers_stripe b x \<Longrightarrow> stripe_conflicts a b"
  by (auto simp: covers_stripe_def stripe_conflicts_def Let_def dest: le_less_trans)

lemma rm_validate_token_Inr:
  "rm_validate_token now t h x m = Inr () \<Longrightarrow>
     \<exists>e. hm_get (leases (rm_store m)) t = Some e \<and> validate_token now t h (rm_store m) = Inr ()
       \<and> le_holder e = h \<and> covers_stripe (le_key e) x"
  by (auto simp: rm_validate_token_def get_entry_def rbind_Inr validate_token_def
      split: option.splits if_splits)

text \<open>C6: No two writers of one stripe. In every state a volume server reaches from an empty store,
  under any interleaving of its handlers in which leases are renewed before they expire: two tokens
  that \<^verbatim>\<open>validate_token\<close> accepts at the same time for the same stripe of the same inode belong to
  one client, or both leases are shared.\<close>

theorem stripe_exclusion:
  assumes run: "(lease_step stripe_key P)\<^sup>*\<^sup>* (fresh_server T0) w"
    and m: "rm_store m = store w"
    and v: "rm_validate_token (clock w) t h x m = Inr ()"
    and v': "rm_validate_token (clock w) t' h' x m = Inr ()"
    and e: "get_entry t (rm_store m) = Some e" and e': "get_entry t' (rm_store m) = Some e'"
    and inode: "sk_inode (le_key e) = sk_inode (le_key e')"
  shows "h = h' \<or> le_mode e = Shared \<and> le_mode e' = Shared"
proof -
  from rm_validate_token_Inr [OF v] e m have a: "validate_token (clock w) t h (store w) = Inr ()"
    "hm_get (leases (store w)) t = Some e" "le_holder e = h" "covers_stripe (le_key e) x"
    by (auto simp: get_entry_def)
  from rm_validate_token_Inr [OF v'] e' m have b: "validate_token (clock w) t' h' (store w) = Inr ()"
    "hm_get (leases (store w)) t' = Some e'" "le_holder e' = h'" "covers_stripe (le_key e') x"
    by (auto simp: get_entry_def)
  have "stripe_conflicts (le_key e) (le_key e')" using inode a(4) b(4) by (rule covers_conflicts)
  with stripe.validated_no_clash [OF run a(1,2) b(1,2)] a(3) b(3) show ?thesis
    by (cases "le_mode e"; cases "le_mode e'") (auto simp: clash_def is_exclusive_def)
qed

text \<open>An instance: two clients read stripes of the same inode.\<close>

definition no_backend :: "unit LeasePersistence" where
  "no_backend = \<lparr>p_save = (\<lambda>_ _ _. (Inr (), ())), p_delete = (\<lambda>_ _. (Inr (), ())),
     p_load_all = (\<lambda>_. Inr []), p_save_epoch = (\<lambda>_ _. (Inr (), ())), p_load_epoch = (\<lambda>_. Inr 0)\<rparr>"

definition env_at :: "instant \<Rightarrow> AcquireEnv" where
  "env_at T = \<lparr>ae_now = T, ae_check = (\<lambda>_. T), ae_sweep = (\<lambda>_. T), ae_uuid = [],
     ae_clocks = \<lparr>now_system = T, now_instant = T\<rparr>\<rparr>"

definition one_reader :: "(StripeKey, unit) MemoryLeaseStore" where
  "one_reader = snd (acquire stripe_key no_backend (env_at 0) (StripeKey_new 7 0 4) [65] Shared 100
     MemoryLeaseStore_new)"

definition two_readers :: "(StripeKey, unit) MemoryLeaseStore" where
  "two_readers = snd (acquire stripe_key no_backend (env_at 0) (StripeKey_new 7 2 4) [66] Shared 100
     one_reader)"

definition reader_entry :: "u64 \<Rightarrow> u64 \<Rightarrow> str \<Rightarrow> StripeKey LeaseEntry" where
  "reader_entry epoch start holder =
     \<lparr>le_key = StripeKey_new 7 start 4, le_holder = holder, le_token = token_text epoch [],
      le_mode = Shared, le_acquired_at = 0, le_expire_at = 100, le_epoch = epoch\<rparr>"

lemma token_text_eq: "token_text e u = token_text e' u' \<longleftrightarrow> e = e' \<and> u = u'"
  using token_text_epoch by (auto simp: token_text_def)

lemma one_reader_tables:
  "leases one_reader = [(token_text 0 [], reader_entry 0 0 [65])]"
  "group_index one_reader = [(7, [token_text 0 []])]" "epoch_counter one_reader = 1"
proof -
  have none: "existing_conflict stripe_key (ae_check (env_at 0)) (StripeKey_new 7 0 4) [65] Shared
      (MemoryLeaseStore_new :: (StripeKey, unit) MemoryLeaseStore) = None"
    by (simp add: existing_conflict_def MemoryLeaseStore_new_def)
  show "leases one_reader = [(token_text 0 [], reader_entry 0 0 [65])]"
    "group_index one_reader = [(7, [token_text 0 []])]" "epoch_counter one_reader = 1"
    unfolding one_reader_def acquire_granted(2,3,6) [OF none]
    by (simp_all add: reader_entry_def new_entry_def env_at_def MemoryLeaseStore_new_def
        group_tokens_def sweep_group_def StripeKey_new_def)
qed

lemma two_readers_leases:
  "leases two_readers = [(token_text 0 [], reader_entry 0 0 [65]), (token_text 1 [], reader_entry 1 2 [66])]"
proof -
  have none: "existing_conflict stripe_key (ae_check (env_at 0)) (StripeKey_new 7 2 4) [66] Shared one_reader = None"
    by (simp add: existing_conflict_def one_reader_tables StripeKey_new_def reader_entry_def is_exclusive_def)
  show ?thesis
    unfolding two_readers_def acquire_granted(2) [OF none]
    by (simp add: one_reader_tables token_text_eq reader_entry_def new_entry_def env_at_def
        StripeKey_new_def)
qed

lemma acquired_now:
  assumes "unat (epoch_counter (store w)) + 1 < 2 ^ 64" and "clock w = T"
  shows "lease_step K P w (w\<lparr>store := snd (acquire K P (env_at T) key h m dur (store w))\<rparr>)"
proof -
  have "lease_step K P w (w\<lparr>clock := T, store := snd (acquire K P (env_at T) key h m dur (store w))\<rparr>)"
    using assms by (intro lease_step.acquired) (auto simp: env_at_def)
  moreover have "w\<lparr>clock := T\<rparr> = w" using assms(2) by simp
  ultimately show ?thesis by simp
qed

lemma two_readers_run:
  "(lease_step stripe_key no_backend)\<^sup>*\<^sup>* (fresh_server 0)
     ((fresh_server 0)\<lparr>store := two_readers\<rparr>)"
proof -
  let ?w = "fresh_server 0 :: (StripeKey, unit) Server"
  have one: "lease_step stripe_key no_backend ?w (?w\<lparr>store := one_reader\<rparr>)"
    using acquired_now [of ?w 0 stripe_key no_backend "StripeKey_new 7 0 4" "[65]" Shared 100]
    by (simp add: one_reader_def fresh_server_def MemoryLeaseStore_new_def)
  have two: "lease_step stripe_key no_backend (?w\<lparr>store := one_reader\<rparr>) (?w\<lparr>store := two_readers\<rparr>)"
    using acquired_now [of "?w\<lparr>store := one_reader\<rparr>" 0 stripe_key no_backend "StripeKey_new 7 2 4" "[66]" Shared 100]
    by (simp add: two_readers_def fresh_server_def one_reader_tables)
  show ?thesis
    by (rule rtranclp.rtrancl_into_rtrancl [OF r_into_rtranclp [of "lease_step _ _", OF one] two])
qed

theorem stripe_exclusion_witness:
  "([65] :: str) = [66] \<or> le_mode (reader_entry 0 0 [65]) = Shared \<and> le_mode (reader_entry 1 2 [66]) = Shared"
proof (rule stripe_exclusion [OF two_readers_run, where t = "token_text 0 []" and t' = "token_text 1 []"
      and x = 3 and m = "\<lparr>rm_store = two_readers, default_stripe_size = 1\<rparr>"])
qed (simp_all add: two_readers_leases rm_validate_token_def validate_token_def get_entry_def token_text_eq
    fresh_server_def reader_entry_def StripeKey_new_def covers_stripe_def is_expired_def)

section \<open>Late renewals\<close>

text \<open>C37: A renewal does not look at the expiry. When a lease has expired and a conflicting one was
  granted to another client, the first client's \<^verbatim>\<open>renew\<close> still succeeds as long as the entry has
  not been cleaned up; from then on both tokens validate and the two leases clash, one of them
  exclusive.\<close>

theorem late_renewal_breaks_exclusion:
  fixes s :: "('k, 'p) MemoryLeaseStore"
  assumes first: "get_entry t s = Some e" and key: "conflicts K (le_key e) key"
    and other: "le_holder e \<noteq> h"
    and grant: "acquire K P r key h Exclusive dur s = (Inr e', s')" and fresh: "le_token e' \<noteq> t"
    and renewal: "renew K P r' t (le_holder e) dur' s' = (res, s'')"
    and T: "T \<le> re_now r' + dur'" "T \<le> ae_now r + dur"
  shows "res = Inr () \<and> validate_token T t (le_holder e) s'' = Inr ()
    \<and> validate_token T (le_token e') h s'' = Inr ()
    \<and> (\<exists>d d'. get_entry t s'' = Some d \<and> get_entry (le_token e') s'' = Some d' \<and> clash K d d')"
proof -
  from grant have none: "existing_conflict K (ae_check r) key h Exclusive s = None"
    and e': "e' = new_entry key h Exclusive (ae_now r) dur (ae_uuid r) (epoch_counter s)"
    using acquire_Inr [of K P r key h Exclusive dur s e'] by auto
  have s': "leases s' = hm_insert (le_token e') e' (leases s)"
    using acquire_granted(2) [OF none, of P dur] grant e' by simp
  have at_t: "hm_get (leases s') t = Some e"
    using first fresh s' by (simp add: get_entry_def)
  let ?d = "e\<lparr>le_expire_at := re_now r' + dur', le_epoch := epoch_counter s'\<rparr>"
  have renewed: "res = Inr ()" "leases s'' = hm_insert t ?d (leases s')"
    using renewal at_t by (auto simp: renew_def Let_def)
  with fresh s' have get: "hm_get (leases s'') t = Some ?d" "hm_get (leases s'') (le_token e') = Some e'"
    by auto
  have "clash K ?d e'" using other key e' by (simp add: clash_def is_exclusive_def)
  then show ?thesis
    using renewed(1) get T e' by (simp add: validate_token_def get_entry_def is_expired_def)
qed

definition one_writer :: "(StripeKey, unit) MemoryLeaseStore" where
  "one_writer = MemoryLeaseStore_new\<lparr>leases := [([1], reader_entry 0 0 [65])],
     group_index := [(7, [[1]])], holder_index := [([65], [[1]])], holder_count := 1, epoch_counter := 1\<rparr>"

lemma one_writer_free:
  "existing_conflict stripe_key (ae_check (env_at 200)) (StripeKey_new 7 0 4) [66] Exclusive one_writer = None"
  by (simp add: existing_conflict_def one_writer_def StripeKey_new_def reader_entry_def is_expired_def env_at_def)

theorem late_renewal_breaks_exclusion_witness:
  "\<exists>s'' :: (StripeKey, unit) MemoryLeaseStore.
     validate_token 220 [1] [65] s'' = Inr () \<and> validate_token 220 (token_text 1 []) [66] s'' = Inr ()
     \<and> (\<exists>d d'. get_entry [1] s'' = Some d \<and> get_entry (token_text 1 []) s'' = Some d' \<and> clash stripe_key d d')"
proof -
  let ?K = "stripe_key" and ?P = no_backend
  let ?a = "acquire ?K ?P (env_at 200) (StripeKey_new 7 0 4) [66] Exclusive 100 one_writer"
  let ?e = "new_entry (StripeKey_new 7 0 4) [66] Exclusive 200 100 [] 1"
  let ?r = "\<lparr>re_now = 210, re_clocks = \<lparr>now_system = 0, now_instant = 0\<rparr>\<rparr>"
  let ?n = "renew ?K ?P ?r [1] (le_holder (reader_entry 0 0 [65])) 100 (snd ?a)"
  have c: "epoch_counter one_writer = 1" by (simp add: one_writer_def)
  have g: "?a = (Inr ?e, snd ?a)"
    using acquire_granted(1) [OF one_writer_free, of ?P 100] by (simp add: prod_eq_iff c env_at_def)
  have tok: "token_text 1 [] \<noteq> [1]" by (simp add: token_text_def ascii_def)
  have first: "get_entry [1] one_writer = Some (reader_entry 0 0 [65])"
    by (simp add: get_entry_def one_writer_def)
  have keys: "conflicts ?K (le_key (reader_entry 0 0 [65])) (StripeKey_new 7 0 4)"
    by (simp add: reader_entry_def StripeKey_new_def stripe_conflicts_def)
  have "fst ?n = Inr () \<and> validate_token 220 [1] (le_holder (reader_entry 0 0 [65])) (snd ?n) = Inr ()
      \<and> validate_token 220 (le_token ?e) [66] (snd ?n) = Inr ()
      \<and> (\<exists>d d'. get_entry [1] (snd ?n) = Some d \<and> get_entry (le_token ?e) (snd ?n) = Some d' \<and> clash ?K d d')"
    by (rule late_renewal_breaks_exclusion [OF first keys _ g _ prod.collapse [symmetric]])
      (use tok in \<open>simp_all add: reader_entry_def env_at_def\<close>)
  then show ?thesis by (intro exI [of _ "snd ?n"]) (simp add: reader_entry_def)
qed

section \<open>Batches\<close>

text \<open>C17: A batch is granted as a whole or not at all. When one of its keys conflicts, with a live
  lease or with another key of the batch, every table of the store and the backend are as before.
  Otherwise each key gets a lease under a token of its own that was not in use, and all other
  leases are untouched.\<close>

theorem acquire_batch_all_or_nothing:
  fixes s :: "('k, 'p) MemoryLeaseStore"
  assumes room: "unat (epoch_counter s) + length items < 2 ^ 64" and iss: "tokens_issued s"
    and batch: "acquire_batch K P now items h m dur s = (res, s')"
  shows "case res of
      Inl err \<Rightarrow> (\<exists>c. err = Conflict c) \<and> leases s' = leases s \<and> group_index s' = group_index s
        \<and> holder_index s' = holder_index s \<and> holder_count s' = holder_count s \<and> persistence s' = persistence s
    | Inr es \<Rightarrow> map le_key es = map bi_key items \<and> distinct (map le_token es)
        \<and> (\<forall>e\<in>set es. get_entry (le_token e) s = None \<and> get_entry (le_token e) s' = Some e
             \<and> le_holder e = h \<and> le_mode e = m \<and> le_expire_at e = now + dur)
        \<and> (\<forall>t. t \<notin> le_token ` set es \<longrightarrow> get_entry t s' = get_entry t s)"
proof (cases rule: acquire_batch_cases [where K = K and P = P and now = now and items = items
      and h = h and m = m and dur = dur and s = s])
  case idle
  with batch show ?thesis by simp
next
  case (refused x)
  then have s': "s' = snd (check_batch K h m now (now + dur) items [] s)" and "res = Inl x"
    using batch by auto
  moreover from refused have "\<exists>c. x = Conflict c"
    by (blast dest: check_batch_error)
  ultimately show ?thesis by (simp add: check_batch_frame)
next
  case (granted es)
  from check_batch_pending [OF granted(1)] have pend: "map le_key es = map bi_key items"
    "\<forall>e\<in>set es. le_holder e = h \<and> le_mode e = m \<and> le_expire_at e = now + dur" by auto
  from check_batch_tokens [OF granted(1) room] have toks:
    "\<forall>e\<in>set es. \<exists>c u. le_token e = token_text c u \<and> epoch_counter s \<le> c"
    unfolding append_Nil by blast
  have fresh: "get_entry (le_token e) s = None" if "e \<in> set es" for e
  proof (rule ccontr)
    assume "get_entry (le_token e) s \<noteq> None"
    then have "issued (epoch_counter s) (le_token e)"
      using iss by (auto simp: tokens_issued_def get_entry_def)
    with toks that issued_fresh show False by metis
  qed
  have dist: "distinct (map le_token es)"
    using check_batch_distinct [OF granted(1) room] by simp
  have "res = Inr es" and ls: "leases s' = fold (\<lambda>e. hm_insert (le_token e) e) es (leases s)"
    using granted(2,3) batch by auto
  with pend fresh dist show ?thesis
    by (simp add: get_entry_def fold_insert_get fold_insert_other)
qed

definition batch_item :: "u64 \<Rightarrow> StripeKey BatchItem" where
  "batch_item start = \<lparr>bi_key = StripeKey_new 7 start 4, bi_check = (\<lambda>_. 0), bi_uuid = [],
     bi_clocks = \<lparr>now_system = 0, now_instant = 0\<rparr>\<rparr>"

lemma batch_granted:
  "\<exists>es. fst (acquire_batch stripe_key no_backend 0 [batch_item 0, batch_item 4] [65] Exclusive 100
     MemoryLeaseStore_new) = Inr es"
  by (simp add: acquire_batch_def batch_item_def StripeKey_new_def Let_def existing_conflict_def
      generate_token_def MemoryLeaseStore_new_def stripe_conflicts_def split_beta)

theorem acquire_batch_all_or_nothing_witness:
  "\<exists>es s'. acquire_batch stripe_key no_backend 0 [batch_item 0, batch_item 4] [65] Exclusive 100
       MemoryLeaseStore_new = (Inr es, s')
     \<and> map le_key es = [StripeKey_new 7 0 4, StripeKey_new 7 4 4] \<and> distinct (map le_token es)
     \<and> get_entry (le_token (hd es)) s' = Some (hd es)"
proof -
  let ?a = "acquire_batch stripe_key no_backend 0 [batch_item 0, batch_item 4] [65] Exclusive 100
    MemoryLeaseStore_new"
  obtain es where es: "fst ?a = Inr es" using batch_granted by blast
  have room: "unat (epoch_counter (MemoryLeaseStore_new :: (StripeKey, unit) MemoryLeaseStore))
      + length [batch_item 0, batch_item 4] < 2 ^ 64"
    and iss: "tokens_issued (MemoryLeaseStore_new :: (StripeKey, unit) MemoryLeaseStore)"
    by (simp_all add: MemoryLeaseStore_new_def tokens_issued_def)
  have keys: "map le_key es = [StripeKey_new 7 0 4, StripeKey_new 7 4 4]"
    and dist: "distinct (map le_token es)"
    and got: "\<forall>e\<in>set es. get_entry (le_token e) (snd ?a) = Some e"
    using acquire_batch_all_or_nothing [OF room iss prod.collapse [symmetric, of ?a]] es
    by (auto simp: batch_item_def)
  from keys have "hd es \<in> set es" by (cases es) auto
  with got keys dist es show ?thesis by (intro exI [of _ es] exI [of _ "snd ?a"]) (simp add: prod_eq_iff)
qed

end
