(* ===== verification/Orset.thy ===== *)
theory Orset
  imports PFS_Prelude "HOL-Library.List_Lexorder"
begin

text \<open>
  The observed-remove set of directory entries (\<^verbatim>\<open>powerfs-orset/src/lib.rs\<close>): vector clocks, the
  entries and their constructors, and every operation of \<^verbatim>\<open>DirORSet\<close>: local changes, deltas of other
  clients with the detection of conflicts, state merging, conflict resolution and statistics. The
  wall clock and the UUIDs are arguments. Hash maps and sets are lists whose order stands for the
  iteration order.
\<close>

section \<open>Entries\<close>

datatype FileType = RegularFile | Directory | Symlink | Fifo | CharDevice | BlockDevice | Socket

definition ft_is_dir :: "FileType \<Rightarrow> bool" where
  "ft_is_dir t \<longleftrightarrow> t = Directory"

definition ft_is_regular :: "FileType \<Rightarrow> bool" where
  "ft_is_regular t \<longleftrightarrow> t = RegularFile"

text \<open>The values are the constants of the C library.\<close>

definition to_d_type :: "FileType \<Rightarrow> u32" where
  "to_d_type t =
     (case t of RegularFile \<Rightarrow> 8 | Directory \<Rightarrow> 4 | Symlink \<Rightarrow> 10 | Fifo \<Rightarrow> 1 | CharDevice \<Rightarrow> 2
      | BlockDevice \<Rightarrow> 6 | Socket \<Rightarrow> 12)"

definition S_IFMT :: u32 where "S_IFMT = 0xF000"

definition from_mode :: "u32 \<Rightarrow> FileType" where
  "from_mode mode =
     (let m = mode AND S_IFMT in
      if m = 0x4000 then Directory
      else if m = 0xA000 then Symlink
      else if m = 0x1000 then Fifo
      else if m = 0x2000 then CharDevice
      else if m = 0x6000 then BlockDevice
      else if m = 0xC000 then Socket
      else RegularFile)"

record EntryId =
  ei_name :: str
  ei_client_id :: u64
  ei_seq :: u64

definition EntryId_new :: "str \<Rightarrow> u64 \<Rightarrow> u64 \<Rightarrow> EntryId" where
  "EntryId_new name client_id seq = \<lparr>ei_name = name, ei_client_id = client_id, ei_seq = seq\<rparr>"

record CachedFileChunk =
  ch_offset :: u64
  ch_size :: u64
  ch_needle_id :: u64
  ch_volume_id :: u64
  ch_crc32 :: u32
  ch_mtime :: u64

record DirEntry =
  de_id :: EntryId
  de_inode :: u64
  de_generation :: u64
  de_file_type :: FileType
  de_mode :: u32
  de_uid :: u32
  de_gid :: u32
  de_size :: u64
  de_mtime :: u64
  de_atime :: u64
  de_ctime :: u64
  de_nlink :: u32
  de_rdev :: u64
  de_parent_ino :: u64
  de_chunks :: "CachedFileChunk list"
  de_symlink_target :: "str option"
  de_extended :: "(str, bytes) hmap"

text \<open>The constructors differ in the file type, the link count, the device and the target.\<close>

definition entry_of_type ::
  "u64 \<Rightarrow> EntryId \<Rightarrow> u64 \<Rightarrow> u64 \<Rightarrow> FileType \<Rightarrow> u32 \<Rightarrow> u32 \<Rightarrow> u32 \<Rightarrow> u32 \<Rightarrow> u64 \<Rightarrow> str option \<Rightarrow> DirEntry"
where
  "entry_of_type now id0 inode parent_ino ft mode uid gid nlink rdev target =
     \<lparr>de_id = id0, de_inode = inode, de_generation = 0, de_file_type = ft, de_mode = mode,
      de_uid = uid, de_gid = gid, de_size = 0, de_mtime = now, de_atime = now, de_ctime = now,
      de_nlink = nlink, de_rdev = rdev, de_parent_ino = parent_ino, de_chunks = [],
      de_symlink_target = target, de_extended = []\<rparr>"

definition new_file :: "u64 \<Rightarrow> EntryId \<Rightarrow> u64 \<Rightarrow> u64 \<Rightarrow> u32 \<Rightarrow> u32 \<Rightarrow> u32 \<Rightarrow> DirEntry" where
  "new_file now id0 inode parent_ino mode uid gid =
     entry_of_type now id0 inode parent_ino RegularFile mode uid gid 1 0 None"

definition new_dir :: "u64 \<Rightarrow> EntryId \<Rightarrow> u64 \<Rightarrow> u64 \<Rightarrow> u32 \<Rightarrow> u32 \<Rightarrow> u32 \<Rightarrow> DirEntry" where
  "new_dir now id0 inode parent_ino mode uid gid =
     entry_of_type now id0 inode parent_ino Directory mode uid gid 2 0 None"

definition new_symlink :: "u64 \<Rightarrow> EntryId \<Rightarrow> u64 \<Rightarrow> u64 \<Rightarrow> u32 \<Rightarrow> str \<Rightarrow> DirEntry" where
  "new_symlink now id0 inode parent_ino mode target =
     entry_of_type now id0 inode parent_ino Symlink mode 0 0 1 0 (Some target)"

definition new_fifo :: "u64 \<Rightarrow> EntryId \<Rightarrow> u64 \<Rightarrow> u64 \<Rightarrow> u32 \<Rightarrow> u32 \<Rightarrow> u32 \<Rightarrow> DirEntry" where
  "new_fifo now id0 inode parent_ino mode uid gid =
     entry_of_type now id0 inode parent_ino Fifo mode uid gid 1 0 None"

definition new_chrdev :: "u64 \<Rightarrow> EntryId \<Rightarrow> u64 \<Rightarrow> u64 \<Rightarrow> u32 \<Rightarrow> u64 \<Rightarrow> u32 \<Rightarrow> u32 \<Rightarrow> DirEntry" where
  "new_chrdev now id0 inode parent_ino mode rdev uid gid =
     entry_of_type now id0 inode parent_ino CharDevice mode uid gid 1 rdev None"

definition new_blkdev :: "u64 \<Rightarrow> EntryId \<Rightarrow> u64 \<Rightarrow> u64 \<Rightarrow> u32 \<Rightarrow> u64 \<Rightarrow> u32 \<Rightarrow> u32 \<Rightarrow> DirEntry" where
  "new_blkdev now id0 inode parent_ino mode rdev uid gid =
     entry_of_type now id0 inode parent_ino BlockDevice mode uid gid 1 rdev None"

definition new_socket :: "u64 \<Rightarrow> EntryId \<Rightarrow> u64 \<Rightarrow> u64 \<Rightarrow> u32 \<Rightarrow> u32 \<Rightarrow> u32 \<Rightarrow> DirEntry" where
  "new_socket now id0 inode parent_ino mode uid gid =
     entry_of_type now id0 inode parent_ino Socket mode uid gid 1 0 None"

section \<open>Vector clocks\<close>

datatype CausalOrder = Before | After | Equal | Concurrent

type_synonym VectorClock = "(u64, u64) hmap"

definition vc_get :: "VectorClock \<Rightarrow> u64 \<Rightarrow> u64" where
  "vc_get c client_id = (case hm_get c client_id of None \<Rightarrow> 0 | Some n \<Rightarrow> n)"

definition increment :: "VectorClock \<Rightarrow> u64 \<Rightarrow> VectorClock" where
  "increment c client_id = hm_insert client_id (vc_get c client_id + 1) c"

definition observe :: "VectorClock \<Rightarrow> u64 \<Rightarrow> u64 \<Rightarrow> VectorClock" where
  "observe c client_id seq =
     (let counter = vc_get c client_id
      in hm_insert client_id (if counter < seq then seq else counter) c)"

definition all_keys :: "VectorClock \<Rightarrow> VectorClock \<Rightarrow> u64 list" where
  "all_keys a b = remdups (map fst a @ map fst b)"

text \<open>The loop over the keys clears one of the two flags.\<close>

definition compare_step :: "VectorClock \<Rightarrow> VectorClock \<Rightarrow> u64 \<Rightarrow> bool \<times> bool \<Rightarrow> bool \<times> bool" where
  "compare_step a b key flags =
     (let s = vc_get a key; o' = vc_get b key
      in (if o' < s then False else fst flags, if s < o' then False else snd flags))"

definition vc_compare :: "VectorClock \<Rightarrow> VectorClock \<Rightarrow> CausalOrder" where
  "vc_compare a b =
     (case fold (compare_step a b) (all_keys a b) (True, True) of
        (True, True) \<Rightarrow> Equal
      | (True, False) \<Rightarrow> Before
      | (False, True) \<Rightarrow> After
      | (False, False) \<Rightarrow> Concurrent)"

definition is_concurrent :: "VectorClock \<Rightarrow> VectorClock \<Rightarrow> bool" where
  "is_concurrent a b \<longleftrightarrow> vc_compare a b = Concurrent"

text \<open>The loop of \<^verbatim>\<open>dominates\<close> stops at the first smaller counter.\<close>

fun dominates_loop :: "VectorClock \<Rightarrow> VectorClock \<Rightarrow> u64 list \<Rightarrow> bool \<Rightarrow> bool" where
  "dominates_loop a b [] has_strict = has_strict"
| "dominates_loop a b (key # keys) has_strict =
     (let s = vc_get a key; o' = vc_get b key in
      if s < o' then False
      else dominates_loop a b keys (if o' < s then True else has_strict))"

definition dominates :: "VectorClock \<Rightarrow> VectorClock \<Rightarrow> bool" where
  "dominates a b = dominates_loop a b (all_keys a b) False"

definition vc_merge :: "VectorClock \<Rightarrow> VectorClock \<Rightarrow> VectorClock" where
  "vc_merge a b = fold (\<lambda>(client_id, seq) c. observe c client_id seq) b a"

definition vc_is_empty :: "VectorClock \<Rightarrow> bool" where
  "vc_is_empty c \<longleftrightarrow> c = []"

definition known_clients :: "VectorClock \<Rightarrow> u64 list" where
  "known_clients c = map fst c"

definition vc_eq :: "VectorClock \<Rightarrow> VectorClock \<Rightarrow> bool" where
  "vc_eq a b \<longleftrightarrow> vc_compare a b = Equal"

section \<open>Deltas, conflicts and the set\<close>

record AttrChange =
  ac_inode :: u64
  ac_mode :: "u32 option"
  ac_uid :: "u32 option"
  ac_gid :: "u32 option"
  ac_size :: "u64 option"
  ac_mtime :: "u64 option"
  ac_nlink :: "u32 option"

datatype DeltaOp =
    DAdd DirEntry VectorClock
  | DRemove EntryId VectorClock
  | DRename EntryId DirEntry VectorClock
  | DSetAttr AttrChange VectorClock

definition delta_vclock :: "DeltaOp \<Rightarrow> VectorClock" where
  "delta_vclock d =
     (case d of DAdd _ c \<Rightarrow> c | DRemove _ c \<Rightarrow> c | DRename _ _ c \<Rightarrow> c | DSetAttr _ c \<Rightarrow> c)"

definition delta_dir_ino :: "DeltaOp \<Rightarrow> u64 option" where
  "delta_dir_ino d =
     (case d of DAdd e _ \<Rightarrow> Some (de_parent_ino e) | DRemove _ _ \<Rightarrow> None
      | DRename _ e _ \<Rightarrow> Some (de_parent_ino e) | DSetAttr _ _ \<Rightarrow> None)"

definition delta_name :: "DeltaOp \<Rightarrow> str option" where
  "delta_name d =
     (case d of DAdd e _ \<Rightarrow> Some (ei_name (de_id e)) | DRemove i _ \<Rightarrow> Some (ei_name i)
      | DRename _ e _ \<Rightarrow> Some (ei_name (de_id e)) | DSetAttr _ _ \<Rightarrow> None)"

datatype ConflictType =
  CreateCreate | WriteWrite | WriteUnlink | DeleteCreate | RenameConflict | RenameDelete | CreateDelete

datatype ConflictResolution = KeepFirst | KeepLast | RKeepAll | RMerge

datatype MergePolicy =
  LwwTime | ContentHash | WeightBased | KeepAll | WritePriority | DeletePriority | Aggressive
  | Conservative | Manual

record ConflictRecord =
  cr_id :: str
  cr_conflict_type :: ConflictType
  cr_base :: "DirEntry option"
  cr_branches :: "DirEntry list"
  cr_create_time :: u64
  cr_resolved :: bool
  cr_resolved_time :: "u64 option"
  cr_resolution :: "ConflictResolution option"

record DirORSet =
  dir_ino :: u64
  entries :: "(EntryId, DirEntry) hmap"
  tombstones :: "EntryId list"
  vclock :: VectorClock
  conflicts :: "ConflictRecord list"
  policy :: MergePolicy
  delta_log :: "DeltaOp list"

definition DirORSet_new :: "u64 \<Rightarrow> DirORSet" where
  "DirORSet_new ino = \<lparr>dir_ino = ino, entries = [], tombstones = [], vclock = [], conflicts = [],
     policy = LwwTime, delta_log = []\<rparr>"

subsection \<open>Queries\<close>

definition get_by_name :: "DirORSet \<Rightarrow> str \<Rightarrow> DirEntry list" where
  "get_by_name s name = filter (\<lambda>e. ei_name (de_id e) = name) (hm_values (entries s))"

definition get_by_inode :: "DirORSet \<Rightarrow> u64 \<Rightarrow> DirEntry option" where
  "get_by_inode s inode = find (\<lambda>e. de_inode e = inode) (hm_values (entries s))"

definition get_all_by_inode :: "DirORSet \<Rightarrow> u64 \<Rightarrow> DirEntry list" where
  "get_all_by_inode s inode = filter (\<lambda>e. de_inode e = inode) (hm_values (entries s))"

definition list_all_entries :: "DirORSet \<Rightarrow> DirEntry list" where
  "list_all_entries s = hm_values (entries s)"

definition list_names :: "DirORSet \<Rightarrow> str list" where
  "list_names s = remdups_adj (sort (map (\<lambda>e. ei_name (de_id e)) (hm_values (entries s))))"

definition orset_len :: "DirORSet \<Rightarrow> nat" where
  "orset_len s = length (entries s)"

definition orset_is_empty :: "DirORSet \<Rightarrow> bool" where
  "orset_is_empty s \<longleftrightarrow> entries s = []"

subsection \<open>Local changes\<close>

definition orset_add :: "DirEntry \<Rightarrow> DirORSet \<Rightarrow> DirORSet" where
  "orset_add entry s =
     (if de_id entry \<in> set (tombstones s) then s
      else
        (let vc = increment (vclock s) (ei_client_id (de_id entry))
         in s\<lparr>vclock := vc, entries := hm_insert (de_id entry) entry (entries s),
              delta_log := delta_log s @ [DAdd entry vc]\<rparr>))"

definition orset_remove :: "EntryId \<Rightarrow> DirORSet \<Rightarrow> DirORSet" where
  "orset_remove i s =
     (let vc = increment (vclock s) (ei_client_id i)
      in s\<lparr>vclock := vc, entries := hm_remove i (entries s),
           tombstones := List.insert i (tombstones s), delta_log := delta_log s @ [DRemove i vc]\<rparr>)"

definition rename_entry ::
  "u64 \<Rightarrow> EntryId \<Rightarrow> str \<Rightarrow> u64 \<Rightarrow> DirORSet \<Rightarrow> EntryId option \<times> DirORSet" where
  "rename_entry now old_id new_name client_id s =
     (case hm_get (entries s) old_id of None \<Rightarrow> (None, s)
      | Some old_entry \<Rightarrow>
          (let vc = increment (vclock s) client_id;
               new_id = \<lparr>ei_name = new_name, ei_client_id = client_id, ei_seq = vc_get vc client_id\<rparr>;
               new_entry = old_entry\<lparr>de_id := new_id, de_mtime := now\<rparr>
           in (Some new_id,
               s\<lparr>vclock := vc, tombstones := List.insert old_id (tombstones s),
                 entries := hm_insert new_id new_entry (hm_remove old_id (entries s)),
                 delta_log := delta_log s @ [DRename old_id new_entry vc]\<rparr>)))"

definition or_keep :: "'a option \<Rightarrow> 'a \<Rightarrow> 'a" where
  "or_keep x old = (case x of None \<Rightarrow> old | Some v \<Rightarrow> v)"

definition set_attrs :: "AttrChange \<Rightarrow> DirEntry \<Rightarrow> DirEntry" where
  "set_attrs a e =
     e\<lparr>de_mode := or_keep (ac_mode a) (de_mode e), de_uid := or_keep (ac_uid a) (de_uid e),
       de_gid := or_keep (ac_gid a) (de_gid e), de_size := or_keep (ac_size a) (de_size e),
       de_mtime := or_keep (ac_mtime a) (de_mtime e), de_nlink := or_keep (ac_nlink a) (de_nlink e)\<rparr>"

text \<open>Writing through \<^verbatim>\<open>get_by_inode_mut\<close>: the first entry of the inode changes in place.\<close>

fun update_first :: "(DirEntry \<Rightarrow> bool) \<Rightarrow> (DirEntry \<Rightarrow> DirEntry) \<Rightarrow> (EntryId, DirEntry) hmap \<Rightarrow> (EntryId, DirEntry) hmap"
where
  "update_first P f [] = []"
| "update_first P f ((i, e) # m) = (if P e then (i, f e) # m else (i, e) # update_first P f m)"

definition update_by_inode :: "u64 \<Rightarrow> (DirEntry \<Rightarrow> DirEntry) \<Rightarrow> DirORSet \<Rightarrow> DirORSet" where
  "update_by_inode inode f s =
     s\<lparr>entries := update_first (\<lambda>e. de_inode e = inode) f (entries s)\<rparr>"

definition update_attr :: "AttrChange \<Rightarrow> u64 \<Rightarrow> DirORSet \<Rightarrow> DirORSet" where
  "update_attr a client_id s =
     (let vc = increment (vclock s) client_id;
          s1 = update_by_inode (ac_inode a) (set_attrs a) (s\<lparr>vclock := vc\<rparr>)
      in s1\<lparr>delta_log := delta_log s1 @ [DSetAttr a vc]\<rparr>)"

subsection \<open>Conflicts\<close>

text \<open>What recording a conflict reads: the UUID and the wall clock of the \<open>k\<close>-th record.\<close>

record ConflictEnv =
  ce_id :: "nat \<Rightarrow> str"
  ce_now :: "nat \<Rightarrow> u64"

definition chunks_content_equal :: "CachedFileChunk list \<Rightarrow> CachedFileChunk list \<Rightarrow> bool" where
  "chunks_content_equal a b =
     (if length a \<noteq> length b then False
      else list_all (\<lambda>(ca, cb). \<not> (ch_crc32 ca \<noteq> ch_crc32 cb \<or> ch_offset ca \<noteq> ch_offset cb
             \<or> ch_size ca \<noteq> ch_size cb)) (zip a b))"

definition can_auto_merge_by_content_hash :: "DirEntry list \<Rightarrow> bool" where
  "can_auto_merge_by_content_hash branches =
     (if length branches < 2 then False
      else list_all (\<lambda>b. de_file_type (hd branches) = de_file_type b
             \<and> chunks_content_equal (de_chunks (hd branches)) (de_chunks b)) (tl branches))"

definition has_existing_conflict :: "ConflictType \<Rightarrow> DirEntry list \<Rightarrow> DirORSet \<Rightarrow> bool" where
  "has_existing_conflict ct branches s =
     list_ex (\<lambda>c. \<not> (cr_resolved c \<or> cr_conflict_type c \<noteq> ct)
       \<and> length branches = length (cr_branches c)
       \<and> list_all (\<lambda>i. i \<in> set (map de_id (cr_branches c))) (map de_id branches)) (conflicts s)"

definition record_conflict ::
  "ConflictEnv \<Rightarrow> ConflictType \<Rightarrow> DirEntry option \<Rightarrow> DirEntry list \<Rightarrow> DirORSet \<Rightarrow> DirORSet"
where
  "record_conflict env ct base branches s =
     (if length branches < 2 \<and> ct \<noteq> WriteUnlink \<and> ct \<noteq> WriteWrite \<and> ct \<noteq> DeleteCreate then s
      else if policy s \<in> {Conservative, Aggressive} \<and> can_auto_merge_by_content_hash branches
      then s\<lparr>tombstones := fold (\<lambda>b. List.insert (de_id b))
               (tl (sort_key (\<lambda>b. - int (unat (de_mtime b))) branches)) (tombstones s)\<rparr>
      else if has_existing_conflict ct branches s then s
      else
        (let k = length (conflicts s)
         in s\<lparr>conflicts := conflicts s @
               [\<lparr>cr_id = ce_id env k, cr_conflict_type = ct, cr_base = base, cr_branches = branches,
                 cr_create_time = ce_now env k, cr_resolved = False, cr_resolved_time = None,
                 cr_resolution = None\<rparr>]\<rparr>))"

text \<open>The name clashes of a new entry, collected before any of them is recorded.\<close>

definition record_name_clashes :: "ConflictEnv \<Rightarrow> ConflictType \<Rightarrow> DirEntry \<Rightarrow> DirORSet \<Rightarrow> DirORSet" where
  "record_name_clashes env ct entry s =
     fold (\<lambda>e. record_conflict env ct None [e, entry])
       (filter (\<lambda>e. ei_client_id (de_id e) \<noteq> ei_client_id (de_id entry))
          (get_by_name s (ei_name (de_id entry)))) s"

definition detect_create_conflict :: "ConflictEnv \<Rightarrow> DirEntry \<Rightarrow> VectorClock \<Rightarrow> DirORSet \<Rightarrow> DirORSet" where
  "detect_create_conflict env entry vc s =
     (let s1 = (if is_concurrent (vclock s) vc then record_name_clashes env CreateCreate entry s else s)
      in if \<exists>t\<in>set (tombstones s1). ei_name t = ei_name (de_id entry)
         then record_conflict env DeleteCreate None (get_by_name s1 (ei_name (de_id entry)) @ [entry]) s1
         else s1)"

definition detect_remove_conflict :: "ConflictEnv \<Rightarrow> EntryId \<Rightarrow> VectorClock \<Rightarrow> DirORSet \<Rightarrow> DirORSet" where
  "detect_remove_conflict env i vc s =
     (let s1 = (if is_concurrent (vclock s) vc
                then (case hm_get (entries s) i of
                        Some entry \<Rightarrow> record_conflict env WriteUnlink None [entry] s
                      | None \<Rightarrow> if i \<in> set (tombstones s)
                                then record_conflict env WriteUnlink None [] s else s)
                else s)
      in case hm_get (entries s1) i of None \<Rightarrow> s1
         | Some entry \<Rightarrow>
             if \<exists>t\<in>set (tombstones s1). ei_name t = ei_name i
             then record_conflict env CreateDelete None [entry] s1 else s1)"

definition detect_rename_conflict ::
  "ConflictEnv \<Rightarrow> EntryId \<Rightarrow> DirEntry \<Rightarrow> VectorClock \<Rightarrow> DirORSet \<Rightarrow> DirORSet" where
  "detect_rename_conflict env old_id new_entry vc s =
     (if is_concurrent (vclock s) vc
      then
        (let s1 = record_name_clashes env RenameConflict new_entry s;
             s2 = (case hm_get (entries s1) old_id of None \<Rightarrow> s1
                   | Some existing \<Rightarrow>
                       if ei_client_id (de_id existing) \<noteq> ei_client_id (de_id new_entry)
                       then record_conflict env RenameConflict None [existing, new_entry] s1 else s1)
         in if old_id \<in> set (tombstones s2)
            then record_conflict env RenameDelete None [new_entry] s2 else s2)
      else s)"

definition detect_write_write_conflict :: "ConflictEnv \<Rightarrow> u64 \<Rightarrow> VectorClock \<Rightarrow> DirORSet \<Rightarrow> DirORSet" where
  "detect_write_write_conflict env inode vc s =
     (if is_concurrent (vclock s) vc
      then
        (let es = get_all_by_inode s inode in
         if es \<noteq> [] then record_conflict env WriteWrite None es s
         else if \<exists>i\<in>set (map fst (entries s)). i \<in> set (tombstones s)
         then record_conflict env WriteUnlink None [] s else s)
      else s)"

subsection \<open>Deltas of other clients\<close>

definition apply_delta :: "ConflictEnv \<Rightarrow> DeltaOp \<Rightarrow> DirORSet \<Rightarrow> DirORSet" where
  "apply_delta env d s =
     (case d of
        DAdd entry vc \<Rightarrow>
          (let s1 = detect_create_conflict env entry vc s in
           if de_id entry \<in> set (tombstones s1) then s1
           else s1\<lparr>entries := hm_insert (de_id entry) entry (entries s1),
                   vclock := vc_merge (vclock s1) vc\<rparr>)
      | DRemove i vc \<Rightarrow>
          (let s1 = detect_remove_conflict env i vc s
           in s1\<lparr>entries := hm_remove i (entries s1), tombstones := List.insert i (tombstones s1),
                 vclock := vc_merge (vclock s1) vc\<rparr>)
      | DRename old_id new_entry vc \<Rightarrow>
          (let s1 = detect_rename_conflict env old_id new_entry vc s;
               s2 = s1\<lparr>entries := hm_remove old_id (entries s1),
                       tombstones := List.insert old_id (tombstones s1)\<rparr>;
               s3 = (if de_id new_entry \<notin> set (tombstones s2)
                     then s2\<lparr>entries := hm_insert (de_id new_entry) new_entry (entries s2)\<rparr> else s2)
           in s3\<lparr>vclock := vc_merge (vclock s3) vc\<rparr>)
      | DSetAttr a vc \<Rightarrow>
          (let s1 = detect_write_write_conflict env (ac_inode a) vc s;
               s2 = update_by_inode (ac_inode a) (set_attrs a) s1
           in s2\<lparr>vclock := vc_merge (vclock s2) vc\<rparr>))"

subsection \<open>State merging and the delta log\<close>

definition orset_merge :: "DirORSet \<Rightarrow> DirORSet \<Rightarrow> DirORSet" where
  "orset_merge s other =
     (let es1 = fold (\<lambda>(i, e) m. if i \<notin> set (tombstones s) then hm_insert i e m else m)
                  (entries other) (entries s);
          es2 = fold hm_remove (tombstones other) es1;
          ts = fold List.insert (tombstones other) (tombstones s)
      in s\<lparr>entries := es2, tombstones := ts, vclock := vc_merge (vclock s) (vclock other)\<rparr>)"

definition gc_tombstones :: "u64 \<Rightarrow> DirORSet \<Rightarrow> DirORSet" where
  "gc_tombstones max_age_secs s = s"

definition get_deltas_since :: "VectorClock \<Rightarrow> DirORSet \<Rightarrow> DeltaOp list" where
  "get_deltas_since since s = filter (\<lambda>d. \<not> dominates since (delta_vclock d)) (delta_log s)"

definition clear_delta_log :: "DirORSet \<Rightarrow> DirORSet" where
  "clear_delta_log s = s\<lparr>delta_log := []\<rparr>"

subsection \<open>Resolving and counting conflicts\<close>

definition unresolved_conflicts :: "DirORSet \<Rightarrow> ConflictRecord list" where
  "unresolved_conflicts s = filter (\<lambda>c. \<not> cr_resolved c) (conflicts s)"

definition conflict_count :: "DirORSet \<Rightarrow> nat" where
  "conflict_count s = length (filter (\<lambda>c. \<not> cr_resolved c) (conflicts s))"

definition has_unresolved_conflicts :: "DirORSet \<Rightarrow> bool" where
  "has_unresolved_conflicts s = list_ex (\<lambda>c. \<not> cr_resolved c) (conflicts s)"

definition mark_resolved :: "u64 \<Rightarrow> ConflictResolution \<Rightarrow> ConflictRecord \<Rightarrow> ConflictRecord" where
  "mark_resolved now res c =
     c\<lparr>cr_resolved := True, cr_resolved_time := Some now, cr_resolution := Some res\<rparr>"

fun resolve_first ::
  "(ConflictRecord \<Rightarrow> bool) \<Rightarrow> (ConflictRecord \<Rightarrow> ConflictRecord) \<Rightarrow> ConflictRecord list \<Rightarrow> ConflictRecord list"
where
  "resolve_first P f [] = []"
| "resolve_first P f (c # cs) = (if P c then f c # cs else c # resolve_first P f cs)"

definition resolve_conflict :: "u64 \<Rightarrow> str \<Rightarrow> ConflictResolution \<Rightarrow> DirORSet \<Rightarrow> DirORSet" where
  "resolve_conflict now conflict_id res s =
     s\<lparr>conflicts := resolve_first (\<lambda>c. cr_id c = conflict_id) (mark_resolved now res) (conflicts s)\<rparr>"

definition set_policy :: "MergePolicy \<Rightarrow> DirORSet \<Rightarrow> DirORSet" where
  "set_policy p s = s\<lparr>policy := p\<rparr>"

text \<open>\<open>now k\<close> is the clock when the \<open>k\<close>-th record of the list is marked.\<close>

definition resolve_where ::
  "(nat \<Rightarrow> u64) \<Rightarrow> (ConflictRecord \<Rightarrow> bool) \<Rightarrow> DirORSet \<Rightarrow> nat \<times> DirORSet" where
  "resolve_where now P s =
     (length (filter P (conflicts s)),
      s\<lparr>conflicts := map (\<lambda>(k, c). if P c then mark_resolved (now k) KeepLast c else c)
          (enumerate 0 (conflicts s))\<rparr>)"

definition auto_resolve_all :: "(nat \<Rightarrow> u64) \<Rightarrow> DirORSet \<Rightarrow> nat \<times> DirORSet" where
  "auto_resolve_all now s = resolve_where now (\<lambda>c. \<not> cr_resolved c) s"

text \<open>The walk up the parents; \<^const>\<open>None\<close> stands for a walk that does not end.\<close>

partial_function (option) is_in_dir_snapshot :: "u64 \<Rightarrow> u64 \<Rightarrow> bool \<Rightarrow> DirEntry list \<Rightarrow> bool option" where
  "is_in_dir_snapshot inode dir recursive es =
     (if inode = dir then Some True
      else if \<not> recursive then Some False
      else case find (\<lambda>e. de_inode e = inode) es of
             None \<Rightarrow> Some False
           | Some e \<Rightarrow>
               if de_parent_ino e = dir then Some True
               else is_in_dir_snapshot (de_parent_ino e) dir True es)"

text \<open>The method walks over the map's values.\<close>

definition is_in_dir :: "DirORSet \<Rightarrow> u64 \<Rightarrow> u64 \<Rightarrow> bool \<Rightarrow> bool option" where
  "is_in_dir s inode dir recursive = is_in_dir_snapshot inode dir recursive (hm_values (entries s))"

definition conflict_inode :: "ConflictRecord \<Rightarrow> u64" where
  "conflict_inode c = (case cr_branches c of [] \<Rightarrow> 0 | b # _ \<Rightarrow> de_inode b)"

record ConflictStats =
  cs_total_count :: u64
  cs_create_create_count :: u64
  cs_write_write_count :: u64
  cs_write_unlink_count :: u64
  cs_delete_create_count :: u64
  cs_rename_conflict_count :: u64
  cs_rename_delete_count :: u64
  cs_create_delete_count :: u64

definition ConflictStats_zero :: ConflictStats where
  "ConflictStats_zero =
     \<lparr>cs_total_count = 0, cs_create_create_count = 0, cs_write_write_count = 0, cs_write_unlink_count = 0,
      cs_delete_create_count = 0, cs_rename_conflict_count = 0, cs_rename_delete_count = 0,
      cs_create_delete_count = 0\<rparr>"

definition count_conflict_type :: "ConflictType \<Rightarrow> ConflictStats \<Rightarrow> ConflictStats" where
  "count_conflict_type ct st0 =
     (let st = st0\<lparr>cs_total_count := cs_total_count st0 + 1\<rparr> in
      case ct of
        CreateCreate \<Rightarrow> st\<lparr>cs_create_create_count := cs_create_create_count st + 1\<rparr>
      | WriteWrite \<Rightarrow> st\<lparr>cs_write_write_count := cs_write_write_count st + 1\<rparr>
      | WriteUnlink \<Rightarrow> st\<lparr>cs_write_unlink_count := cs_write_unlink_count st + 1\<rparr>
      | DeleteCreate \<Rightarrow> st\<lparr>cs_delete_create_count := cs_delete_create_count st + 1\<rparr>
      | RenameConflict \<Rightarrow> st\<lparr>cs_rename_conflict_count := cs_rename_conflict_count st + 1\<rparr>
      | RenameDelete \<Rightarrow> st\<lparr>cs_rename_delete_count := cs_rename_delete_count st + 1\<rparr>
      | CreateDelete \<Rightarrow> st\<lparr>cs_create_delete_count := cs_create_delete_count st + 1\<rparr>)"

fun stats_loop ::
  "DirORSet \<Rightarrow> u64 \<Rightarrow> bool \<Rightarrow> ConflictRecord list \<Rightarrow> ConflictStats \<Rightarrow> ConflictStats option" where
  "stats_loop s dir recursive [] st = Some st"
| "stats_loop s dir recursive (c # cs) st =
     (case is_in_dir s (conflict_inode c) dir recursive of
        None \<Rightarrow> None
      | Some False \<Rightarrow> stats_loop s dir recursive cs st
      | Some True \<Rightarrow> stats_loop s dir recursive cs (count_conflict_type (cr_conflict_type c) st))"

definition get_conflict_stats_by_dir :: "DirORSet \<Rightarrow> u64 \<Rightarrow> bool \<Rightarrow> ConflictStats option" where
  "get_conflict_stats_by_dir s dir recursive = stats_loop s dir recursive (conflicts s) ConflictStats_zero"

text \<open>The full statistics count every type twice: all records, and those that are resolved.\<close>

record ConflictStatsFull =
  cf_resolved_count :: u64
  cf_unresolved_count :: u64
  cf_all :: ConflictStats
  cf_resolved :: ConflictStats

definition count_full :: "ConflictRecord \<Rightarrow> ConflictStatsFull \<Rightarrow> ConflictStatsFull" where
  "count_full c st =
     (let st1 = (if cr_resolved c then st\<lparr>cf_resolved_count := cf_resolved_count st + 1\<rparr>
                 else st\<lparr>cf_unresolved_count := cf_unresolved_count st + 1\<rparr>)
      in st1\<lparr>cf_all := count_conflict_type (cr_conflict_type c) (cf_all st1),
             cf_resolved := (if cr_resolved c then count_conflict_type (cr_conflict_type c) (cf_resolved st1)
                             else cf_resolved st1)\<rparr>)"

fun stats_full_loop ::
  "DirORSet \<Rightarrow> u64 \<Rightarrow> bool \<Rightarrow> ConflictRecord list \<Rightarrow> ConflictStatsFull \<Rightarrow> ConflictStatsFull option" where
  "stats_full_loop s dir recursive [] st = Some st"
| "stats_full_loop s dir recursive (c # cs) st =
     (case is_in_dir s (conflict_inode c) dir recursive of
        None \<Rightarrow> None
      | Some False \<Rightarrow> stats_full_loop s dir recursive cs st
      | Some True \<Rightarrow> stats_full_loop s dir recursive cs (count_full c st))"

definition get_conflict_stats_full_by_dir :: "DirORSet \<Rightarrow> u64 \<Rightarrow> bool \<Rightarrow> ConflictStatsFull option" where
  "get_conflict_stats_full_by_dir s dir recursive =
     stats_full_loop s dir recursive (conflicts s)
       \<lparr>cf_resolved_count = 0, cf_unresolved_count = 0, cf_all = ConflictStats_zero,
        cf_resolved = ConflictStats_zero\<rparr>"

text \<open>The numbers that select a type; a negative number selects all, any other number none.\<close>

definition conflict_type_of :: "int \<Rightarrow> ConflictType option" where
  "conflict_type_of n =
     (if n = 0 then Some CreateCreate else if n = 1 then Some WriteWrite
      else if n = 2 then Some WriteUnlink else if n = 3 then Some DeleteCreate
      else if n = 4 then Some RenameConflict else None)"

definition conflict_type_matches :: "int \<Rightarrow> ConflictRecord \<Rightarrow> bool" where
  "conflict_type_matches n c =
     (if n < 0 then True
      else case conflict_type_of n of None \<Rightarrow> False | Some ct \<Rightarrow> cr_conflict_type c = ct)"

text \<open>The loop of both batch operations; \<open>skip_resolved\<close> tells them apart.\<close>

fun batch_loop ::
  "(nat \<Rightarrow> u64) \<Rightarrow> bool \<Rightarrow> u64 \<Rightarrow> bool \<Rightarrow> int \<Rightarrow> DirEntry list \<Rightarrow> nat \<Rightarrow> ConflictRecord list
     \<Rightarrow> (nat \<times> ConflictRecord list) option"
where
  "batch_loop now skip_resolved dir recursive n es k [] = Some (0, [])"
| "batch_loop now skip_resolved dir recursive n es k (c # cs) =
     (if skip_resolved \<and> cr_resolved c
      then map_option (\<lambda>(m, cs'). (m, c # cs')) (batch_loop now skip_resolved dir recursive n es (k + 1) cs)
      else
        (case is_in_dir_snapshot (conflict_inode c) dir recursive es of
           None \<Rightarrow> None
         | Some inside \<Rightarrow>
             if inside \<and> conflict_type_matches n c
             then map_option (\<lambda>(m, cs'). (m + 1, mark_resolved (now k) KeepLast c # cs'))
                    (batch_loop now skip_resolved dir recursive n es (k + 1) cs)
             else map_option (\<lambda>(m, cs'). (m, c # cs'))
                    (batch_loop now skip_resolved dir recursive n es (k + 1) cs)))"

definition batch_resolve_by_dir ::
  "(nat \<Rightarrow> u64) \<Rightarrow> u64 \<Rightarrow> bool \<Rightarrow> int \<Rightarrow> DirORSet \<Rightarrow> (nat \<times> DirORSet) option" where
  "batch_resolve_by_dir now dir recursive n s =
     map_option (\<lambda>(m, cs). (m, s\<lparr>conflicts := cs\<rparr>))
       (batch_loop now True dir recursive n (hm_values (entries s)) 0 (conflicts s))"

definition batch_ignore_by_dir ::
  "(nat \<Rightarrow> u64) \<Rightarrow> u64 \<Rightarrow> int \<Rightarrow> DirORSet \<Rightarrow> (nat \<times> DirORSet) option" where
  "batch_ignore_by_dir now dir n s =
     map_option (\<lambda>(m, cs). (m, s\<lparr>conflicts := cs\<rparr>))
       (batch_loop now False dir True n (hm_values (entries s)) 0 (conflicts s))"

end
