(* ===== verification/Orset_Laws.thy ===== *)
theory Orset_Laws
  imports Orset
begin

text \<open>
  What the directory set promises: vector clocks are ordered as causality demands, the
  well-formedness of a replica, convergence of replicas that merge states or apply deltas in any
  order and any number of times, a replica that catches up from another one's delta log, and the
  places where the code falls short: conflict types that are never recorded, clocks that depend on
  the order of delivery, and walks up the directory tree that do not end.
\<close>

section \<open>Vector clocks\<close>

definition vc_le :: "VectorClock \<Rightarrow> VectorClock \<Rightarrow> bool" where
  "vc_le a b \<longleftrightarrow> (\<forall>k. vc_get a k \<le> vc_get b k)"

lemma vc_get_insert [simp]: "vc_get (hm_insert k v c) j = (if j = k then v else vc_get c j)"
  by (simp add: vc_get_def)

lemma vc_get_increment: "vc_get (increment c k) j = (if j = k then vc_get c k + 1 else vc_get c j)"
  by (simp add: increment_def)

lemma vc_get_observe: "vc_get (observe c k n) j = (if j = k then max (vc_get c k) n else vc_get c j)"
  by (auto simp: observe_def Let_def max_def)

lemma hm_wf_clock [simp]: "hm_wf c \<Longrightarrow> hm_wf (increment c k)" "hm_wf c \<Longrightarrow> hm_wf (observe c k n)"
  by (simp_all add: increment_def observe_def Let_def)

lemma vc_get_absent: "k \<notin> fst ` set c \<Longrightarrow> vc_get c k = 0"
  by (simp add: vc_get_def map_of_eq_None_iff [THEN iffD2])

lemma vc_get_merge: "hm_wf b \<Longrightarrow> vc_get (vc_merge a b) k = max (vc_get a k) (vc_get b k)"
  unfolding vc_merge_def
proof (induction b arbitrary: a)
  case Nil
  then show ?case by (simp add: vc_get_def)
next
  case (Cons p b)
  obtain j n where p: "p = (j, n)" by (cases p)
  with Cons.prems have "hm_wf b" and "vc_get b j = 0"
    by (auto simp: hm_wf_def intro: vc_get_absent)
  moreover have "vc_get (p # b) k = (if k = j then n else vc_get b k)" by (simp add: p vc_get_def)
  ultimately show ?case using Cons.IH [of "observe a j n"] by (auto simp: p vc_get_observe)
qed

lemma hm_wf_merge [simp]: "hm_wf a \<Longrightarrow> hm_wf (vc_merge a b)"
  unfolding vc_merge_def by (induction b arbitrary: a) (simp_all add: split_beta)

lemma compare_flags:
  "fold (compare_step a b) ks (x, y) =
     (x \<and> (\<forall>k\<in>set ks. vc_get a k \<le> vc_get b k), y \<and> (\<forall>k\<in>set ks. vc_get b k \<le> vc_get a k))"
  by (induction ks arbitrary: x y) (auto simp: compare_step_def Let_def)

lemma all_keys_le: "(\<forall>k\<in>set (all_keys a b). vc_get a k \<le> vc_get b k) \<longleftrightarrow> vc_le a b"
  using vc_get_absent [of _ a] by (fastforce simp: vc_le_def all_keys_def)

lemma all_keys_ge: "(\<forall>k\<in>set (all_keys a b). vc_get b k \<le> vc_get a k) \<longleftrightarrow> vc_le b a"
  using vc_get_absent [of _ b] by (fastforce simp: vc_le_def all_keys_def)

lemma vc_compare_le:
  "vc_compare a b = (if vc_le a b then if vc_le b a then Equal else Before
     else if vc_le b a then After else Concurrent)"
  by (simp add: vc_compare_def compare_flags all_keys_le all_keys_ge)

lemma dominates_loop_le:
  "dominates_loop a b ks st \<longleftrightarrow> (\<forall>k\<in>set ks. vc_get b k \<le> vc_get a k)
     \<and> (st \<or> \<not> (\<forall>k\<in>set ks. vc_get a k \<le> vc_get b k))"
  by (induction ks arbitrary: st) (auto simp: Let_def not_le)

lemma dominates_le: "dominates a b \<longleftrightarrow> vc_le b a \<and> \<not> vc_le a b"
  by (simp add: dominates_def dominates_loop_le all_keys_le all_keys_ge)

text \<open>C22: The vector clock operations agree with the causal order. Comparing two clocks tells
  exactly how their counters are ordered, \<^verbatim>\<open>dominates\<close> is the strict order, and merging gives the
  least clock above both.\<close>

theorem vector_clock_order:
  assumes "hm_wf b"
  shows "(vc_compare a b = Before \<longleftrightarrow> vc_le a b \<and> \<not> vc_le b a)
    \<and> (vc_compare a b = After \<longleftrightarrow> vc_le b a \<and> \<not> vc_le a b)
    \<and> (vc_eq a b \<longleftrightarrow> (\<forall>k. vc_get a k = vc_get b k))
    \<and> (is_concurrent a b \<longleftrightarrow> \<not> vc_le a b \<and> \<not> vc_le b a)
    \<and> (dominates a b \<longleftrightarrow> vc_compare a b = After)
    \<and> (vc_le (vc_merge a b) c \<longleftrightarrow> vc_le a c \<and> vc_le b c)"
proof -
  have "vc_eq a b \<longleftrightarrow> vc_le a b \<and> vc_le b a" by (simp add: vc_eq_def vc_compare_le)
  also have "\<dots> \<longleftrightarrow> (\<forall>k. vc_get a k = vc_get b k)"
    unfolding vc_le_def by (metis order_antisym order_refl)
  finally have eq: "vc_eq a b \<longleftrightarrow> (\<forall>k. vc_get a k = vc_get b k)" .
  have "vc_le (vc_merge a b) c \<longleftrightarrow> vc_le a c \<and> vc_le b c"
    using assms by (auto simp: vc_le_def vc_get_merge)
  with eq show ?thesis by (simp add: vc_compare_le is_concurrent_def dominates_le)
qed

theorem vector_clock_order_witness:
  "is_concurrent [(1, 2)] [(2, 1)] \<and> \<not> dominates [(1, 2)] [(2, 1)]"
proof -
  have wf: "hm_wf [(2 :: u64, 1 :: u64)]" by (simp add: hm_wf_def)
  have "\<not> vc_le [(1, 2)] [(2, 1)] \<and> \<not> vc_le [(2, 1)] [(1, 2)]"
    unfolding vc_le_def not_all
    by (intro conjI exI [of _ 1] exI [of _ 2]) (simp_all add: vc_get_def)
  then show ?thesis
    using vector_clock_order [OF wf, of "[(1, 2)]"] by simp
qed

section \<open>Joining views\<close>

text \<open>The contract of replicas whose views are joined: an operation that does not care about the
  order or the repetition of its arguments.\<close>

locale joins =
  fixes up :: "'v \<Rightarrow> 'v \<Rightarrow> 'v"
  assumes up_assoc: "up (up a b) c = up a (up b c)"
    and up_commute: "up a b = up b a"
    and up_idem: "up a a = a"
begin

lemma foldl_upper: "v \<in> set (a # vs) \<Longrightarrow> up v (foldl up a vs) = foldl up a vs"
proof (induction vs rule: rev_induct)
  case Nil
  then show ?case by (simp add: up_idem)
next
  case (snoc w vs)
  let ?f = "foldl up a vs"
  show ?case
  proof (cases "v = w")
    case True
    have "up w (up ?f w) = up ?f (up w w)" by (metis up_assoc up_commute)
    with True show ?thesis by (simp add: up_idem)
  next
    case False
    with snoc have "up v ?f = ?f" by auto
    then show ?thesis by (simp add: up_assoc [symmetric])
  qed
qed

lemma foldl_least: "\<forall>v\<in>set (a # vs). up v z = z \<Longrightarrow> up (foldl up a vs) z = z"
  by (induction vs rule: rev_induct) (auto simp: up_assoc)

lemma foldl_set_eq:
  assumes "set (a # vs) = set (b # ws)"
  shows "foldl up a vs = foldl up b ws"
proof -
  have "up (foldl up a vs) (foldl up b ws) = foldl up b ws"
    using assms foldl_upper [of _ b ws] by (intro foldl_least) simp
  moreover have "up (foldl up b ws) (foldl up a vs) = foldl up a vs"
    using assms foldl_upper [of _ a vs] by (intro foldl_least) simp
  ultimately show ?thesis by (metis up_commute)
qed

end

text \<open>Replicas that merge whole states, and replicas that apply operations.\<close>

locale state_crdt = joins up for up :: "'v \<Rightarrow> 'v \<Rightarrow> 'v" +
  fixes wf :: "'s \<Rightarrow> bool" and view :: "'s \<Rightarrow> 'v" and merge :: "'s \<Rightarrow> 's \<Rightarrow> 's"
  assumes merge_wf: "wf a \<Longrightarrow> wf b \<Longrightarrow> wf (merge a b)"
    and merge_view: "wf a \<Longrightarrow> wf b \<Longrightarrow> view (merge a b) = up (view a) (view b)"
begin

lemma merges_view:
  "wf s \<Longrightarrow> \<forall>x\<in>set xs. wf x \<Longrightarrow> wf (foldl merge s xs) \<and> view (foldl merge s xs) = foldl up (view s) (map view xs)"
  by (induction xs rule: rev_induct) (auto simp: merge_wf merge_view)

lemma merges_converge:
  assumes "wf s" "\<forall>x\<in>set xs. wf x" "wf t" "\<forall>y\<in>set ys. wf y" and eq: "set (s # xs) = set (t # ys)"
  shows "view (foldl merge s xs) = view (foldl merge t ys)"
proof -
  have "set (view s # map view xs) = set (view t # map view ys)"
    using arg_cong [OF eq, of "image view"] by simp
  then have "foldl up (view s) (map view xs) = foldl up (view t) (map view ys)" by (rule foldl_set_eq)
  with merges_view assms show ?thesis by simp
qed

end

locale op_crdt = joins up for up :: "'v \<Rightarrow> 'v \<Rightarrow> 'v" +
  fixes wf :: "'s \<Rightarrow> bool" and view :: "'s \<Rightarrow> 'v" and apply_op :: "'o \<Rightarrow> 's \<Rightarrow> 's" and gain :: "'o \<Rightarrow> 'v"
  assumes op_wf: "wf s \<Longrightarrow> wf (apply_op d s)"
    and op_view: "wf s \<Longrightarrow> view (apply_op d s) = up (view s) (gain d)"
begin

lemma ops_view: "wf s \<Longrightarrow> wf (fold apply_op ds s) \<and> view (fold apply_op ds s) = foldl up (view s) (map gain ds)"
  by (induction ds arbitrary: s) (auto simp: op_wf op_view)

lemma ops_converge:
  assumes "wf s" and eq: "set ds = set ds'"
  shows "view (fold apply_op ds s) = view (fold apply_op ds' s)"
proof -
  have "set (view s # map gain ds) = set (view s # map gain ds')" using eq by simp
  then have "foldl up (view s) (map gain ds) = foldl up (view s) (map gain ds')" by (rule foldl_set_eq)
  with ops_view assms(1) show ?thesis by simp
qed

end

section \<open>Well-formed replicas\<close>

definition live_ids :: "DirORSet \<Rightarrow> EntryId set" where
  "live_ids s = dom (hm_get (entries s))"

text \<open>Maps and sets without repetitions, entries filed under their own id, and no removed id among
  the entries.\<close>

definition orset_wf :: "DirORSet \<Rightarrow> bool" where
  "orset_wf s \<longleftrightarrow> hm_wf (entries s) \<and> distinct (tombstones s) \<and> hm_wf (vclock s)
     \<and> (\<forall>i e. hm_get (entries s) i = Some e \<longrightarrow> de_id e = i)
     \<and> live_ids s \<inter> set (tombstones s) = {}"

text \<open>The policies that resolve conflicts by deleting branches work differently.\<close>

definition keeps_branches :: "DirORSet \<Rightarrow> bool" where
  "keeps_branches s \<longleftrightarrow> policy s \<noteq> Conservative \<and> policy s \<noteq> Aggressive"

named_theorems orset_frame \<open>what the detection of conflicts leaves alone\<close>

lemma record_conflict_frame [orset_frame]:
  "entries (record_conflict env ct b bs s) = entries s" "vclock (record_conflict env ct b bs s) = vclock s"
  "policy (record_conflict env ct b bs s) = policy s" "delta_log (record_conflict env ct b bs s) = delta_log s"
  "keeps_branches s \<Longrightarrow> tombstones (record_conflict env ct b bs s) = tombstones s"
  by (simp_all add: record_conflict_def keeps_branches_def Let_def)

lemma keeps_branches_record [orset_frame]:
  "keeps_branches (record_conflict env ct b bs s) = keeps_branches s"
  by (simp add: keeps_branches_def record_conflict_frame)

lemma record_conflicts_frame:
  "entries (fold (\<lambda>e. record_conflict env ct None [e, x]) es s) = entries s"
  "vclock (fold (\<lambda>e. record_conflict env ct None [e, x]) es s) = vclock s"
  "policy (fold (\<lambda>e. record_conflict env ct None [e, x]) es s) = policy s"
  "delta_log (fold (\<lambda>e. record_conflict env ct None [e, x]) es s) = delta_log s"
  "keeps_branches s \<Longrightarrow> tombstones (fold (\<lambda>e. record_conflict env ct None [e, x]) es s) = tombstones s"
  by (induction es arbitrary: s) (simp_all add: orset_frame)

lemma name_clashes_frame [orset_frame]:
  "entries (record_name_clashes env ct e s) = entries s" "vclock (record_name_clashes env ct e s) = vclock s"
  "policy (record_name_clashes env ct e s) = policy s" "delta_log (record_name_clashes env ct e s) = delta_log s"
  "keeps_branches s \<Longrightarrow> tombstones (record_name_clashes env ct e s) = tombstones s"
  "keeps_branches (record_name_clashes env ct e s) = keeps_branches s"
  by (simp_all add: record_name_clashes_def record_conflicts_frame keeps_branches_def)

lemma detect_create_frame [orset_frame]:
  "entries (detect_create_conflict env e vc s) = entries s" "vclock (detect_create_conflict env e vc s) = vclock s"
  "policy (detect_create_conflict env e vc s) = policy s"
  "keeps_branches s \<Longrightarrow> tombstones (detect_create_conflict env e vc s) = tombstones s"
  by (simp_all add: detect_create_conflict_def Let_def orset_frame)

lemma detect_remove_frame [orset_frame]:
  "entries (detect_remove_conflict env i vc s) = entries s" "vclock (detect_remove_conflict env i vc s) = vclock s"
  "policy (detect_remove_conflict env i vc s) = policy s"
  "keeps_branches s \<Longrightarrow> tombstones (detect_remove_conflict env i vc s) = tombstones s"
  by (simp_all add: detect_remove_conflict_def Let_def orset_frame split: option.split)

lemma detect_rename_frame [orset_frame]:
  "entries (detect_rename_conflict env i e vc s) = entries s" "vclock (detect_rename_conflict env i e vc s) = vclock s"
  "policy (detect_rename_conflict env i e vc s) = policy s"
  "keeps_branches s \<Longrightarrow> tombstones (detect_rename_conflict env i e vc s) = tombstones s"
  by (simp_all add: detect_rename_conflict_def Let_def orset_frame split: option.split)

lemma detect_write_frame [orset_frame]:
  "entries (detect_write_write_conflict env i vc s) = entries s"
  "vclock (detect_write_write_conflict env i vc s) = vclock s"
  "policy (detect_write_write_conflict env i vc s) = policy s"
  "keeps_branches s \<Longrightarrow> tombstones (detect_write_write_conflict env i vc s) = tombstones s"
  by (simp_all add: detect_write_write_conflict_def Let_def orset_frame)

text \<open>An attribute change alters one entry and no id.\<close>

lemma update_first_keys: "map fst (update_first P f m) = map fst m"
  by (induction P f m rule: update_first.induct) auto

lemma update_first_get:
  "hm_get (update_first P f m) i = Some e \<Longrightarrow> \<exists>e0. hm_get m i = Some e0 \<and> (e = e0 \<or> e = f e0)"
  by (induction P f m rule: update_first.induct) (auto split: if_splits)

lemma update_first_dom: "dom (hm_get (update_first P f m)) = dom (hm_get m)"
  by (simp add: dom_map_of_conv_image_fst flip: set_map update_first_keys [of P f m])

lemma set_attrs_id [simp]: "de_id (set_attrs a e) = de_id e"
  by (simp add: set_attrs_def)

lemma update_by_inode_frame [simp]:
  "tombstones (update_by_inode n f s) = tombstones s" "vclock (update_by_inode n f s) = vclock s"
  "policy (update_by_inode n f s) = policy s" "delta_log (update_by_inode n f s) = delta_log s"
  "live_ids (update_by_inode n f s) = live_ids s"
  by (simp_all add: update_by_inode_def live_ids_def update_first_dom)

lemma hm_wf_update_first [simp]: "hm_wf (update_first P f m) = hm_wf m"
  by (simp add: hm_wf_def update_first_keys)

lemma orset_wf_update:
  assumes "orset_wf s"
  shows "orset_wf (update_by_inode n (set_attrs a) s)"
proof -
  have "de_id e = i" if "hm_get (entries (update_by_inode n (set_attrs a) s)) i = Some e" for i e
  proof -
    from that obtain e0 where "hm_get (entries s) i = Some e0" "e = e0 \<or> e = set_attrs a e0"
      unfolding update_by_inode_def by (auto dest: update_first_get)
    with assms show ?thesis by (auto simp: orset_wf_def)
  qed
  moreover have "hm_wf (entries (update_by_inode n (set_attrs a) s))"
    using assms by (simp add: orset_wf_def update_by_inode_def)
  ultimately show ?thesis using assms unfolding orset_wf_def by simp
qed

lemma orset_wf_new: "orset_wf (DirORSet_new n)"
  by (simp add: orset_wf_def DirORSet_new_def live_ids_def)

lemma orset_wf_fields:
  assumes "orset_wf s" and "hm_wf m" and "distinct ts" and "hm_wf c"
    and "\<And>i e. hm_get m i = Some e \<Longrightarrow> de_id e = i" and "dom (hm_get m) \<inter> set ts = {}"
  shows "orset_wf (s'\<lparr>entries := m, tombstones := ts, vclock := c\<rparr>)"
  using assms by (simp add: orset_wf_def live_ids_def)

section \<open>Membership and its joins\<close>

text \<open>What a replica knows of the set: the ids it has ever seen and those among them that were
  removed. The clock is a third component for merged states.\<close>

definition membership :: "DirORSet \<Rightarrow> EntryId set \<times> EntryId set" where
  "membership s = (live_ids s \<union> set (tombstones s), set (tombstones s))"

definition replica_view :: "DirORSet \<Rightarrow> (EntryId set \<times> EntryId set) \<times> (u64 \<Rightarrow> u64)" where
  "replica_view s = (membership s, vc_get (vclock s))"

definition join_members ::
  "EntryId set \<times> EntryId set \<Rightarrow> EntryId set \<times> EntryId set \<Rightarrow> EntryId set \<times> EntryId set" where
  "join_members a b = (fst a \<union> fst b, snd a \<union> snd b)"

definition join_views ::
  "(EntryId set \<times> EntryId set) \<times> (u64 \<Rightarrow> u64) \<Rightarrow> (EntryId set \<times> EntryId set) \<times> (u64 \<Rightarrow> u64)
     \<Rightarrow> (EntryId set \<times> EntryId set) \<times> (u64 \<Rightarrow> u64)" where
  "join_views a b = (join_members (fst a) (fst b), \<lambda>k. max (snd a k) (snd b k))"

definition delta_gain :: "DeltaOp \<Rightarrow> EntryId set \<times> EntryId set" where
  "delta_gain d =
     (case d of DAdd e _ \<Rightarrow> ({de_id e}, {}) | DRemove i _ \<Rightarrow> ({i}, {i})
      | DRename i e _ \<Rightarrow> ({i, de_id e}, {i}) | DSetAttr _ _ \<Rightarrow> ({}, {}))"

text \<open>The live ids can be read off the membership.\<close>

lemma live_from_membership: "orset_wf s \<Longrightarrow> live_ids s = fst (membership s) - snd (membership s)"
  by (auto simp: membership_def orset_wf_def)

lemma dom_insert: "dom (hm_get (hm_insert k v m)) = insert k (dom (hm_get m))"
  by (auto simp: dom_def)

lemma dom_remove: "dom (hm_get (hm_remove k m)) = dom (hm_get m) - {k}"
  by (auto simp: dom_def)

definition accepts :: "DirORSet \<Rightarrow> bool" where
  "accepts s \<longleftrightarrow> orset_wf s \<and> keeps_branches s"

lemma keeps_branches_policy: "policy s' = policy s \<Longrightarrow> keeps_branches s' = keeps_branches s"
  by (simp add: keeps_branches_def)

lemma policy_apply_delta: "policy (apply_delta env d s) = policy s"
  by (simp add: apply_delta_def Let_def orset_frame split: DeltaOp.split)

lemma apply_delta_wf:
  assumes "accepts s"
  shows "orset_wf (apply_delta env d s)"
proof -
  have wf: "orset_wf s" and kb: "keeps_branches s" using assms by (simp_all add: accepts_def)
  have own: "de_id e = i" if "hm_get (entries s) i = Some e" for i e
    using wf that by (simp add: orset_wf_def)
  show ?thesis
  proof (cases d)
    case (DSetAttr a vc)
    have "orset_wf (detect_write_write_conflict env (ac_inode a) vc s)"
      using wf kb by (simp add: orset_wf_def live_ids_def orset_frame)
    then have "orset_wf (update_by_inode (ac_inode a) (set_attrs a)
        (detect_write_write_conflict env (ac_inode a) vc s))" by (rule orset_wf_update)
    then show ?thesis
      using DSetAttr by (simp add: apply_delta_def Let_def orset_wf_def live_ids_def)
  qed (use wf kb own in \<open>auto simp: apply_delta_def Let_def orset_frame orset_wf_def live_ids_def
        dom_insert dom_remove split: if_splits\<close>)
qed

lemma apply_delta_accepts: "accepts s \<Longrightarrow> accepts (apply_delta env d s)"
  using apply_delta_wf keeps_branches_policy [OF policy_apply_delta] by (simp add: accepts_def)

lemma apply_delta_membership:
  assumes "accepts s"
  shows "membership (apply_delta env d s) = join_members (membership s) (delta_gain d)"
proof -
  have kb: "keeps_branches s" using assms by (simp add: accepts_def)
  have live: "live_ids (detect_write_write_conflict env i vc s) = live_ids s" for i vc
    by (simp add: live_ids_def orset_frame)
  show ?thesis
  proof (cases d)
    case (DSetAttr a vc)
    then have "live_ids (apply_delta env d s) = live_ids s"
      by (simp add: apply_delta_def Let_def live live_ids_def [of "_\<lparr>vclock := _\<rparr>"] flip: live_ids_def)
    moreover have "tombstones (apply_delta env d s) = tombstones s"
      using DSetAttr kb by (simp add: apply_delta_def Let_def orset_frame)
    ultimately show ?thesis using DSetAttr by (simp add: membership_def join_members_def delta_gain_def)
  qed (use kb in \<open>auto simp: apply_delta_def Let_def orset_frame membership_def join_members_def
        delta_gain_def live_ids_def dom_insert dom_remove\<close>)
qed

interpretation directory_deltas:
  op_crdt join_members accepts membership "\<lambda>(env, d). apply_delta env d" "\<lambda>(env, d). delta_gain d"
  by unfold_locales
    (auto simp: join_members_def apply_delta_accepts apply_delta_membership)

subsection \<open>Merged states\<close>

lemma fold_insert_live:
  "dom (hm_get (fold (\<lambda>(i, e) m. if i \<notin> T then hm_insert i e m else m) es m)) =
     dom (hm_get m) \<union> (fst ` set es - T)"
proof (induction es arbitrary: m)
  case (Cons p es)
  obtain i e where p: "p = (i, e)" by (cases p)
  have "dom (hm_get (if i \<notin> T then hm_insert i e m else m)) = dom (hm_get m) \<union> ({i} - T)"
    by (auto simp: dom_insert)
  then show ?case using Cons.IH [of "if i \<notin> T then hm_insert i e m else m"] p by auto
qed simp

lemma fold_remove_live: "dom (hm_get (fold hm_remove ts m)) = dom (hm_get m) - set ts"
  by (induction ts arbitrary: m) (auto simp: dom_remove)

lemma set_fold_insert: "set (fold List.insert xs ys) = set xs \<union> set ys"
  by (induction xs arbitrary: ys) auto

lemma distinct_fold_insert: "distinct ys \<Longrightarrow> distinct (fold List.insert xs ys)"
  by (induction xs arbitrary: ys) auto

lemma fold_insert_wf:
  "hm_wf m \<Longrightarrow> hm_wf (fold (\<lambda>(i, e) m. if i \<notin> T then hm_insert i e m else m) es m)"
  by (induction es arbitrary: m) (simp_all add: split_beta)

lemma fold_remove_wf: "hm_wf m \<Longrightarrow> hm_wf (fold hm_remove ts m)"
  by (induction ts arbitrary: m) auto

lemma fold_insert_own:
  "\<forall>i e. hm_get m i = Some e \<longrightarrow> de_id e = i \<Longrightarrow> \<forall>(i, e)\<in>set es. de_id e = i \<Longrightarrow>
     hm_get (fold (\<lambda>(i, e) m. if i \<notin> T then hm_insert i e m else m) es m) i = Some e \<Longrightarrow> de_id e = i"
proof (induction es arbitrary: m)
  case (Cons p es)
  obtain j d where p: "p = (j, d)" by (cases p)
  have "\<forall>i e. hm_get (if j \<notin> T then hm_insert j d m else m) i = Some e \<longrightarrow> de_id e = i"
    using Cons.prems(1,2) p by auto
  from Cons.IH [OF this] Cons.prems(2,3) p show ?case by simp
qed simp

lemma fold_remove_sub: "hm_get (fold hm_remove ts m) i = Some e \<Longrightarrow> hm_get m i = Some e"
proof (induction ts arbitrary: m)
  case (Cons t ts)
  have "hm_get (hm_remove t m) i = Some e" using Cons.IH [of "hm_remove t m"] Cons.prems by simp
  then show ?case by (simp split: if_splits)
qed simp

lemma dom_entries: "dom (hm_get (entries s)) = fst ` set (entries s)"
  by (simp add: dom_map_of_conv_image_fst)

lemma orset_merge_wf:
  assumes a: "orset_wf a" and b: "orset_wf b"
  shows "orset_wf (orset_merge a b)"
proof -
  have own: "\<forall>(i, e)\<in>set (entries b). de_id e = i"
    using b by (auto simp: orset_wf_def hm_wf_def)
  have "de_id e = i" if "hm_get (entries (orset_merge a b)) i = Some e" for i e
    using that a own
    by (auto simp: orset_merge_def Let_def orset_wf_def dest!: fold_remove_sub intro: fold_insert_own)
  moreover have "live_ids (orset_merge a b) \<inter> set (tombstones (orset_merge a b)) = {}"
    using a by (auto simp: orset_merge_def Let_def live_ids_def orset_wf_def fold_remove_live
        fold_insert_live set_fold_insert)
  moreover have "hm_wf (entries (orset_merge a b))" "distinct (tombstones (orset_merge a b))"
    "hm_wf (vclock (orset_merge a b))"
    using a by (simp_all add: orset_merge_def Let_def orset_wf_def fold_remove_wf fold_insert_wf
        distinct_fold_insert)
  ultimately show ?thesis by (simp add: orset_wf_def)
qed

lemma orset_merge_view:
  assumes "orset_wf a" and "orset_wf b"
  shows "replica_view (orset_merge a b) = join_views (replica_view a) (replica_view b)"
proof -
  have "membership (orset_merge a b) = join_members (membership a) (membership b)"
    by (auto simp: membership_def join_members_def live_ids_def orset_merge_def Let_def
        fold_remove_live fold_insert_live set_fold_insert dom_entries)
  moreover have "hm_wf (vclock b)" using assms(2) by (simp add: orset_wf_def)
  ultimately show ?thesis
    by (simp add: replica_view_def join_views_def fun_eq_iff orset_merge_def Let_def vc_get_merge)
qed

interpretation directory_states: state_crdt join_views orset_wf replica_view orset_merge
  by unfold_locales
    (auto simp: join_views_def join_members_def orset_merge_wf orset_merge_view max.assoc,
      auto simp: fun_eq_iff max.commute)

section \<open>Convergence\<close>

text \<open>C18: Replicas that merge the same states agree. Whatever the order, the grouping and the
  repetitions in which well-formed replicas are merged, the result has the same live ids, the same
  removed ids and the same clock.\<close>

theorem merge_converges:
  assumes wf: "orset_wf s" "\<forall>x\<in>set xs. orset_wf x" "orset_wf t" "\<forall>y\<in>set ys. orset_wf y"
    and same: "set (s # xs) = set (t # ys)"
  shows "live_ids (foldl orset_merge s xs) = live_ids (foldl orset_merge t ys)
    \<and> set (tombstones (foldl orset_merge s xs)) = set (tombstones (foldl orset_merge t ys))
    \<and> vc_eq (vclock (foldl orset_merge s xs)) (vclock (foldl orset_merge t ys))"
proof -
  let ?a = "foldl orset_merge s xs" and ?b = "foldl orset_merge t ys"
  have "orset_wf ?a" "orset_wf ?b" using directory_states.merges_view wf by blast+
  moreover have "replica_view ?a = replica_view ?b"
    using directory_states.merges_converge [OF wf same] .
  then have "membership ?a = membership ?b" "vc_get (vclock ?a) = vc_get (vclock ?b)"
    by (simp_all add: replica_view_def)
  ultimately show ?thesis
    by (simp add: live_from_membership vc_eq_def vc_compare_le vc_le_def) (simp add: membership_def)
qed

definition entry_at :: "str \<Rightarrow> u64 \<Rightarrow> u64 \<Rightarrow> DirEntry" where
  "entry_at name client seq = new_file 0 (EntryId_new name client seq) 10 1 0 0 0"

definition writer_replica :: DirORSet where
  "writer_replica = orset_add (entry_at [97] 1 1) (DirORSet_new 1)"

definition remover_replica :: DirORSet where
  "remover_replica = orset_remove (EntryId_new [97] 1 1) (DirORSet_new 1)"

lemma demo_replicas_wf: "orset_wf writer_replica" "orset_wf remover_replica"
  by (simp_all add: writer_replica_def remover_replica_def orset_add_def orset_remove_def
      DirORSet_new_def orset_wf_def live_ids_def Let_def entry_at_def new_file_def entry_of_type_def
      dom_insert hm_wf_def increment_def)

theorem merge_converges_witness:
  "live_ids (foldl orset_merge writer_replica [remover_replica]) =
     live_ids (foldl orset_merge remover_replica [writer_replica, remover_replica])"
  using merge_converges [of writer_replica "[remover_replica]" remover_replica "[writer_replica, remover_replica]"]
    demo_replicas_wf by auto

text \<open>C7: Deltas may be delivered in any order and more than once. Two replicas that start alike and
  apply the same set of deltas, under whatever clock and UUIDs, end with the same live ids and the
  same removed ids: an id is live when it was added or renamed to, and neither removed nor renamed
  away.\<close>

theorem deltas_converge:
  assumes "orset_wf s" and "policy s \<noteq> Conservative" "policy s \<noteq> Aggressive"
    and same: "set (map snd ds) = set (map snd ds')"
  shows "live_ids (fold (\<lambda>(env, d). apply_delta env d) ds s) = live_ids (fold (\<lambda>(env, d). apply_delta env d) ds' s)
    \<and> set (tombstones (fold (\<lambda>(env, d). apply_delta env d) ds s)) =
        set (tombstones s) \<union> (\<Union>d\<in>set (map snd ds). snd (delta_gain d))
    \<and> live_ids (fold (\<lambda>(env, d). apply_delta env d) ds s) =
        (live_ids s \<union> (\<Union>d\<in>set (map snd ds). fst (delta_gain d)))
        - (set (tombstones s) \<union> (\<Union>d\<in>set (map snd ds). snd (delta_gain d)))"
proof -
  have acc: "accepts s" using assms by (simp add: accepts_def keeps_branches_def)
  have members: "accepts (fold (\<lambda>(env, d). apply_delta env d) es s)
      \<and> membership (fold (\<lambda>(env, d). apply_delta env d) es s) =
        (fst (membership s) \<union> (\<Union>d\<in>set (map snd es). fst (delta_gain d)),
         snd (membership s) \<union> (\<Union>d\<in>set (map snd es). snd (delta_gain d)))" for es
  proof -
    have "foldl join_members v (map (\<lambda>(env, d). delta_gain d) es) =
        (fst v \<union> (\<Union>d\<in>set (map snd es). fst (delta_gain d)), snd v \<union> (\<Union>d\<in>set (map snd es). snd (delta_gain d)))" for v
      by (induction es arbitrary: v) (auto simp: join_members_def)
    with directory_deltas.ops_view [OF acc, of es] show ?thesis by simp
  qed
  have live: "live_ids (fold (\<lambda>(env, d). apply_delta env d) es s) =
      fst (membership (fold (\<lambda>(env, d). apply_delta env d) es s))
      - snd (membership (fold (\<lambda>(env, d). apply_delta env d) es s))" for es
    using members [of es] by (intro live_from_membership) (simp add: accepts_def)
  have tombs: "set (tombstones x) = snd (membership x)" for x by (simp add: membership_def)
  have eq: "membership (fold (\<lambda>(env, d). apply_delta env d) ds s) =
      membership (fold (\<lambda>(env, d). apply_delta env d) ds' s)"
    using members [of ds] members [of ds'] unfolding same by (simp only:)
  have "fst (membership s) = live_ids s \<union> snd (membership s)" by (simp add: membership_def)
  moreover note members [THEN conjunct2, of ds]
  ultimately show ?thesis unfolding live tombs eq [symmetric] by (simp only: fst_conv snd_conv) blast
qed

theorem deltas_converge_witness:
  "live_ids (fold (\<lambda>(env, d). apply_delta env d)
       [(\<lparr>ce_id = (\<lambda>_. []), ce_now = (\<lambda>_. 0)\<rparr>, DAdd (entry_at [97] 1 1) [(1, 1)]),
        (\<lparr>ce_id = (\<lambda>_. []), ce_now = (\<lambda>_. 0)\<rparr>, DRemove (EntryId_new [97] 1 1) [(2, 1)])] (DirORSet_new 1)) =
   live_ids (fold (\<lambda>(env, d). apply_delta env d)
       [(\<lparr>ce_id = (\<lambda>_. []), ce_now = (\<lambda>_. 0)\<rparr>, DRemove (EntryId_new [97] 1 1) [(2, 1)]),
        (\<lparr>ce_id = (\<lambda>_. []), ce_now = (\<lambda>_. 0)\<rparr>, DAdd (entry_at [97] 1 1) [(1, 1)])] (DirORSet_new 1))"
  by (rule deltas_converge [THEN conjunct1]) (auto simp: orset_wf_new, simp_all add: DirORSet_new_def)

section \<open>Replicas in use\<close>

datatype local_op =
    LAdd DirEntry
  | LRemove EntryId
  | LRename u64 EntryId str u64
  | LAttr AttrChange u64

definition run_local :: "local_op \<Rightarrow> DirORSet \<Rightarrow> DirORSet" where
  "run_local x s =
     (case x of LAdd e \<Rightarrow> orset_add e s | LRemove i \<Rightarrow> orset_remove i s
      | LRename now i name c \<Rightarrow> snd (rename_entry now i name c s) | LAttr a c \<Rightarrow> update_attr a c s)"

text \<open>A renamed entry gets the id made of the new name and the next sequence number; it must not be
  one that was removed before.\<close>

definition op_ok :: "DirORSet \<Rightarrow> local_op \<Rightarrow> bool" where
  "op_ok s x =
     (case x of
        LRename now i name c \<Rightarrow>
          EntryId_new name c (vc_get (vclock s) c + 1) \<notin> insert i (set (tombstones s))
      | _ \<Rightarrow> True)"

lemma orset_wf_local:
  assumes wf: "orset_wf s" and ok: "op_ok s x"
  shows "orset_wf (run_local x s)"
proof -
  have own: "de_id e = i" if "hm_get (entries s) i = Some e" for i e
    using wf that by (simp add: orset_wf_def)
  show ?thesis
  proof (cases x)
    case (LAttr a c)
    have "orset_wf (s\<lparr>vclock := increment (vclock s) c\<rparr>)"
      using wf by (simp add: orset_wf_def live_ids_def)
    then have "orset_wf (update_by_inode (ac_inode a) (set_attrs a) (s\<lparr>vclock := increment (vclock s) c\<rparr>))"
      by (rule orset_wf_update)
    then show ?thesis
      using LAttr by (simp add: run_local_def update_attr_def Let_def orset_wf_def live_ids_def)
  next
    case (LRename now i name c)
    show ?thesis
    proof (cases "hm_get (entries s) i")
      case None
      with wf LRename show ?thesis by (simp add: run_local_def rename_entry_def)
    next
      case (Some e)
      then show ?thesis using wf own ok LRename
        by (auto simp: run_local_def rename_entry_def Let_def orset_wf_def live_ids_def dom_insert dom_remove
            op_ok_def EntryId_new_def vc_get_increment split: if_splits)
    qed
  qed (use wf own in \<open>auto simp: run_local_def orset_add_def orset_remove_def Let_def orset_wf_def
        live_ids_def dom_insert dom_remove split: if_splits\<close>)
qed

text \<open>The states of a replica. \<open>G\<close> restricts the states in which deltas arrive.\<close>

inductive replica :: "(DirORSet \<Rightarrow> bool) \<Rightarrow> DirORSet \<Rightarrow> bool" for G where
  created: "replica G (DirORSet_new n)"
| changed: "replica G s \<Longrightarrow> op_ok s x \<Longrightarrow> replica G (run_local x s)"
| informed: "replica G s \<Longrightarrow> G s \<Longrightarrow> replica G (apply_delta env d s)"
| merged: "replica G s \<Longrightarrow> replica G t \<Longrightarrow> replica G (orset_merge s t)"
| configured: "replica G s \<Longrightarrow> replica G (set_policy p s)"
| resolved: "replica G s \<Longrightarrow> replica G (resolve_conflict now c r s)"
| auto_resolved: "replica G s \<Longrightarrow> replica G (snd (auto_resolve_all nows s))"
| cleared: "replica G s \<Longrightarrow> replica G (clear_delta_log s)"

lemma orset_wf_frame:
  "orset_wf s \<Longrightarrow> orset_wf (s\<lparr>policy := p\<rparr>)" "orset_wf s \<Longrightarrow> orset_wf (s\<lparr>conflicts := cs\<rparr>)"
  "orset_wf s \<Longrightarrow> orset_wf (s\<lparr>delta_log := ds\<rparr>)"
  by (simp_all add: orset_wf_def live_ids_def)

text \<open>C19: Every replica is well formed. Whatever changes, deltas, merges and resolutions it has gone
  through, as long as deltas arrive under a policy that keeps all branches: its listing shows every
  live id exactly once and no removed id.\<close>

theorem replica_well_formed:
  assumes "replica keeps_branches s"
  shows "orset_wf s \<and> set (map de_id (list_all_entries s)) = live_ids s
    \<and> distinct (map de_id (list_all_entries s)) \<and> live_ids s \<inter> set (tombstones s) = {}"
proof -
  have wf: "orset_wf s"
    using assms
  proof (induction rule: replica.induct)
    case (informed s env d)
    then show ?case by (intro apply_delta_wf) (simp add: accepts_def)
  qed (simp_all add: orset_wf_new orset_wf_local orset_merge_wf set_policy_def resolve_conflict_def
      auto_resolve_all_def resolve_where_def clear_delta_log_def orset_wf_frame)
  have ids: "map de_id (hm_values (entries s)) = map fst (entries s)"
  proof -
    have "\<forall>(i, e)\<in>set (entries s). de_id e = i" using wf by (auto simp: orset_wf_def hm_wf_def)
    then show ?thesis by auto
  qed
  show ?thesis
    unfolding list_all_entries_def ids
    using wf by (simp add: orset_wf_def hm_wf_def live_ids_def dom_map_of_conv_image_fst)
qed

theorem replica_well_formed_witness:
  "distinct (map de_id (list_all_entries (run_local (LAdd (entry_at [97] 1 1)) (DirORSet_new 1))))"
proof -
  have "replica keeps_branches (run_local (LAdd (entry_at [97] 1 1)) (DirORSet_new 1))"
    by (intro replica.changed replica.created) (simp add: op_ok_def)
  from replica_well_formed [OF this] show ?thesis by simp
qed

section \<open>Catching up\<close>

lemma membership_local:
  "\<exists>ds. delta_log (run_local x s) = delta_log s @ ds
     \<and> (orset_wf s \<longrightarrow> op_ok s x \<longrightarrow>
          membership (run_local x s) = foldl join_members (membership s) (map delta_gain ds))"
proof (cases x)
  case (LAttr a c)
  have "live_ids (update_attr a c s) = live_ids s"
    by (simp add: update_attr_def Let_def live_ids_def update_by_inode_def update_first_dom)
  then show ?thesis using LAttr
    by (simp add: run_local_def update_attr_def Let_def membership_def join_members_def delta_gain_def)
next
  case (LRename now i name c)
  then show ?thesis
    by (cases "hm_get (entries s) i")
      (auto simp: run_local_def rename_entry_def Let_def membership_def join_members_def delta_gain_def
        live_ids_def dom_insert dom_remove)
qed (auto simp: run_local_def orset_add_def orset_remove_def Let_def membership_def join_members_def
      delta_gain_def live_ids_def dom_insert dom_remove)

fun ops_ok :: "local_op list \<Rightarrow> DirORSet \<Rightarrow> bool" where
  "ops_ok [] s = True"
| "ops_ok (x # xs) s = (op_ok s x \<and> ops_ok xs (run_local x s))"

lemma membership_run:
  "orset_wf s \<Longrightarrow> ops_ok xs s \<Longrightarrow> membership s = foldl join_members v (map delta_gain (delta_log s)) \<Longrightarrow>
     orset_wf (fold run_local xs s)
     \<and> membership (fold run_local xs s) = foldl join_members v (map delta_gain (delta_log (fold run_local xs s)))"
proof (induction xs arbitrary: s)
  case (Cons x xs)
  then show ?case using membership_local [of x s] orset_wf_local [of s x] by auto
qed simp

text \<open>C20: A delta log carries all changes. A new replica that applies the delta log of another one
  has the same live ids and the same removed ids as the replica that made the changes.\<close>

theorem delta_log_catches_up:
  assumes ok: "ops_ok xs (DirORSet_new n)"
    and log: "map snd ds = delta_log (fold run_local xs (DirORSet_new n))"
  shows "live_ids (fold (\<lambda>(env, d). apply_delta env d) ds (DirORSet_new n)) = live_ids (fold run_local xs (DirORSet_new n))
    \<and> set (tombstones (fold (\<lambda>(env, d). apply_delta env d) ds (DirORSet_new n))) =
        set (tombstones (fold run_local xs (DirORSet_new n)))"
proof -
  let ?s = "fold run_local xs (DirORSet_new n)" and ?t = "fold (\<lambda>(env, d). apply_delta env d) ds (DirORSet_new n)"
  let ?v = "membership (DirORSet_new n)"
  have s: "orset_wf ?s" "membership ?s = foldl join_members ?v (map delta_gain (delta_log ?s))"
    using membership_run [OF orset_wf_new ok, of ?v] by (simp_all add: DirORSet_new_def)
  have "accepts (DirORSet_new n)"
    by (simp add: accepts_def orset_wf_new) (simp add: keeps_branches_def DirORSet_new_def)
  from directory_deltas.ops_view [OF this, of ds]
  have t: "orset_wf ?t" "membership ?t = foldl join_members ?v (map (\<lambda>(env, d). delta_gain d) ds)"
    by (simp_all add: accepts_def)
  have "map (\<lambda>(env, d). delta_gain d) ds = map delta_gain (map snd ds)" by (induction ds) auto
  with s(2) t(2) log have "membership ?t = membership ?s" by simp
  then show ?thesis using s(1) t(1) by (simp add: live_from_membership) (simp add: membership_def)
qed

theorem delta_log_catches_up_witness:
  "live_ids (fold (\<lambda>(env, d). apply_delta env d)
      (map (Pair \<lparr>ce_id = (\<lambda>_. []), ce_now = (\<lambda>_. 0)\<rparr>)
        (delta_log (fold run_local [LAdd (entry_at [97] 1 1), LRemove (EntryId_new [97] 1 1)] (DirORSet_new 1))))
      (DirORSet_new 1)) =
   live_ids (fold run_local [LAdd (entry_at [97] 1 1), LRemove (EntryId_new [97] 1 1)] (DirORSet_new 1))"
  by (rule delta_log_catches_up [THEN conjunct1]) (simp_all add: op_ok_def comp_def)

section \<open>Conflict types that are never recorded\<close>

text \<open>A record needs two branches, except for three types; the calls for the other two types pass
  one branch.\<close>

definition silent :: "ConflictType \<Rightarrow> bool" where
  "silent ct \<longleftrightarrow> ct = RenameDelete \<or> ct = CreateDelete"

definition no_silent :: "DirORSet \<Rightarrow> bool" where
  "no_silent s \<longleftrightarrow> (\<forall>c\<in>set (conflicts s). \<not> silent (cr_conflict_type c))"

lemma no_silent_record:
  "no_silent s \<Longrightarrow> \<not> silent ct \<or> length bs < 2 \<Longrightarrow> no_silent (record_conflict env ct b bs s)"
  by (auto simp: no_silent_def record_conflict_def silent_def Let_def)

lemma no_silent_clashes:
  "no_silent s \<Longrightarrow> \<not> silent ct \<Longrightarrow> no_silent (record_name_clashes env ct e s)"
proof -
  assume s: "no_silent s" and ct: "\<not> silent ct"
  have "no_silent (fold (\<lambda>e. record_conflict env ct None [e, x]) es s)" for es x
    using s
  proof (induction es arbitrary: s)
    case (Cons e es)
    then have "no_silent (record_conflict env ct None [e, x] s)"
      using ct by (intro no_silent_record) simp_all
    with Cons.IH show ?case by simp
  qed simp
  then show ?thesis by (simp add: record_name_clashes_def)
qed

lemma no_silent_conflicts: "conflicts s' = conflicts s \<Longrightarrow> no_silent s' = no_silent s"
  by (simp add: no_silent_def)

lemma no_silent_detect:
  assumes "no_silent s"
  shows "no_silent (detect_create_conflict env e vc s)" "no_silent (detect_remove_conflict env i vc s)"
    "no_silent (detect_rename_conflict env i e vc s)" "no_silent (detect_write_write_conflict env n vc s)"
proof -
  note rec = no_silent_record no_silent_clashes
  show "no_silent (detect_create_conflict env e vc s)"
    using assms by (auto simp: detect_create_conflict_def Let_def silent_def intro!: rec)
  show "no_silent (detect_remove_conflict env i vc s)"
    using assms by (auto simp: detect_remove_conflict_def Let_def silent_def intro!: rec split: option.split)
  show "no_silent (detect_rename_conflict env i e vc s)"
    using assms by (auto simp: detect_rename_conflict_def Let_def silent_def intro!: rec split: option.split)
  show "no_silent (detect_write_write_conflict env n vc s)"
    using assms by (auto simp: detect_write_write_conflict_def Let_def silent_def intro!: rec)
qed

lemma no_silent_delta: "no_silent s \<Longrightarrow> no_silent (apply_delta env d s)"
  using no_silent_detect [of s]
  by (cases d) (auto simp: apply_delta_def Let_def update_by_inode_def no_silent_def)

lemma conflicts_local: "conflicts (run_local x s) = conflicts s"
  by (simp add: run_local_def orset_add_def orset_remove_def rename_entry_def update_attr_def
      update_by_inode_def Let_def split: local_op.split option.split)

lemma mark_resolved_type [simp]: "cr_conflict_type (mark_resolved n r c) = cr_conflict_type c"
  by (simp add: mark_resolved_def)

lemma resolve_first_types:
  "c \<in> set (resolve_first P (mark_resolved n r) cs) \<Longrightarrow> \<exists>c0\<in>set cs. cr_conflict_type c = cr_conflict_type c0"
  by (induction cs) (auto split: if_splits)

text \<open>C38: No replica ever holds a rename/delete or a create/delete conflict, under any policy and
  whatever deltas it receives: the detection calls \<^verbatim>\<open>record_conflict\<close> with one branch, and
  \<^verbatim>\<open>record_conflict\<close> drops such a call for these two types.\<close>

theorem rename_delete_never_recorded:
  assumes "replica (\<lambda>_. True) s" and "c \<in> set (conflicts s)"
  shows "cr_conflict_type c \<noteq> RenameDelete \<and> cr_conflict_type c \<noteq> CreateDelete"
proof -
  have "no_silent s"
    using assms(1)
  proof (induction rule: replica.induct)
    case (resolved s now c r)
    then show ?case
      by (auto simp: no_silent_def resolve_conflict_def dest!: resolve_first_types)
  next
    case (auto_resolved s nows)
    then show ?case
      by (auto simp: no_silent_def auto_resolve_all_def resolve_where_def in_set_enumerate_eq
          split: if_splits)
  qed (simp_all add: no_silent_delta no_silent_conflicts [OF conflicts_local] orset_merge_def Let_def,
      simp_all add: no_silent_def DirORSet_new_def set_policy_def clear_delta_log_def)
  with assms(2) show ?thesis by (auto simp: no_silent_def silent_def)
qed

definition raced_replica :: DirORSet where
  "raced_replica = apply_delta \<lparr>ce_id = (\<lambda>_. []), ce_now = (\<lambda>_. 0)\<rparr>
     (DAdd (entry_at [97] 2 1) [(2, 1)]) writer_replica"

lemma raced_conflict: "conflicts raced_replica \<noteq> []"
proof -
  have "is_concurrent [(1, 1)] [(2, 1)]"
    unfolding is_concurrent_def vc_compare_def all_keys_def compare_step_def vc_get_def by simp
  then show ?thesis
    by (simp add: raced_replica_def writer_replica_def orset_add_def DirORSet_new_def apply_delta_def Let_def
        detect_create_conflict_def record_name_clashes_def get_by_name_def entry_at_def new_file_def
        entry_of_type_def EntryId_new_def increment_def vc_get_def record_conflict_def has_existing_conflict_def)
qed

theorem rename_delete_never_recorded_witness:
  "cr_conflict_type (hd (conflicts raced_replica)) \<noteq> RenameDelete
     \<and> cr_conflict_type (hd (conflicts raced_replica)) \<noteq> CreateDelete"
proof (rule rename_delete_never_recorded)
  have "replica (\<lambda>_. True) (run_local (LAdd (entry_at [97] 1 1)) (DirORSet_new 1))"
    by (intro replica.changed replica.created) (simp add: op_ok_def)
  then have "replica (\<lambda>_. True) writer_replica" by (simp add: writer_replica_def run_local_def)
  then show "replica (\<lambda>_. True) raced_replica" unfolding raced_replica_def by (intro replica.informed) simp_all
  show "hd (conflicts raced_replica) \<in> set (conflicts raced_replica)" using raced_conflict by simp
qed

section \<open>Clocks and the order of delivery\<close>

text \<open>C39: The clock of a replica depends on the order of delivery. An \<^verbatim>\<open>Add\<close> that arrives after the
  removal of its id returns before its clock is merged, so the two orders of one pair of deltas leave
  different clocks, although the sets agree.\<close>

theorem clock_depends_on_order:
  "\<not> vc_eq
      (vclock (apply_delta env (DAdd e [(1, 1)]) (apply_delta env (DRemove (de_id e) [(2, 1)]) (DirORSet_new n))))
      (vclock (apply_delta env (DRemove (de_id e) [(2, 1)]) (apply_delta env (DAdd e [(1, 1)]) (DirORSet_new n))))"
proof -
  let ?r = "apply_delta env (DRemove (de_id e) [(2, 1)]) (DirORSet_new n)"
  let ?a = "apply_delta env (DAdd e [(1, 1)]) (DirORSet_new n)"
  have new: "vclock (DirORSet_new n) = []" "keeps_branches (DirORSet_new n)" "tombstones (DirORSet_new n) = []"
    by (simp_all add: DirORSet_new_def keeps_branches_def)
  have r: "vclock ?r = vc_merge [] [(2, 1)]" "tombstones ?r = [de_id e]"
    using new by (simp_all add: apply_delta_def Let_def orset_frame)
  have kb: "keeps_branches ?r" using new(2) keeps_branches_policy [OF policy_apply_delta] by blast
  have one: "vclock (apply_delta env (DAdd e [(1, 1)]) ?r) = vc_merge [] [(2, 1)]"
    using r kb by (simp add: apply_delta_def [of env "DAdd e [(1, 1)]"] Let_def orset_frame)
  have a: "vclock ?a = vc_merge [] [(1, 1)]"
    using new by (simp add: apply_delta_def Let_def orset_frame)
  have two: "vclock (apply_delta env (DRemove (de_id e) [(2, 1)]) ?a) = vc_merge (vc_merge [] [(1, 1)]) [(2, 1)]"
    using a by (simp add: apply_delta_def [of env "DRemove (de_id e) [(2, 1)]"] Let_def orset_frame)
  have wf: "hm_wf [(k :: u64, v :: u64)]" for k v by (simp add: hm_wf_def)
  have "vc_get (vc_merge [] [(2, 1)]) 1 = 0" "vc_get (vc_merge (vc_merge [] [(1, 1)]) [(2, 1)]) 1 = 1"
    unfolding vc_get_merge [OF wf] by (simp_all add: vc_get_def)
  then have "\<not> vc_get (vc_merge (vc_merge [] [(1, 1)]) [(2, 1)]) 1 \<le> vc_get (vc_merge [] [(2, 1)]) 1"
    by simp
  then have "\<not> vc_le (vc_merge (vc_merge [] [(1, 1)]) [(2, 1)]) (vc_merge [] [(2, 1)])"
    unfolding vc_le_def by blast
  then show ?thesis unfolding one two vc_eq_def vc_compare_le by simp
qed

section \<open>Walks up the tree\<close>

definition parent_of :: "DirEntry list \<Rightarrow> u64 \<Rightarrow> u64 option" where
  "parent_of es i = map_option de_parent_ino (find (\<lambda>e. de_inode e = i) es)"

text \<open>\<open>ancestor es i n\<close> is the \<open>n\<close>-th ancestor of inode \<open>i\<close>.\<close>

fun ancestor :: "DirEntry list \<Rightarrow> u64 \<Rightarrow> nat \<Rightarrow> u64 option" where
  "ancestor es i 0 = Some i"
| "ancestor es i (Suc n) = (case parent_of es i of None \<Rightarrow> None | Some j \<Rightarrow> ancestor es j n)"

lemma walk_unfold:
  "is_in_dir_snapshot i dir True es =
     (if i = dir then Some True
      else case parent_of es i of None \<Rightarrow> Some False | Some j \<Rightarrow> is_in_dir_snapshot j dir True es)"
  by (subst is_in_dir_snapshot.simps)
    (auto simp: parent_of_def is_in_dir_snapshot.simps [of dir dir] split: option.split)

lemma walk_result:
  "is_in_dir_snapshot i dir rc es = Some b \<Longrightarrow>
     rc \<longrightarrow> (if b then \<exists>n. ancestor es i n = Some dir else \<exists>n. ancestor es i n = None)"
proof (erule is_in_dir_snapshot.raw_induct [where P = "\<lambda>i dir rc es b.
      rc \<longrightarrow> (if b then \<exists>n. ancestor es i n = Some dir else \<exists>n. ancestor es i n = None)", rotated])
  fix walk i dir rc es b
  assume IH: "\<And>i dir rc es b. walk i dir rc es = Some b \<Longrightarrow>
      rc \<longrightarrow> (if b then \<exists>n. ancestor es i n = Some dir else \<exists>n. ancestor es i n = None)"
    and res: "(if i = dir then Some True else if \<not> rc then Some False
      else case find (\<lambda>e. de_inode e = i) es of None \<Rightarrow> Some False
        | Some e \<Rightarrow> if de_parent_ino e = dir then Some True else walk (de_parent_ino e) dir True es) = Some b"
  show "rc \<longrightarrow> (if b then \<exists>n. ancestor es i n = Some dir else \<exists>n. ancestor es i n = None)"
  proof
    assume rc: rc
    show "if b then \<exists>n. ancestor es i n = Some dir else \<exists>n. ancestor es i n = None"
  proof (cases "i = dir")
    case True
    with res have b by simp
    moreover have "ancestor es i 0 = Some dir" using True by simp
    ultimately show ?thesis by metis
  next
    case False
    show ?thesis
    proof (cases "find (\<lambda>e. de_inode e = i) es")
      case None
      with False res rc have "\<not> b" by simp
      moreover have "ancestor es i 1 = None" using None by (simp add: parent_of_def)
      ultimately show ?thesis by metis
    next
      case (Some e)
      then have up: "ancestor es i (Suc n) = ancestor es (de_parent_ino e) n" for n
        by (simp add: parent_of_def)
      show ?thesis
      proof (cases "de_parent_ino e = dir")
        case True
        with False Some res rc have b by simp
        moreover have "ancestor es i 1 = Some dir" using up [of 0] True by simp
        ultimately show ?thesis by metis
      next
        case False
        with \<open>i \<noteq> dir\<close> Some res rc have "walk (de_parent_ino e) dir True es = Some b" by simp
        from IH [OF this] up show ?thesis by metis
      qed
    qed
  qed
  qed
qed

lemma walk_leaves: "ancestor es i n = None \<Longrightarrow> is_in_dir_snapshot i dir True es \<noteq> None"
proof (induction n arbitrary: i)
  case (Suc n)
  then show ?case by (subst walk_unfold) (auto split: option.splits)
qed simp

lemma walk_arrives: "ancestor es i n = Some dir \<Longrightarrow> is_in_dir_snapshot i dir True es = Some True"
proof (induction n arbitrary: i)
  case 0
  then show ?case by (simp add: walk_unfold)
next
  case (Suc n)
  then show ?case by (subst walk_unfold) (auto split: option.splits)
qed

text \<open>C21: When the recursive walk returns, and when it does not. It answers yes exactly when the
  directory is an ancestor; it never returns exactly when the chain of parents neither ends nor meets
  the directory, as in a cycle of parents; in all other cases it returns.\<close>

theorem walk_ends_unless_cyclic:
  "(is_in_dir s i dir True = Some True \<longleftrightarrow> (\<exists>n. ancestor (hm_values (entries s)) i n = Some dir))
   \<and> (is_in_dir s i dir True = None \<longleftrightarrow>
        (\<forall>n. \<exists>j. ancestor (hm_values (entries s)) i n = Some j \<and> j \<noteq> dir))"
proof -
  let ?es = "hm_values (entries s)" and ?r = "is_in_dir_snapshot i dir True (hm_values (entries s))"
  have yes: "?r = Some True \<longleftrightarrow> (\<exists>n. ancestor ?es i n = Some dir)"
    using walk_result [of i dir True ?es True] walk_arrives [of ?es i _ dir] by auto
  have "?r = None \<longleftrightarrow> (\<forall>n. ancestor ?es i n \<noteq> None \<and> ancestor ?es i n \<noteq> Some dir)"
  proof
    assume none: "?r = None"
    show "\<forall>n. ancestor ?es i n \<noteq> None \<and> ancestor ?es i n \<noteq> Some dir"
      using none walk_leaves [of ?es i _ dir] walk_arrives [of ?es i _ dir] by (metis option.discI)
  next
    assume chain: "\<forall>n. ancestor ?es i n \<noteq> None \<and> ancestor ?es i n \<noteq> Some dir"
    show "?r = None"
    proof (cases ?r)
      case (Some b)
      from walk_result [OF this] chain show ?thesis by (cases b) auto
    qed
  qed
  also have "\<dots> \<longleftrightarrow> (\<forall>n. \<exists>j. ancestor ?es i n = Some j \<and> j \<noteq> dir)"
    by (metis option.collapse option.discI option.inject)
  finally show ?thesis unfolding is_in_dir_def using yes by blast
qed

end
