(* ===== verification/Spec2Isabelle.thy ===== *)
theory Spec2Isabelle
  imports Wal_Store Range_Lease Orset_Laws
begin

text \<open>
  \<^bold>\<open>PowerFS: the volume log, the lease store and the directory set.\<close>

  PowerFS is a distributed file system. A volume server keeps file data as \<^emph>\<open>needles\<close> in volumes, hands
  out leases on stripes of files to the clients that write them, and clients keep replicas of directories
  that converge without coordination. This development models three parts of it completely enough to
  state what they promise: the write-ahead log under a volume (\<^verbatim>\<open>powerfs-core/src/wal\<close>), the lease store
  with its stripe leases (\<^verbatim>\<open>powerfs-lease\<close>, \<^verbatim>\<open>powerfs-volume/src/range_lease.rs\<close>), and the observed-remove
  set of directory entries (\<^verbatim>\<open>powerfs-orset\<close>). All paths are below \<^verbatim>\<open>src/\<close>.

  \<^bold>\<open>Conventions.\<close> Integers keep their width as words, and subtraction wraps or saturates where the code's
  does. A \<^verbatim>\<open>Result\<close> is a sum with the error on the left. A call that panics or never returns is \<^const>\<open>None\<close>
  where that can happen. A \<^verbatim>\<open>HashMap\<close> is an association list without repeated keys, a \<^verbatim>\<open>HashSet\<close> a list
  without repetitions; the order of the list stands for the iteration order. A file is its list of bytes, a
  directory the list of its files. Clock readings, UUIDs and the third-party functions \<^verbatim>\<open>crc32c\<close> and the
  persistence backend are arguments; nothing is assumed about a checksum.

  \<^bold>\<open>The write-ahead log.\<close> A write becomes a DATA record in the active segment, group commit syncs it, and
  the index remembers where it is. Recovery loads a checkpoint and replays the segments after it;
  collection moves live needles out of segments that hold much dead data.
  \<^item> \<^verbatim>\<open>PFS_Prelude\<close>: words, byte strings, little-endian codecs, slices, hash maps.
  \<^item> \<^verbatim>\<open>Wal_Frame\<close> (\<^verbatim>\<open>frame.rs\<close>): frames and payloads. The scanner accepts exactly the encoded frames, and every
    payload is read back (locales \<open>payload_codec\<close>, \<open>strict_codec\<close>).
  \<^item> \<^verbatim>\<open>Wal_Segment\<close>, \<^verbatim>\<open>Wal_Writer\<close> (\<^verbatim>\<open>segment.rs\<close>): segment files. A scan returns the appended records; a file cut
    anywhere and reopened holds a prefix of them; a torn append in a preallocated file is taken for corruption.
  \<^item> \<^verbatim>\<open>Wal_Index\<close>, \<^verbatim>\<open>Wal_Index_Laws\<close> (\<^verbatim>\<open>index.rs\<close>): the statistics agree with the contents, the index refines one
    automaton per needle, the last record of a needle wins, and replaying a log over its own index changes
    nothing. Two exceptions are proved for all logs that have them: a needle written and deleted again after
    its purge adds to the ledger in every pass, and records out of order give another index.
  \<^item> \<^verbatim>\<open>Wal_Manifest\<close> (\<^verbatim>\<open>manifest.rs\<close>): the list of segments, with one active segment.
  \<^item> \<^verbatim>\<open>Wal_Replay\<close> (\<^verbatim>\<open>replay.rs\<close>): after a crash replay builds the index of a prefix of the log, and damage in the middle
    stops it.
  \<^item> \<^verbatim>\<open>Wal_Checkpoint\<close> (\<^verbatim>\<open>checkpoint.rs\<close>), \<^verbatim>\<open>Wal_Superblock\<close> (\<^verbatim>\<open>superblock.rs\<close>): both are replaced without a moment
    in which a crash loses them; recovery from a checkpoint equals recovery from the whole log (locale
    \<open>fixed_record\<close>).
  \<^item> \<^verbatim>\<open>Wal_Commit\<close> (\<^verbatim>\<open>commit.rs\<close>): the queue and its worker as the step relation \<open>qstep\<close> over all interleavings,
    with threads asleep on condition variables until notified. No wake-up of a strict writer is lost: five steps of
    the worker are enough for its receipt. The locale \<open>commit_sink\<close> states the sink's contract.
  \<^item> \<^verbatim>\<open>Wal_Sink\<close> (\<^verbatim>\<open>SegSink\<close> in \<^verbatim>\<open>engine.rs\<close>): the segments fulfil that contract, so an acknowledged strict write
    survives a crash; an append returns, after at most one roll, unless the record is too large for any segment.
  \<^item> \<^verbatim>\<open>Wal_Engine\<close> (\<^verbatim>\<open>engine.rs\<close>), \<^verbatim>\<open>Wal_Gc\<close> (\<^verbatim>\<open>gc.rs\<close>), \<^verbatim>\<open>Wal_Store\<close>: the volume with its operations and its collector
    implements a map from needle ids to data (locale \<open>map_store\<close>), writes complete, the size limit holds,
    and a read that overlaps a collection finds its needle.

  \<^bold>\<open>Leases.\<close> The store grants tokens for keys; two live leases whose keys clash are both shared or of one
  holder. The volume server uses it with stripes as keys.
  \<^item> \<^verbatim>\<open>Lease_Store\<close> (\<^verbatim>\<open>store.rs\<close>, \<^verbatim>\<open>token.rs\<close>, \<^verbatim>\<open>error.rs\<close>, \<^verbatim>\<open>persistence.rs\<close>): every operation of \<^verbatim>\<open>MemoryLeaseStore\<close>
    and the entry codec.
  \<^item> \<^verbatim>\<open>Lease_Laws\<close>: the contract of a key (locale \<open>lease_key\<close>), the exclusion invariant, that every operation
    keeps it, unique tokens, and the handlers' interleavings as the step relation \<open>lease_step\<close>.
  \<^item> \<^verbatim>\<open>Range_Lease\<close> (\<^verbatim>\<open>range_lease.rs\<close>): stripes as keys, the manager, exclusion of stripe writers, batches that
    grant everything or nothing, and the renewal of an expired lease, which breaks exclusion.

  \<^bold>\<open>Directories.\<close> A replica holds the live entries, the removed ids and a vector clock; other replicas
  send their deltas or their whole state.
  \<^item> \<^verbatim>\<open>Orset\<close> (\<^verbatim>\<open>powerfs-orset/src/lib.rs\<close>): entries, clocks, local changes, deltas with conflict detection,
    merging, resolution, statistics.
  \<^item> \<^verbatim>\<open>Orset_Laws\<close>: vector clocks follow causality; replicas that merge the same states or apply the same deltas
    agree (locales \<open>joins\<close>, \<open>state_crdt\<close>, \<open>op_crdt\<close>); replicas stay well formed; a delta log carries all
    changes. Convergence is about ids, not about the attributes of an entry: the code takes the attributes
    that arrive last. It also shows where the code falls short: conflicts that are dropped, clocks that
    depend on the order of delivery, and a walk that does not end on cyclic parents.

  \<^bold>\<open>Loops and fuel.\<close> Loops over data are structural recursions or have a termination proof. Two may not
  end and are \<^theory_text>\<open>partial_function (option)\<close> or have the result \<^const>\<open>None\<close>: rolling segments for a record that
  fits none, and the walk along parents. For both the development states when they return. Concurrency is
  modelled by the step relations above, one step per stretch of code under a lock.

  \<^bold>\<open>Not modelled.\<close> Failures of the operating system's file calls, allocation failures and the timing of
  background threads; the engine's operations have one caller at a time, while the interleavings of the
  queue, of a read with a collection, and of the lease handlers are modelled. The offline commands of
  \<^verbatim>\<open>wal/admin.rs\<close> print what the modelled readers return. \<^verbatim>\<open>guard.rs\<close> of the lease crate releases a lease from a
  task of the asynchronous runtime. The RocksDB and Raft lease backends are the persistence argument. The
  older needle volumes, the key-value cache and its CRDT, the filer with its inode leases and CRDTs, the
  health scoring of lock clients, the allocator and the layout policies are separate components that this
  development does not reach. The Raft layer, the network transports, FUSE, the S3 and HTTP front ends, the
  monitor and the command-line tools are asynchronous I/O around third-party crates.
\<close>

end
